(* ===== verification/Prelude.thy ===== *)
theory Prelude
  imports Main "HOL-Library.Word"
begin

unbundle bit_operations_syntax

text \<open>
  Shared vocabulary of the development: bytes and C integers, results of fallible code, and
  little-endian byte layouts. A C function that may leave through \<open>luaL_error\<close> or that may run
  into undefined behaviour returns a \<open>res\<close>: \<open>Inl (Raise e)\<close> is the Lua error \<open>e\<close>,
  \<open>Inl (UB f)\<close> is the fault \<open>f\<close> the C text would run into (an access outside an object, a signed
  overflow, a read of an indeterminate byte, a null dereference, a loop that never ends, an array of
  a size that is zero or more than the stack holds), and
  \<open>Inr x\<close> is a normal return.
\<close>

named_theorems le_simps "little-endian layout of machine integers"
named_theorems res_simps "reading and composing results"

section \<open>Results of C code\<close>

type_synonym byte = "8 word"
type_synonym bytes = "byte list"

datatype fault = OutOfBounds | SignedOverflow | UninitRead | NullDeref | Diverges | BadArraySize

datatype 'e err = Raise 'e | UB fault

type_synonym ('e, 'a) res = "'e err + 'a"

fun rbind :: "('e, 'a) res \<Rightarrow> ('a \<Rightarrow> ('e, 'b) res) \<Rightarrow> ('e, 'b) res" where
  "rbind (Inl e) f = Inl e"
| "rbind (Inr x) f = f x"

lemma rbind_cong [fundef_cong]:
  assumes "r = r'" and "\<And>x. r' = Inr x \<Longrightarrow> f x = g x"
  shows "rbind r f = rbind r' g"
  using assms by (cases r') auto

lemma rbind_Inr_iff [res_simps]: "rbind r f = Inr y \<longleftrightarrow> (\<exists>x. r = Inr x \<and> f x = Inr y)"
  by (cases r) auto

lemma rbind_Inl_iff [res_simps]:
  "rbind r f = Inl e \<longleftrightarrow> r = Inl e \<or> (\<exists>x. r = Inr x \<and> f x = Inl e)"
  by (cases r) auto

lemma rbind_assoc: "rbind (rbind r f) g = rbind r (\<lambda>x. rbind (f x) g)"
  by (cases r) auto

lemma rbind_Inr_right [simp]: "rbind r Inr = r"
  by (cases r) auto

lemma rbind_If: "rbind (if c then r else s) f = (if c then rbind r f else rbind s f)"
  by simp

text \<open>A computation that cannot reach undefined behaviour: it returns or raises a Lua error.\<close>

fun defined :: "('e, 'a) res \<Rightarrow> bool" where
  "defined (Inl (UB f)) = False"
| "defined (Inl (Raise e)) = True"
| "defined (Inr x) = True"

lemma defined_rbindI [intro]:
  assumes "defined r" and "\<And>x. r = Inr x \<Longrightarrow> defined (f x)"
  shows "defined (rbind r f)"
  using assms by (cases r rule: defined.cases) auto

lemma defined_iff: "defined r \<longleftrightarrow> (\<forall>f. r \<noteq> Inl (UB f))"
  by (cases r rule: defined.cases) auto

text \<open>
  Hoare-style reasoning: \<open>ends A r P\<close> says that \<open>r\<close> ends with an error among \<open>A\<close> or returns a value
  that satisfies \<open>P\<close>.
\<close>

definition ends :: "('e err \<Rightarrow> bool) \<Rightarrow> ('e, 'a) res \<Rightarrow> ('a \<Rightarrow> bool) \<Rightarrow> bool" where
  "ends A r P = (case r of Inl e \<Rightarrow> A e | Inr x \<Rightarrow> P x)"

lemma ends_simps [simp]: "ends A (Inl e) P = A e" "ends A (Inr x) P = P x"
  by (simp_all add: ends_def)

lemma ends_rbind:
  assumes "ends A r P" and "\<And>x. P x \<Longrightarrow> ends A (f x) Q"
  shows "ends A (rbind r f) Q"
  using assms by (cases r) auto

lemma ends_mono: "ends A r P \<Longrightarrow> (\<And>x. P x \<Longrightarrow> Q x) \<Longrightarrow> ends A r Q"
  by (cases r) auto

abbreviation terminating :: "'e err \<Rightarrow> bool" where
  "terminating e \<equiv> e \<noteq> UB Diverges"

fun lua_error :: "'e err \<Rightarrow> bool" where
  "lua_error (Raise e) = True"
| "lua_error (UB f) = False"

lemma ends_lua_error: "ends lua_error r P \<Longrightarrow> defined r"
  by (cases r rule: defined.cases) auto

section \<open>C integers\<close>

text \<open>
  \<open>int\<close> values are mathematical integers whose arithmetic is checked: a result outside
  \<open>INT_MIN .. INT_MAX\<close> is undefined behaviour. Conversions to a narrower or unsigned type wrap.
\<close>

abbreviation INT_MAX :: int where "INT_MAX \<equiv> 2147483647"
abbreviation INT_MIN :: int where "INT_MIN \<equiv> - 2147483648"
abbreviation SIZE_MAX :: int where "SIZE_MAX \<equiv> 18446744073709551615"

definition c_int :: "int \<Rightarrow> ('e, int) res" where
  "c_int x = (if INT_MIN \<le> x \<and> x \<le> INT_MAX then Inr x else Inl (UB SignedOverflow))"

lemma c_int_in_range [simp]: "INT_MIN \<le> x \<Longrightarrow> x \<le> INT_MAX \<Longrightarrow> c_int x = Inr x"
  by (simp add: c_int_def)

lemma c_int_Inr_iff [res_simps]: "c_int x = Inr y \<longleftrightarrow> y = x \<and> INT_MIN \<le> x \<and> x \<le> INT_MAX"
  by (auto simp: c_int_def)

definition to_int32 :: "int \<Rightarrow> int" where
  "to_int32 x = sint (word_of_int x :: 32 word)"

lemma sint32_of_int [simp]:
  "INT_MIN \<le> x \<Longrightarrow> x \<le> INT_MAX \<Longrightarrow> sint (word_of_int x :: 32 word) = x"
  by (simp add: signed_of_int signed_take_bit_int_eq_self_iff)

lemma to_int32_id [simp]: "INT_MIN \<le> x \<Longrightarrow> x \<le> INT_MAX \<Longrightarrow> to_int32 x = x"
  by (simp add: to_int32_def)

lemma sint32_range: "INT_MIN \<le> sint (w :: 32 word)" "sint (w :: 32 word) \<le> INT_MAX"
  using sint_ge [of w] sint_lt [of w] by auto

lemma to_int32_range: "INT_MIN \<le> to_int32 x" "to_int32 x \<le> INT_MAX"
  by (simp_all only: to_int32_def sint32_range)

section \<open>Little-endian layouts\<close>

definition le32 :: "32 word \<Rightarrow> bytes" where
  "le32 uv = [ucast (uv AND 0xff), ucast (drop_bit 8 uv AND 0xff),
     ucast (drop_bit 16 uv AND 0xff), ucast (drop_bit 24 uv AND 0xff)]"

definition le64 :: "64 word \<Rightarrow> bytes" where
  "le64 uv = map (\<lambda>i. ucast (drop_bit (8 * i) uv AND 0xff)) [0, 1, 2, 3, 4, 5, 6, 7]"

fun of_le32 :: "bytes \<Rightarrow> 32 word" where
  "of_le32 [b0, b1, b2, b3] =
     ucast b0 OR push_bit 8 (ucast b1) OR push_bit 16 (ucast b2) OR push_bit 24 (ucast b3)"
| "of_le32 bs = 0"

definition of_le64 :: "bytes \<Rightarrow> 64 word" where
  "of_le64 bs = ucast (of_le32 (take 4 bs)) OR push_bit 32 (ucast (of_le32 (drop 4 bs)))"

lemma length_le32 [simp]: "length (le32 w) = 4"
  by (simp add: le32_def)

lemma length_le64 [simp]: "length (le64 w) = 8"
  by (simp add: le64_def)

lemma mask8: "(0xff :: 'a::len word) = mask 8"
  by (simp add: mask_eq_exp_minus_1)

lemma bit_beyond: "LENGTH('a) \<le> n \<Longrightarrow> \<not> bit (w :: 'a::len word) n"
  using bit_imp_le_length [of w n] by auto

lemma le32_ucast [le_simps]:
  "le32 w = [ucast w, ucast (drop_bit 8 w), ucast (drop_bit 16 w), ucast (drop_bit 24 w)]"
  unfolding le32_def mask8
  by (simp, intro conjI; rule bit_word_eqI; simp add: bit_simps)

lemma le64_ucast:
  "le64 w = [ucast w, ucast (drop_bit 8 w), ucast (drop_bit 16 w), ucast (drop_bit 24 w),
     ucast (drop_bit 32 w), ucast (drop_bit 40 w), ucast (drop_bit 48 w), ucast (drop_bit 56 w)]"
  unfolding le64_def mask8 list.map
  by (simp, intro conjI; rule bit_word_eqI; simp add: bit_simps)

lemma le64_split [le_simps]: "le64 w = le32 (ucast w) @ le32 (ucast (drop_bit 32 w))"
  unfolding le64_ucast le32_ucast
  by (simp, (intro conjI; rule bit_word_eqI; simp add: bit_simps add.commute))

lemma of_le32_le32 [simp]: "of_le32 (le32 w) = w"
  unfolding le32_ucast of_le32.simps
proof (rule bit_word_eqI)
  fix n assume "n < LENGTH(32)"
  then have "n < 8 \<or> 8 \<le> n \<and> n < 16 \<or> 16 \<le> n \<and> n < 24 \<or> 24 \<le> n \<and> n < 32" by auto
  then show "bit (ucast (ucast w :: 8 word) OR push_bit 8 (ucast (ucast (drop_bit 8 w) :: 8 word)) OR
      push_bit 16 (ucast (ucast (drop_bit 16 w) :: 8 word)) OR
      push_bit 24 (ucast (ucast (drop_bit 24 w) :: 8 word)) :: 32 word) n = bit w n"
    by (elim disjE) (auto simp: bit_simps)
qed

lemma le32_of_le32 [simp]:
  assumes "length bs = 4"
  shows "le32 (of_le32 bs) = bs"
proof -
  from assms obtain a b c d where bs: "bs = [a, b, c, d]"
    by (auto simp: length_Suc_conv numeral_eq_Suc)
  show ?thesis unfolding bs of_le32.simps le32_ucast
    by (simp, intro conjI; rule bit_word_eqI; auto simp: bit_simps bit_beyond)
qed

lemma of_le64_le64 [simp]: "of_le64 (le64 w) = w"
proof -
  have "of_le64 (le64 w) = ucast (ucast w :: 32 word) OR push_bit 32 (ucast (ucast (drop_bit 32 w) :: 32 word))"
    by (simp add: of_le64_def le64_split)
  also have "\<dots> = w"
    by (rule bit_word_eqI) (auto simp: bit_simps)
  finally show ?thesis .
qed

lemma le64_of_le64 [simp]:
  assumes "length bs = 8"
  shows "le64 (of_le64 bs) = bs"
proof -
  have lo: "ucast (of_le64 bs) = of_le32 (take 4 bs)"
    unfolding of_le64_def by (rule bit_word_eqI) (auto simp: bit_simps bit_beyond)
  have hi: "ucast (drop_bit 32 (of_le64 bs)) = of_le32 (drop 4 bs)"
    unfolding of_le64_def by (rule bit_word_eqI) (auto simp: bit_simps bit_beyond)
  show ?thesis unfolding le64_split lo hi using assms by simp
qed

end
