(* ===== verification/Grow_Buffer.thy ===== *)
theory Grow_Buffer
  imports Prelude
begin

text \<open>
  The growable byte buffer that both C modules of \<open>cext/\<close> declare (\<open>struct bson\<close> in
  \<open>lua-bson.c\<close>, \<open>struct buffer\<close> in \<open>lua-mongo.c\<close>): the memory block, C stores into it, the
  invariant, and as a locale the contract of the \<open>reserve\<close> operation of either module with the
  lemmas its clients rest on. The block is a list of optional bytes: \<open>None\<close> is a byte that
  \<open>malloc\<close> or the stack left indeterminate. A store outside the block is \<open>UB OutOfBounds\<close>.
\<close>

section \<open>The block and stores into it\<close>

text \<open>\<open>b_heap\<close> records whether \<open>ptr\<close> is a heap block or still the inline array \<open>buffer\<close>.\<close>

record buf =
  b_size :: nat
  b_cap :: nat
  b_ptr :: "byte option list"
  b_heap :: bool

definition put :: "buf \<Rightarrow> nat \<Rightarrow> byte \<Rightarrow> ('e, buf) res" where
  "put b i v = (if i < length (b_ptr b) then Inr (b\<lparr>b_ptr := (b_ptr b)[i := Some v]\<rparr>)
     else Inl (UB OutOfBounds))"

text \<open>\<open>b->ptr[b->size++] = v\<close>, and the same for several values one after the other.\<close>

definition push_byte :: "buf \<Rightarrow> byte \<Rightarrow> ('e, buf) res" where
  "push_byte b v = rbind (put b (b_size b) v) (\<lambda>b. Inr (b\<lparr>b_size := b_size b + 1\<rparr>))"

fun push_bytes :: "buf \<Rightarrow> bytes \<Rightarrow> ('e, buf) res" where
  "push_bytes b [] = Inr b"
| "push_bytes b (v # vs) = rbind (push_byte b v) (\<lambda>b. push_bytes b vs)"

text \<open>Stores at \<open>off, off + 1, ...\<close>\<close>

fun puts :: "buf \<Rightarrow> nat \<Rightarrow> bytes \<Rightarrow> ('e, buf) res" where
  "puts b off [] = Inr b"
| "puts b off (v # vs) = rbind (put b off v) (\<lambda>b. puts b (off + 1) vs)"

text \<open>\<open>memcpy(b->ptr + b->size, src, n)\<close> with the \<open>n\<close> bytes of the source given.\<close>

definition memcpy_end :: "buf \<Rightarrow> bytes \<Rightarrow> ('e, buf) res" where
  "memcpy_end b src = (if b_size b + length src \<le> length (b_ptr b)
     then Inr (b\<lparr>b_ptr := take (b_size b) (b_ptr b) @ map Some src @
                 drop (b_size b + length src) (b_ptr b)\<rparr>)
     else Inl (UB OutOfBounds))"

text \<open>What has been written so far, and the bytes of a copy that must all be determinate.\<close>

definition content :: "buf \<Rightarrow> byte option list" where
  "content b = take (b_size b) (b_ptr b)"

definition read_out :: "buf \<Rightarrow> ('e, bytes) res" where
  "read_out b = (if length (b_ptr b) < b_size b then Inl (UB OutOfBounds)
     else if None \<in> set (content b) then Inl (UB UninitRead)
     else Inr (map the (content b)))"

lemma read_out_Some: "b_size b \<le> length (b_ptr b) \<Longrightarrow> content b = map Some bs \<Longrightarrow> read_out b = Inr bs"
  by (auto simp: read_out_def)

section \<open>Invariant\<close>

text \<open>
  The capacity is the length of the block and a power of two of at most \<open>2^30\<close>: it starts as
  \<open>DEFAULT_CAP\<close> and only ever doubles, and the next doubling would overflow an \<open>int\<close>.
\<close>

definition buf_ok :: "buf \<Rightarrow> bool" where
  "buf_ok b \<longleftrightarrow> b_size b \<le> b_cap b \<and> length (b_ptr b) = b_cap b \<and> (\<exists>k \<le> 30. b_cap b = 2 ^ k)"

lemma buf_ok_cap: "buf_ok b \<Longrightarrow> 0 < b_cap b \<and> b_cap b \<le> 2 ^ 30"
  by (auto simp: buf_ok_def intro: power_increasing [of _ 30 "2::nat", simplified])

lemma length_content: "buf_ok b \<Longrightarrow> length (content b) = b_size b"
  by (simp add: buf_ok_def content_def)

lemma buf_okE:
  assumes "buf_ok b"
  obtains rest k where "b_ptr b = content b @ rest" and "length (content b) = b_size b"
    and "b_cap b = b_size b + length rest" and "b_size b + length rest = 2 ^ k" and "k \<le> 30"
proof -
  from assms obtain k where k: "k \<le> 30" "b_cap b = 2 ^ k" and le: "b_size b \<le> b_cap b"
    and len: "length (b_ptr b) = b_cap b"
    by (auto simp: buf_ok_def)
  show ?thesis
    by (rule that [of "drop (b_size b) (b_ptr b)" k]) (use k le len in \<open>auto simp: content_def\<close>)
qed

lemma buf_okI:
  "b_ptr b = xs @ rest \<Longrightarrow> length xs = b_size b \<Longrightarrow> b_cap b = b_size b + length rest \<Longrightarrow>
   b_size b + length rest = 2 ^ k \<Longrightarrow> k \<le> 30 \<Longrightarrow> buf_ok b \<and> content b = xs"
  by (auto simp: buf_ok_def content_def)

lemma puts_eq:
  "off + length vs \<le> length (b_ptr b) \<Longrightarrow>
   puts b off vs = Inr (b\<lparr>b_ptr := take off (b_ptr b) @ map Some vs @ drop (off + length vs) (b_ptr b)\<rparr>)"
proof (induction vs arbitrary: b off)
  case (Cons v vs)
  then show ?case
    by (simp add: put_def take_Suc_conv_app_nth take_update_swap drop_update_swap
        upd_conv_take_nth_drop add.commute)
qed simp

lemma push_bytes_eq:
  "b_size b + length vs \<le> length (b_ptr b) \<Longrightarrow>
   push_bytes b vs = Inr (b\<lparr>b_size := b_size b + length vs,
     b_ptr := take (b_size b) (b_ptr b) @ map Some vs @ drop (b_size b + length vs) (b_ptr b)\<rparr>)"
proof (induction vs arbitrary: b)
  case (Cons v vs)
  then show ?case
    by (simp add: push_byte_def put_def take_Suc_conv_app_nth take_update_swap drop_update_swap
        upd_conv_take_nth_drop add.commute)
qed simp

lemma memcpy_push:
  "b_size b + length src \<le> length (b_ptr b) \<Longrightarrow>
   rbind (memcpy_end b src) (\<lambda>b. Inr (b\<lparr>b_size := b_size b + length src\<rparr>)) = push_bytes b src"
  by (simp add: memcpy_end_def push_bytes_eq)

lemma memcpy_put_push:
  "b_size b + length src + 1 \<le> length (b_ptr b) \<Longrightarrow>
   rbind (memcpy_end b src) (\<lambda>b. rbind (put b (b_size b + length src) v)
     (\<lambda>b. Inr (b\<lparr>b_size := b_size b + (length src + 1)\<rparr>))) = push_bytes b (src @ [v])"
  by (simp add: memcpy_end_def put_def push_bytes_eq list_update_append
      Cons_nth_drop_Suc [symmetric])

section \<open>Refinement of a byte string\<close>

text \<open>
  The largest size a buffer may be asked to hold: below it \<open>reserve\<close> succeeds and leaves room,
  above it the doubling of the capacity overflows.
\<close>

abbreviation buf_limit :: int where "buf_limit \<equiv> 1073741824"

definition fits :: "buf \<Rightarrow> nat \<Rightarrow> bool" where
  "fits b n \<longleftrightarrow> int (b_size b) + int n < buf_limit"

text \<open>
  A specification \<open>s\<close> of a writer is the byte string it has to append, or the error it has to
  raise. \<open>refines r b s\<close>: the computation \<open>r\<close>, started on the good buffer \<open>b\<close>, returns only with
  a good buffer to whose content exactly the bytes of \<open>s\<close> have been added, all of them determinate;
  raises only the error of \<open>s\<close>; and faults only when \<open>s\<close> is no byte string, or one that does not
  fit below the limit.
\<close>

definition refines :: "('e, buf) res \<Rightarrow> buf \<Rightarrow> ('e, bytes) res \<Rightarrow> bool" where
  "refines r b s = (case r of
     Inr b' \<Rightarrow> (case s of Inr bs \<Rightarrow> buf_ok b' \<and> content b' = content b @ map Some bs | Inl e \<Rightarrow> False)
   | Inl (Raise e) \<Rightarrow> s = Inl (Raise e)
   | Inl (UB f) \<Rightarrow> (case s of Inr bs \<Rightarrow> \<not> fits b (length bs) | Inl e \<Rightarrow> True))"

lemma refines_Inr_iff:
  "refines (Inr b') b s \<longleftrightarrow> (\<exists>bs. s = Inr bs \<and> buf_ok b' \<and> content b' = content b @ map Some bs)"
  by (auto simp: refines_def split: sum.splits)

lemma refines_Raise_iff: "refines (Inl (Raise e)) b s \<longleftrightarrow> s = Inl (Raise e)"
  by (auto simp: refines_def)

lemma refines_UB_iff: "refines (Inl (UB f)) b s \<longleftrightarrow> (\<forall>bs. s = Inr bs \<longrightarrow> \<not> fits b (length bs))"
  by (auto simp: refines_def split: sum.splits)

lemmas refines_iffs = refines_Inr_iff refines_Raise_iff refines_UB_iff

lemma refines_ok:
  "refines r b (Inr bs) \<Longrightarrow> fits b (length bs) \<Longrightarrow>
   \<exists>b'. r = Inr b' \<and> buf_ok b' \<and> content b' = content b @ map Some bs"
  by (auto simp: refines_def split: sum.splits err.splits)

lemma refines_Inl: "refines (Inl e) b (Inl e)"
  by (cases e) (auto simp: refines_def)

lemma refines_Nil: "buf_ok b \<Longrightarrow> refines (Inr b) b (Inr [])"
  by (simp add: refines_def)

text \<open>Specifications in sequence, and the rule that composes refinements.\<close>

definition then_append :: "('e, bytes) res \<Rightarrow> ('e, bytes) res \<Rightarrow> ('e, bytes) res" where
  "then_append s t = rbind s (\<lambda>bs. rbind t (\<lambda>cs. Inr (bs @ cs)))"

lemma then_append_Inr [simp]: "then_append (Inr bs) (Inr cs) = Inr (bs @ cs)"
  by (simp add: then_append_def)

lemma then_append_Inl [simp]: "then_append (Inl e) t = Inl e" "then_append (Inr bs) (Inl e) = Inl e"
  by (simp_all add: then_append_def)

lemma size_append:
  assumes "buf_ok b" and "buf_ok b'" and "content b' = content b @ xs"
  shows "b_size b' = b_size b + length xs"
  using assms length_content [of b] length_content [of b'] by simp

lemma refines_then:
  assumes "buf_ok b" and "refines r b s"
    and "\<And>b' bs. r = Inr b' \<Longrightarrow> s = Inr bs \<Longrightarrow> buf_ok b' \<Longrightarrow>
           b_size b' = b_size b + length bs \<Longrightarrow> refines (f b') b' t"
  shows "refines (rbind r f) b (then_append s t)"
proof (cases r)
  case (Inl e)
  then show ?thesis
    using assms(2) by (cases e; cases t) (auto simp: refines_iffs then_append_def res_simps fits_def)
next
  case (Inr b')
  with assms(2) obtain bs where bs: "s = Inr bs" "buf_ok b'" "content b' = content b @ map Some bs"
    by (auto simp: refines_Inr_iff)
  then have sz: "b_size b' = b_size b + length bs"
    using size_append [OF assms(1)] by simp
  then have "refines (f b') b' t"
    using assms(3) Inr bs by blast
  then show ?thesis
    using Inr bs sz by (cases "f b'" rule: defined.cases) (auto simp: refines_iffs then_append_def res_simps fits_def)
qed

text \<open>A patch of bytes that were reserved before.\<close>

lemma puts_patch:
  assumes "buf_ok b" and "content b = pre @ mid @ post" and "length vs = length mid"
  shows "\<exists>b'. (puts b (length pre) vs :: ('e, buf) res) = Inr b' \<and> buf_ok b' \<and> content b' = pre @ map Some vs @ post"
proof -
  from assms(1) obtain rest k where b: "b_ptr b = content b @ rest" "length (content b) = b_size b"
      "b_cap b = b_size b + length rest" "b_size b + length rest = 2 ^ k" "k \<le> 30"
    by (rule buf_okE)
  let ?b' = "b\<lparr>b_ptr := pre @ map Some vs @ post @ rest\<rparr>"
  have "(puts b (length pre) vs :: ('e, buf) res) = Inr ?b'"
    using b assms(2,3) by (subst puts_eq) auto
  moreover have "buf_ok ?b' \<and> content ?b' = pre @ map Some vs @ post"
    using b assms(2,3) by (intro buf_okI [where rest = rest and k = k]) auto
  ultimately show ?thesis by blast
qed

lemma push_refines:
  assumes "buf_ok b" and "b_size b + length vs \<le> length (b_ptr b)"
  shows "refines (push_bytes b vs :: ('e, buf) res) b (Inr vs)"
proof -
  from assms(1) obtain rest k where r: "b_ptr b = content b @ rest" "length (content b) = b_size b"
      "b_cap b = b_size b + length rest" "b_size b + length rest = 2 ^ k" "k \<le> 30"
    by (rule buf_okE)
  let ?b' = "b\<lparr>b_size := b_size b + length vs,
    b_ptr := content b @ map Some vs @ drop (length vs) rest\<rparr>"
  have le: "length vs \<le> length rest"
    using assms(2) arg_cong [OF r(1), of length] r(2) by simp
  have "take (b_size b) (b_ptr b) = content b"
    "drop (b_size b + length vs) (b_ptr b) = drop (length vs) rest"
    using r(1,2) by (simp_all add: content_def)
      (metis append_eq_conv_conj drop_drop add.commute r(1) r(2))
  then have "(push_bytes b vs :: ('e, buf) res) = Inr ?b'"
    using assms(2) by (simp add: push_bytes_eq)
  moreover have "buf_ok ?b' \<and> content ?b' = content b @ map Some vs"
    using r le by (intro buf_okI [where rest = "drop (length vs) rest" and k = k]) auto
  ultimately show ?thesis by (simp add: refines_Inr_iff)
qed

section \<open>Growing\<close>

text \<open>
  The doubling loop \<open>do cap *= 2; while (cap <= need)\<close> on \<open>int\<close>: with a capacity of 0 it would not
  end, and a doubling past \<open>INT_MAX\<close> is a signed overflow.
\<close>

function grow_cap :: "nat \<Rightarrow> int \<Rightarrow> ('e, nat) res" where
  "grow_cap cap need =
     (if cap = 0 then Inl (UB Diverges)
      else if INT_MAX < 2 * int cap then Inl (UB SignedOverflow)
      else if 2 * int cap \<le> need then grow_cap (2 * cap) need
      else Inr (2 * cap))"
  by pat_completeness auto
termination by (relation "measure (\<lambda>(cap, need). nat (need - int cap))") auto

declare grow_cap.simps [simp del]

text \<open>\<open>realloc\<close> keeps the old bytes and leaves the new ones indeterminate.\<close>

definition realloc_block :: "byte option list \<Rightarrow> nat \<Rightarrow> byte option list" where
  "realloc_block old n = take n old @ replicate (n - length old) None"

text \<open>
  The body both modules give to their \<open>reserve\<close>: return when the request fits, otherwise double,
  and move the inline bytes to the heap or reallocate. (\<open>malloc\<close> is taken to succeed: neither
  module tests its result.)
\<close>

definition reserve_body :: "buf \<Rightarrow> int \<Rightarrow> ('e, buf) res" where
  "reserve_body b sz = rbind (c_int (int (b_size b) + sz)) (\<lambda>need.
     if need \<le> int (b_cap b) then Inr b
     else rbind (grow_cap (b_cap b) need) (\<lambda>cap.
       Inr (if b_heap b then b\<lparr>b_cap := cap, b_ptr := realloc_block (b_ptr b) cap\<rparr>
            else b\<lparr>b_cap := cap, b_ptr := realloc_block (take (b_size b) (b_ptr b)) cap,
                   b_heap := True\<rparr>)))"

lemma grow_cap_ok:
  assumes "2 ^ k \<le> need" and "need < 2 ^ 30"
  shows "\<exists>k'. (grow_cap (2 ^ k) need :: ('e, nat) res) = Inr (2 ^ k') \<and> k' \<le> 30 \<and> need < 2 ^ k'"
  using assms
proof (induction "30 - k" arbitrary: k)
  case 0
  then have "(2::int) ^ 30 \<le> 2 ^ k" by (intro power_increasing) auto
  with 0 show ?case by linarith
next
  case (Suc d)
  have "(2::int) ^ k < 2 ^ 30" using Suc.prems by linarith
  then have step: "(grow_cap (2 ^ k) need :: ('e, nat) res) =
      (if 2 ^ Suc k \<le> need then grow_cap (2 ^ Suc k) need else Inr (2 ^ Suc k))"
    by (subst grow_cap.simps) simp
  show ?case
  proof (cases "2 ^ Suc k \<le> need")
    case True
    have "d = 30 - Suc k" using Suc.hyps(2) by arith
    then show ?thesis using Suc.hyps(1) [of "Suc k"] True Suc.prems(2) step by simp
  next
    case False
    then show ?thesis using step Suc.hyps(2) by (intro exI [of _ "Suc k"]) auto
  qed
qed

lemma grow_cap_overflow:
  assumes "2 ^ k \<le> need" and "buf_limit \<le> need" and "k \<le> 30"
  shows "(grow_cap (2 ^ k) need :: ('e, nat) res) = Inl (UB SignedOverflow)"
  using assms
proof (induction "30 - k" arbitrary: k)
  case 0
  then have "k = 30" by simp
  then show ?case by (subst grow_cap.simps) simp
next
  case (Suc d)
  then have "Suc k \<le> 30" by simp
  then have le: "(2::int) ^ Suc k \<le> 2 ^ 30" by (intro power_increasing) auto
  have "(grow_cap (2 ^ k) need :: ('e, nat) res) = grow_cap (2 ^ Suc k) need"
    by (subst grow_cap.simps) (use le Suc.prems in simp)
  moreover have "d = 30 - Suc k" using Suc.hyps(2) by arith
  ultimately show ?case using Suc.hyps(1) [of "Suc k"] le Suc.prems \<open>Suc k \<le> 30\<close> by simp
qed

lemma reserve_body_ok:
  assumes ok: "buf_ok b" and n: "0 \<le> n" and lim: "int (b_size b) + n < 2 ^ 30"
  shows "\<exists>b'. (reserve_body b n :: ('e, buf) res) = Inr b' \<and> buf_ok b' \<and> b_size b' = b_size b \<and> content b' = content b \<and>
    int (b_size b) + n \<le> int (b_cap b')"
proof (cases "int (b_size b) + n \<le> int (b_cap b)")
  case True
  then show ?thesis using assms by (simp add: reserve_body_def)
next
  case False
  from ok obtain rest k where b: "b_ptr b = content b @ rest" "length (content b) = b_size b"
      "b_cap b = b_size b + length rest" "b_size b + length rest = 2 ^ k" "k \<le> 30"
    by (rule buf_okE)
  from False b have "(2::int) ^ k \<le> int (b_size b) + n"
    by (metis linear of_nat_numeral of_nat_power)
  then obtain k' where k': "(grow_cap (2 ^ k) (int (b_size b) + n) :: ('e, nat) res) = Inr (2 ^ k')" "k' \<le> 30"
      "int (b_size b) + n < 2 ^ k'"
    using grow_cap_ok lim by blast
  then have "int (b_size b) \<le> 2 ^ k'" using n by linarith
  then have cap: "b_size b \<le> 2 ^ k'" "b_cap b = 2 ^ k" using b by simp_all
  have kk: "k \<le> k'"
    using k'(3) \<open>2 ^ k \<le> int (b_size b) + n\<close> by (metis linorder_not_le nless_le order_less_trans
        power_strict_increasing_iff one_less_numeral_iff semiring_norm(76) less_le_trans)
  then have le: "b_size b + length rest \<le> 2 ^ k'" using b(4) by (simp add: power_increasing)
  let ?b1 = "b\<lparr>b_cap := 2 ^ k', b_ptr := realloc_block (b_ptr b) (2 ^ k')\<rparr>"
  let ?b2 = "b\<lparr>b_cap := 2 ^ k', b_ptr := realloc_block (take (b_size b) (b_ptr b)) (2 ^ k'), b_heap := True\<rparr>"
  have pref: "take (2 ^ k') (content b @ rest) = content b @ rest" "take (2 ^ k') (content b) = content b"
  proof -
    have "length rest \<le> 2 ^ k' - b_size b" using le by arith
    then show "take (2 ^ k') (content b @ rest) = content b @ rest" "take (2 ^ k') (content b) = content b"
      using cap b(2) by simp_all
  qed
  have "buf_ok ?b1 \<and> content ?b1 = content b"
    by (rule buf_okI [where rest = "rest @ replicate (2 ^ k' - b_cap b) None" and k = k'])
      (use b le pref k' in \<open>auto simp: realloc_block_def\<close>)
  moreover have "buf_ok ?b2 \<and> content ?b2 = content b"
    by (rule buf_okI [where rest = "replicate (2 ^ k' - b_size b) None" and k = k'])
      (use b cap pref k' in \<open>auto simp: realloc_block_def\<close>)
  moreover have "(reserve_body b n :: ('e, buf) res) = Inr (if b_heap b then ?b1 else ?b2)"
    using False n lim k' cap by (simp add: reserve_body_def)
  moreover have "int (b_size b) + n \<le> int (2 ^ k')" using k'(3) by simp
  ultimately show ?thesis by (cases "b_heap b") auto
qed

lemma grow_cap_no_raise: "grow_cap cap need \<noteq> Inl (Raise e)"
  by (induction cap need rule: grow_cap.induct) (subst grow_cap.simps, simp)

lemma reserve_body_no_raise: "reserve_body b n \<noteq> Inl (Raise e)"
  by (auto simp: reserve_body_def res_simps c_int_def grow_cap_no_raise)

lemma reserve_body_overflow:
  assumes ok: "buf_ok b" and lim: "buf_limit < int (b_size b) + n"
  shows "reserve_body b n = Inl (UB SignedOverflow)"
proof (cases "int (b_size b) + n \<le> INT_MAX")
  case True
  from ok obtain k where k: "k \<le> 30" "b_cap b = 2 ^ k" by (auto simp: buf_ok_def)
  then have "(2::int) ^ k \<le> 2 ^ 30" by (intro power_increasing) auto
  then show ?thesis using lim k True by (simp add: reserve_body_def grow_cap_overflow)
next
  case False
  then show ?thesis by (simp add: reserve_body_def c_int_def)
qed

lemma reserve_body_partial:
  assumes ok: "buf_ok b" and r: "(reserve_body b n :: ('e, buf) res) = Inr b'"
  shows "buf_ok b' \<and> content b' = content b \<and> int (b_size b) + n \<le> int (b_cap b')"
proof (cases "int (b_size b) + n \<le> int (b_cap b)")
  case True
  then show ?thesis using assms by (auto simp: reserve_body_def res_simps)
next
  case False
  from ok obtain k where k: "k \<le> 30" "b_cap b = 2 ^ k" by (auto simp: buf_ok_def)
  have "b_size b \<le> b_cap b" using ok by (simp add: buf_ok_def)
  with False have n: "0 \<le> n" by linarith
  have "(grow_cap (b_cap b) (int (b_size b) + n) :: ('e, nat) res) \<noteq> Inl (UB SignedOverflow)"
    using r False by (auto simp: reserve_body_def res_simps)
  moreover have "2 ^ k \<le> int (b_size b) + n" using False k by simp
  ultimately have "int (b_size b) + n < buf_limit"
    using grow_cap_overflow [OF _ _ k(1), where 'e = 'e] k(2) by (metis not_le)
  then show ?thesis
    using reserve_body_ok [OF ok n, where 'e = 'e] r by auto
qed

section \<open>The contract of reserve\<close>

lemma push_nofit:
  assumes "buf_ok b" and "length (b_ptr b) < b_size b + length vs"
  shows "\<exists>u. push_bytes b vs = Inl (UB u)"
proof -
  have "b_size b \<le> length (b_ptr b) \<Longrightarrow> \<exists>u. push_bytes b vs = Inl (UB u)"
    using assms(2)
  proof (induction vs arbitrary: b)
    case (Cons v vs)
    then show ?case by (auto simp: push_byte_def put_def)
  qed simp
  then show ?thesis using assms(1) by (simp add: buf_ok_def)
qed

locale grow_buffer =
  fixes reserve :: "buf \<Rightarrow> int \<Rightarrow> ('e, buf) res"
  assumes reserve_ok:
    "buf_ok b \<Longrightarrow> 0 \<le> n \<Longrightarrow> int (b_size b) + n < buf_limit \<Longrightarrow>
       \<exists>b'. reserve b n = Inr b' \<and> buf_ok b' \<and> b_size b' = b_size b \<and> content b' = content b \<and>
            int (b_size b) + n \<le> int (b_cap b')"
    and reserve_partial: "buf_ok b \<Longrightarrow> reserve b n = Inr b' \<Longrightarrow>
       buf_ok b' \<and> content b' = content b \<and> int (b_size b) + n \<le> int (b_cap b')"
    and reserve_no_raise: "reserve b n \<noteq> Inl (Raise e)"
begin

lemma reserve_partial_size: "buf_ok b \<Longrightarrow> reserve b n = Inr b' \<Longrightarrow> b_size b' = b_size b"
  using reserve_partial length_content by metis

lemma reserve_room:
  assumes "buf_ok b" and "fits b n" and "reserve b (int n) = Inr b'"
  shows "b_size b' + n \<le> length (b_ptr b')"
  using reserve_ok [of b "int n"] assms by (auto simp: fits_def buf_ok_def)

text \<open>Reserve, then write \<open>vs\<close>: what every plain writer of either module does.\<close>

lemma reserve_refines:
  assumes ok: "buf_ok b"
    and fit: "\<And>b'. b_size b' + length vs \<le> length (b_ptr b') \<Longrightarrow> f b' = push_bytes b' vs"
    and nofit: "\<And>b'. buf_ok b' \<Longrightarrow> length (b_ptr b') < b_size b' + length vs \<Longrightarrow> \<exists>u. f b' = Inl (UB u)"
    and n: "fits b (length vs) \<Longrightarrow> n = int (length vs)"
  shows "refines (rbind (reserve b n) f) b (Inr vs)"
proof (cases "reserve b n")
  case (Inl e)
  then show ?thesis
    using reserve_ok [OF ok, of n] n reserve_no_raise
    by (cases e) (auto simp: refines_iffs fits_def)
next
  case (Inr b')
  note b' = reserve_partial [OF ok Inr] reserve_partial_size [OF ok Inr]
  show ?thesis
  proof (cases "b_size b' + length vs \<le> length (b_ptr b')")
    case True
    then have "refines (f b') b' (Inr vs)" by (simp add: fit push_refines b')
    then show ?thesis using Inr b' by (auto simp: refines_def fits_def split: sum.splits err.splits)
  next
    case False
    then obtain u where "f b' = Inl (UB u)" using nofit [of b'] b' by auto
    moreover have "\<not> fits b (length vs)"
      using reserve_room [OF ok, of "length vs" b'] n Inr False by auto
    ultimately show ?thesis using Inr by (simp add: refines_UB_iff)
  qed
qed

text \<open>
  A length field is reserved first and filled in when the rest has been written. Until then it may
  be indeterminate; the patch makes it determinate.
\<close>

lemma patch_refines:
  assumes ok: "buf_ok b"
    and f: "\<And>b'. buf_ok b' \<Longrightarrow> b_size b' = b_size b + 4 \<Longrightarrow> refines (f b') b' s"
    and l: "\<And>b' body. s = Inr body \<Longrightarrow> b_size b' = b_size b + 4 + length body \<Longrightarrow> l b' = v body"
  shows "refines (rbind (reserve b 4) (\<lambda>b1. rbind (f (b1\<lparr>b_size := b_size b1 + 4\<rparr>)) (\<lambda>b2.
      puts b2 (b_size b) (le32 (l b2))))) b (rbind s (\<lambda>body. Inr (le32 (v body) @ body)))"
proof (cases "reserve b 4")
  case (Inl e)
  then show ?thesis
    using reserve_ok [OF ok, of 4] reserve_no_raise
    by (cases e) (auto simp: refines_iffs fits_def res_simps)
next
  case (Inr b1)
  note b1 = reserve_partial [OF ok Inr] reserve_partial_size [OF ok Inr]
  let ?b = "b1\<lparr>b_size := b_size b1 + 4\<rparr>"
  obtain gap where gap: "content ?b = content b @ gap" "length gap = 4"
  proof
    show "content ?b = content b @ take 4 (drop (b_size b1) (b_ptr b1))"
      using b1 by (simp add: content_def take_add)
    show "length (take 4 (drop (b_size b1) (b_ptr b1))) = 4"
    proof -
      have "b_size b1 + 4 \<le> b_cap b1" "length (b_ptr b1) = b_cap b1"
        using b1 by (auto simp: buf_ok_def simp flip: of_nat_le_iff)
      then show ?thesis by simp
    qed
  qed
  have okb: "buf_ok ?b" using b1 by (auto simp: buf_ok_def)
  have ref: "refines (f ?b) ?b s" using f okb b1(2) by simp
  have lc: "length (content b) = b_size b" using ok by (rule length_content)
  show ?thesis
  proof (cases "f ?b")
    case (Inl e)
    then show ?thesis using ref Inr b1(2)
      by (cases e; cases s) (auto simp: refines_iffs fits_def)
  next
    case b2: (Inr b2)
    with ref obtain body where body: "s = Inr body" "buf_ok b2"
        "content b2 = content b @ gap @ map Some body"
      using gap by (auto simp: refines_Inr_iff)
    then have "b_size b2 = b_size b + 4 + length body"
      using length_content [of b2] gap lc by simp
    then have "l b2 = v body" using l body by simp
    moreover obtain b3 where "(puts b2 (b_size b) (le32 (v body)) :: ('e, buf) res) = Inr b3" "buf_ok b3"
        "content b3 = content b @ map Some (le32 (v body)) @ map Some body"
      using puts_patch [OF body(2,3), of "le32 (v body)", where 'e = 'e] gap lc by auto
    ultimately show ?thesis using Inr b2 body by (simp add: refines_Inr_iff)
  qed
qed

text \<open>The writers of both modules: single bytes and words, strings with their zero byte, blocks.\<close>

lemma word_refines:
  assumes "buf_ok b"
  shows "refines (rbind (reserve b (int (length vs))) (\<lambda>b. push_bytes b vs)) b (Inr vs)"
  by (rule reserve_refines [OF assms]) (auto intro!: push_nofit)

lemma string_refines:
  assumes "buf_ok b"
  shows "refines (rbind (reserve b (to_int32 (int (length key) + 1))) (\<lambda>b. rbind (memcpy_end b key) (\<lambda>b.
     rbind (put b (b_size b + length key) 0) (\<lambda>b. Inr (b\<lparr>b_size := b_size b + (length key + 1)\<rparr>))))) b
     (Inr (key @ [0]))"
proof (rule reserve_refines [OF assms])
  fix b' :: buf
  assume "length (b_ptr b') < b_size b' + length (key @ [0])"
  then show "\<exists>u. rbind (memcpy_end b' key) (\<lambda>b. rbind (put b (b_size b + length key) 0)
      (\<lambda>b. Inr (b\<lparr>b_size := b_size b + (length key + 1)\<rparr>))) = Inl (UB u)"
    by (auto simp: memcpy_end_def put_def)
qed (auto simp: memcpy_put_push [of _ key 0, simplified] fits_def)

lemma block_refines:
  assumes "buf_ok b"
  shows "refines (rbind (reserve b (to_int32 (int (length src)))) (\<lambda>b. rbind (memcpy_end b src)
     (\<lambda>b. Inr (b\<lparr>b_size := b_size b + length src\<rparr>)))) b (Inr src)"
proof (rule reserve_refines [OF assms])
  fix b' :: buf
  assume "length (b_ptr b') < b_size b' + length src"
  then show "\<exists>u. rbind (memcpy_end b' src) (\<lambda>b. Inr (b\<lparr>b_size := b_size b + length src\<rparr>)) = Inl (UB u)"
    by (auto simp: memcpy_end_def)
qed (auto simp: memcpy_push fits_def)

end

end
