(* ===== verification/Lua_Values.thy ===== *)
theory Lua_Values
  imports Prelude "HOL-Library.AList"
begin

text \<open>
  The Lua values the C modules receive and push, and what they use of the C library's number
  formatting. A table lives in a heap and is named by its address, so that shared and cyclic
  tables are values of the model. A table is the list of its entries in the order in which
  \<open>lua_next\<close> visits them, together with the border that \<open>lua_rawlen\<close> returns.
\<close>

section \<open>Values and tables\<close>

text \<open>
  Integers are 64-bit; a \<open>lua_Number\<close> is the bit pattern of the double. A string, like a full
  userdata block, is a list of bytes. Functions, threads and light userdata are named by a number.
\<close>

datatype lval =
    LNil
  | LBool bool
  | LLightUserdata nat
  | LInt "64 word"
  | LNum "64 word"
  | LStr bytes
  | LTable nat
  | LFunction nat
  | LUserdata bytes
  | LThread nat

text \<open>The type tags of \<open>lua.h\<close>.\<close>

fun lua_type :: "lval \<Rightarrow> nat" where
  "lua_type LNil = 0"
| "lua_type (LBool b) = 1"
| "lua_type (LLightUserdata p) = 2"
| "lua_type (LInt i) = 3"
| "lua_type (LNum d) = 3"
| "lua_type (LStr s) = 4"
| "lua_type (LTable a) = 5"
| "lua_type (LFunction f) = 6"
| "lua_type (LUserdata u) = 7"
| "lua_type (LThread t) = 8"

record ltable =
  t_len :: nat
  t_pairs :: "(lval \<times> lval) list"

type_synonym heap = "nat \<Rightarrow> ltable option"

text \<open>
  \<open>lua_next\<close> from a key: the entries that a traversal still visits after it, \<open>None\<close> when the key
  is not in the table (where Lua raises an error).
\<close>

fun next_after :: "lval \<Rightarrow> (lval \<times> lval) list \<Rightarrow> (lval \<times> lval) list option" where
  "next_after k [] = None"
| "next_after k ((k', v) # ps) = (if k = k' then Some ps else next_after k ps)"

lemma next_after_Some_iff: "(\<exists>ps'. next_after k ps = Some ps') \<longleftrightarrow> k \<in> fst ` set ps"
  by (induction ps) auto

lemma next_after_last:
  "distinct (map fst ps) \<Longrightarrow> next_after k ps = Some [] \<longleftrightarrow> ps \<noteq> [] \<and> fst (last ps) = k"
proof (induction ps)
  case (Cons p ps)
  then show ?case by (cases p; cases ps rule: rev_cases) (auto simp: image_iff)
qed simp

text \<open>What the Lua manual promises of a table: distinct keys, no nil, and a border as its length.\<close>

definition table_ok :: "ltable \<Rightarrow> bool" where
  "table_ok t \<longleftrightarrow> distinct (map fst (t_pairs t)) \<and>
     (\<forall>(k, v) \<in> set (t_pairs t). k \<noteq> LNil \<and> v \<noteq> LNil) \<and>
     (t_len t = 0 \<or> LInt (of_nat (t_len t)) \<in> fst ` set (t_pairs t)) \<and>
     LInt (of_nat (t_len t + 1)) \<notin> fst ` set (t_pairs t)"

section \<open>Numbers as text\<close>

text \<open>\<open>sprintf\<close> with \<open>%u\<close> and \<open>%d\<close>.\<close>

fun utoa :: "nat \<Rightarrow> bytes" where
  "utoa n = (if n < 10 then [of_nat (48 + n)] else utoa (n div 10) @ [of_nat (48 + n mod 10)])"

declare utoa.simps [simp del]

definition itoa :: "int \<Rightarrow> bytes" where
  "itoa i = (if i < 0 then 45 # utoa (nat (- i)) else utoa (nat i))"

text \<open>
  How Lua renders a \<open>lua_Number\<close> as a string, converts one (or a string that holds a numeral)
  to an integer, and converts an integer or a numeral to a \<open>lua_Number\<close>, is left to the environment,
  which the operations that need it take as an argument. So is the Lua stack: \<open>stack_levels\<close> is the
  number of nested tables for which \<open>luaL_checkstack\<close> finds room, one call per table, when a value is
  encoded.
\<close>

record lua_env =
  num_str :: "64 word \<Rightarrow> bytes"
  num_int :: "64 word \<Rightarrow> 64 word option"
  str_int :: "bytes \<Rightarrow> 64 word option"
  int_num :: "64 word \<Rightarrow> 64 word"
  str_num :: "bytes \<Rightarrow> 64 word option"
  stack_levels :: nat

text \<open>An environment that converts no string to a number and prints every number as one digit.\<close>

definition plain_env :: lua_env where
  "plain_env = \<lparr>num_str = (\<lambda>_. [48]), num_int = (\<lambda>_. None), str_int = (\<lambda>_. None), int_num = (\<lambda>_. 0), str_num = (\<lambda>_. None), stack_levels = 200\<rparr>"

fun lua_tolstring :: "lua_env \<Rightarrow> lval \<Rightarrow> bytes option" where
  "lua_tolstring L (LStr s) = Some s"
| "lua_tolstring L (LInt i) = Some (itoa (sint i))"
| "lua_tolstring L (LNum d) = Some (num_str L d)"
| "lua_tolstring L v = None"

text \<open>
  \<open>lua_tointeger\<close>: 0 for a value that does not convert.
\<close>

fun lua_tointeger :: "lua_env \<Rightarrow> lval \<Rightarrow> 64 word" where
  "lua_tointeger L (LInt i) = i"
| "lua_tointeger L (LNum d) = (case num_int L d of None \<Rightarrow> 0 | Some i \<Rightarrow> i)"
| "lua_tointeger L (LStr s) = (case str_int L s of None \<Rightarrow> 0 | Some i \<Rightarrow> i)"
| "lua_tointeger L v = 0"

fun lua_toboolean :: "lval \<Rightarrow> bool" where
  "lua_toboolean LNil = False"
| "lua_toboolean (LBool b) = b"
| "lua_toboolean v = True"

text \<open>\<open>lua_tonumberx\<close>, which \<open>luaL_checknumber\<close> tests.\<close>

fun lua_tonumber :: "lua_env \<Rightarrow> lval \<Rightarrow> 64 word option" where
  "lua_tonumber L (LNum d) = Some d"
| "lua_tonumber L (LInt i) = Some (int_num L i)"
| "lua_tonumber L (LStr s) = str_num L s"
| "lua_tonumber L v = None"

text \<open>\<open>lua_tointegerx\<close>, which \<open>luaL_checkinteger\<close> tests.\<close>

fun lua_tointegerx :: "lua_env \<Rightarrow> lval \<Rightarrow> 64 word option" where
  "lua_tointegerx L (LInt i) = Some i"
| "lua_tointegerx L (LNum d) = num_int L d"
| "lua_tointegerx L (LStr s) = str_int L s"
| "lua_tointegerx L v = None"

section \<open>Parsing a decimal key\<close>

text \<open>\<open>strtol(s, NULL, 10)\<close> on a 64-bit \<open>long\<close>: white space, a sign, digits, saturation.\<close>

definition is_digit :: "byte \<Rightarrow> bool" where
  "is_digit b \<longleftrightarrow> 48 \<le> b \<and> b \<le> 57"

fun digits_val :: "nat \<Rightarrow> bytes \<Rightarrow> nat" where
  "digits_val acc [] = acc"
| "digits_val acc (b # bs) =
     (if is_digit b then digits_val (acc * 10 + (unat b - 48)) bs else acc)"

definition clamp_long :: "int \<Rightarrow> int" where
  "clamp_long x = max (- (2 ^ 63)) (min (2 ^ 63 - 1) x)"

definition strtol :: "bytes \<Rightarrow> int" where
  "strtol s = (case dropWhile (\<lambda>b. b = 32 \<or> 9 \<le> b \<and> b \<le> 13) s of
     [] \<Rightarrow> 0
   | b # bs \<Rightarrow> if b = 45 then clamp_long (- int (digits_val 0 bs))
              else if b = 43 then clamp_long (int (digits_val 0 bs))
              else clamp_long (int (digits_val 0 (b # bs))))"

lemma digit_byte:
  assumes "d < 10"
  shows "unat (of_nat (48 + d) :: byte) = 48 + d" and "is_digit (of_nat (48 + d))"
proof -
  show *: "unat (of_nat (48 + d) :: byte) = 48 + d"
    using assms by (simp add: unat_of_nat del: of_nat_add)
  show "is_digit (of_nat (48 + d))"
    unfolding is_digit_def word_le_nat_alt * using assms by simp
qed

lemma utoa_digits: "b \<in> set (utoa n) \<Longrightarrow> is_digit b"
proof (induction n rule: utoa.induct)
  case (1 n)
  then show ?case
    by (subst (asm) utoa.simps) (auto split: if_splits intro: digit_byte simp del: of_nat_add)
qed

lemma utoa_no_nul: "0 \<notin> set (utoa n)"
  using utoa_digits [of 0 n] by (auto simp: is_digit_def)

lemma utoa_nonempty [simp]: "utoa n \<noteq> []"
  by (subst utoa.simps) simp

lemma digits_val_append:
  "(\<forall>b \<in> set xs. is_digit b) \<Longrightarrow> digits_val acc (xs @ ys) = digits_val (digits_val acc xs) ys"
  by (induction xs arbitrary: acc) auto

lemma digits_val_utoa: "digits_val 0 (utoa n) = n"
proof (induction n rule: utoa.induct)
  case (1 n)
  show ?case
  proof (cases "n < 10")
    case True
    then show ?thesis by (subst utoa.simps) (simp add: digit_byte del: of_nat_add)
  next
    case False
    then have "digits_val 0 (utoa n) = digits_val (n div 10) [of_nat (48 + n mod 10)]"
      using 1 utoa_digits by (subst utoa.simps) (simp add: digits_val_append del: of_nat_add digits_val.simps)
    also have "\<dots> = n"
      by (simp add: digit_byte del: of_nat_add)
    finally show ?thesis .
  qed
qed

lemma strtol_utoa:
  assumes "int n < 2 ^ 63"
  shows "strtol (utoa n) = int n"
proof -
  obtain b bs where u: "utoa n = b # bs" by (cases "utoa n") auto
  then have "is_digit b" using utoa_digits [of b n] by auto
  then have "\<not> (b = 32 \<or> 9 \<le> b \<and> b \<le> 13)" "b \<noteq> 45" "b \<noteq> 43"
    by (auto simp: is_digit_def word_le_nat_alt)
  then have "strtol (utoa n) = clamp_long (int (digits_val 0 (utoa n)))"
    unfolding strtol_def u by (auto simp del: digits_val.simps)
  with assms show ?thesis by (simp add: digits_val_utoa clamp_long_def)
qed

section \<open>Tables built by the C code\<close>

text \<open>
  A table the C code creates is reachable only through the value it returns, so it is a tree:
  \<open>DTab\<close> lists its entries in the order of their first assignment. \<open>lua_rawset\<close> replaces the
  value of a key that is present and adds the entry otherwise.
\<close>

datatype dval = DVal lval | DTab "(lval \<times> dval) list"

definition rawset :: "lval \<Rightarrow> 'v \<Rightarrow> (lval \<times> 'v) list \<Rightarrow> (lval \<times> 'v) list" where
  "rawset k v tab = AList.update k v tab"

lemma map_of_rawset: "map_of (rawset k v tab) = (map_of tab)(k \<mapsto> v)"
  by (simp add: rawset_def update_conv')

lemma rawset_fresh: "k \<notin> fst ` set tab \<Longrightarrow> rawset k v tab = tab @ [(k, v)]"
  unfolding rawset_def by (induction tab) (auto)

lemma dom_rawset: "fst ` set (rawset k v tab) = insert k (fst ` set tab)"
  by (simp add: rawset_def dom_update)

lemma distinct_rawset: "distinct (map fst tab) \<Longrightarrow> distinct (map fst (rawset k v tab))"
  by (simp add: rawset_def distinct_update)

end
