(* ===== verification/Bson_Buffer.thy ===== *)
theory Bson_Buffer
  imports Grow_Buffer Lua_Values
begin

text \<open>
  \<open>struct bson\<close> of \<open>cext/lua-bson.c\<close> and its writers: the buffer starts as 64 inline bytes, grows
  through \<open>bson_reserve\<close>, and every writer reserves before it stores. The lemmas say what each
  writer appends, as long as the buffer stays below \<open>buf_limit\<close> (1 GiB).
\<close>

text \<open>
  The errors \<open>lua-bson.c\<close> raises through \<open>luaL_error\<close> (the message formats become constructors),
  and two that the Lua API raises inside it: \<open>lua_next\<close> with a key that is not in the table, and
  \<open>luaL_checkstack\<close> when the Lua stack cannot grow.
\<close>

datatype bson_error =
    InvalidBlock int int
  | InvalidCString
  | InvalidDocumentEnd
  | InvalidStringLength int
  | InvalidBsonType int
  | TooDeep
  | InvalidArrayKey nat
  | InvalidKeyType nat
  | InvalidObjectId
  | InvalidDate
  | InvalidTimestamp
  | InvalidRegex
  | InvalidSubtype nat
  | InvalidValueType nat
  | InvalidType nat
  | InvalidOrderedDict
  | NeedString nat
  | NotATable
  | TypeMismatch int
  | MakeIndexFirst
  | CannotReplaceKey lval
  | CannotReplaceType int
  | NeedInteger nat
  | BadArgument nat
  | InvalidNextKey
  | StackOverflow

definition bson_create :: buf where
  "bson_create = \<lparr>b_size = 0, b_cap = 64, b_ptr = replicate 64 None, b_heap = False\<rparr>"

definition bson_reserve :: "buf \<Rightarrow> int \<Rightarrow> (bson_error, buf) res" where
  "bson_reserve b sz = reserve_body b sz"

definition write_byte :: "buf \<Rightarrow> byte \<Rightarrow> (bson_error, buf) res" where
  "write_byte b v = rbind (bson_reserve b 1) (\<lambda>b. push_byte b v)"

definition write_int32 :: "buf \<Rightarrow> 32 word \<Rightarrow> (bson_error, buf) res" where
  "write_int32 b uv = rbind (bson_reserve b 4) (\<lambda>b. push_bytes b (le32 uv))"

definition write_length :: "buf \<Rightarrow> 32 word \<Rightarrow> nat \<Rightarrow> (bson_error, buf) res" where
  "write_length b uv off = puts b off (le32 uv)"

text \<open>
  The size arguments are \<open>size_t\<close> and narrow to the \<open>int\<close> parameter of \<open>bson_reserve\<close>.
\<close>

definition write_string :: "buf \<Rightarrow> bytes \<Rightarrow> (bson_error, buf) res" where
  "write_string b key = rbind (bson_reserve b (to_int32 (int (length key) + 1))) (\<lambda>b.
     rbind (memcpy_end b key) (\<lambda>b.
     rbind (put b (b_size b + length key) 0) (\<lambda>b.
     Inr (b\<lparr>b_size := b_size b + (length key + 1)\<rparr>))))"

definition reserve_length :: "buf \<Rightarrow> (bson_error, nat \<times> buf) res" where
  "reserve_length b = rbind (bson_reserve b 4) (\<lambda>b'.
     Inr (b_size b, b'\<lparr>b_size := b_size b' + 4\<rparr>))"

definition write_int64 :: "buf \<Rightarrow> 64 word \<Rightarrow> (bson_error, buf) res" where
  "write_int64 b uv = rbind (bson_reserve b 8) (\<lambda>b. push_bytes b (le64 uv))"

definition write_double :: "buf \<Rightarrow> 64 word \<Rightarrow> (bson_error, buf) res" where
  "write_double b d = rbind (bson_reserve b 8) (\<lambda>b. push_bytes b (le64 d))"

definition append_key :: "buf \<Rightarrow> byte \<Rightarrow> bytes \<Rightarrow> (bson_error, buf) res" where
  "append_key b type key = rbind (write_byte b type) (\<lambda>b. write_string b key)"

definition write_bytes :: "buf \<Rightarrow> bytes \<Rightarrow> (bson_error, buf) res" where
  "write_bytes b src = rbind (bson_reserve b (to_int32 (int (length src)))) (\<lambda>b.
     rbind (memcpy_end b src) (\<lambda>b. Inr (b\<lparr>b_size := b_size b + length src\<rparr>)))"

definition write_binary :: "buf \<Rightarrow> bytes \<Rightarrow> (bson_error, buf) res" where
  "write_binary b src = rbind (reserve_length b) (\<lambda>(len, b).
     rbind (write_bytes b src) (\<lambda>b.
     rbind (write_length b (of_nat (length src) - 1) len) Inr))"

section \<open>What the writers append\<close>

interpretation bson_buf: grow_buffer "bson_reserve :: buf \<Rightarrow> int \<Rightarrow> (bson_error, buf) res"
  by unfold_locales
    (auto simp: bson_reserve_def reserve_body_no_raise intro: reserve_body_ok dest: reserve_body_partial)

lemma bson_create_ok: "buf_ok bson_create" "content bson_create = []" "b_size bson_create = 0"
  by (auto simp: bson_create_def buf_ok_def content_def intro: exI [of _ 6])

named_theorems writes "the byte string each writer appends"

lemma write_byte_refines [writes]: "buf_ok b \<Longrightarrow> refines (write_byte b v) b (Inr [v])"
  using bson_buf.word_refines [of b "[v]"] by (simp add: write_byte_def)

lemma write_int32_refines [writes]: "buf_ok b \<Longrightarrow> refines (write_int32 b v) b (Inr (le32 v))"
  using bson_buf.word_refines [of b "le32 v"] by (simp add: write_int32_def)

lemma write_int64_refines [writes]: "buf_ok b \<Longrightarrow> refines (write_int64 b v) b (Inr (le64 v))"
  using bson_buf.word_refines [of b "le64 v"] by (simp add: write_int64_def)

lemma write_double_refines [writes]: "buf_ok b \<Longrightarrow> refines (write_double b v) b (Inr (le64 v))"
  using bson_buf.word_refines [of b "le64 v"] by (simp add: write_double_def)

lemma write_string_refines [writes]: "buf_ok b \<Longrightarrow> refines (write_string b key) b (Inr (key @ [0]))"
  unfolding write_string_def by (rule bson_buf.string_refines)

lemma write_bytes_refines [writes]: "buf_ok b \<Longrightarrow> refines (write_bytes b src) b (Inr src)"
  unfolding write_bytes_def by (rule bson_buf.block_refines)

lemma append_key_refines [writes]:
  assumes "buf_ok b"
  shows "refines (append_key b t key) b (Inr (t # key @ [0]))"
proof -
  have "refines (append_key b t key) b (then_append (Inr [t]) (Inr (key @ [0])))"
    unfolding append_key_def by (rule refines_then) (auto intro: writes assms)
  then show ?thesis by simp
qed

text \<open>The pair \<open>reserve_length\<close>, \<open>write_length\<close> around a body.\<close>

lemma length_refines:
  assumes "buf_ok b" and "\<And>b'. buf_ok b' \<Longrightarrow> refines (f b') b' s"
    and "\<And>b' body. s = Inr body \<Longrightarrow> b_size b' = b_size b + 4 + length body \<Longrightarrow> l (b_size b) b' = v body"
  shows "refines (rbind (reserve_length b) (\<lambda>(len, b). rbind (f b) (\<lambda>b. write_length b (l len b) len))) b
    (rbind s (\<lambda>body. Inr (le32 (v body) @ body)))"
proof -
  have "rbind (reserve_length b) (\<lambda>(len, b). rbind (f b) (\<lambda>b. write_length b (l len b) len)) =
    rbind (bson_reserve b 4) (\<lambda>b1. rbind (f (b1\<lparr>b_size := b_size b1 + 4\<rparr>)) (\<lambda>b2.
      puts b2 (b_size b) (le32 (l (b_size b) b2))))"
    by (simp add: reserve_length_def write_length_def rbind_assoc)
  then show ?thesis
    using bson_buf.patch_refines [of b f s "l (b_size b)" v] assms by simp
qed

lemma write_binary_refines [writes]:
  assumes "buf_ok b"
  shows "refines (write_binary b src) b (Inr (le32 (of_nat (length src) - 1) @ src))"
  using length_refines [OF assms write_bytes_refines refl, of src "\<lambda>_. of_nat (length src) - 1"]
  by (simp add: write_binary_def)

end
