(* ===== verification/Bson_Spec.thy ===== *)
theory Bson_Spec
  imports Bson_Buffer
begin

text \<open>
  The abstract BSON document: what the encoder of \<open>cext/lua-bson.c\<close> promises to produce and its
  decoder to read, independently of buffers and readers. \<open>bval\<close> is the value of one element, and
  \<open>payload\<close> and \<open>elems\<close> are its byte layout. The type tags are the \<open>BSON_*\<close> constants of the file.
\<close>

section \<open>Type tags\<close>

abbreviation BSON_REAL :: byte where "BSON_REAL \<equiv> 1"
abbreviation BSON_STRING :: byte where "BSON_STRING \<equiv> 2"
abbreviation BSON_DOCUMENT :: byte where "BSON_DOCUMENT \<equiv> 3"
abbreviation BSON_ARRAY :: byte where "BSON_ARRAY \<equiv> 4"
abbreviation BSON_BINARY :: byte where "BSON_BINARY \<equiv> 5"
abbreviation BSON_OBJECTID :: byte where "BSON_OBJECTID \<equiv> 7"
abbreviation BSON_BOOLEAN :: byte where "BSON_BOOLEAN \<equiv> 8"
abbreviation BSON_DATE :: byte where "BSON_DATE \<equiv> 9"
abbreviation BSON_NULL :: byte where "BSON_NULL \<equiv> 10"
abbreviation BSON_REGEX :: byte where "BSON_REGEX \<equiv> 11"
abbreviation BSON_DBPOINTER :: byte where "BSON_DBPOINTER \<equiv> 12"
abbreviation BSON_JSCODE :: byte where "BSON_JSCODE \<equiv> 13"
abbreviation BSON_SYMBOL :: byte where "BSON_SYMBOL \<equiv> 14"
abbreviation BSON_CODEWS :: byte where "BSON_CODEWS \<equiv> 15"
abbreviation BSON_INT32 :: byte where "BSON_INT32 \<equiv> 16"
abbreviation BSON_TIMESTAMP :: byte where "BSON_TIMESTAMP \<equiv> 17"
abbreviation BSON_INT64 :: byte where "BSON_INT64 \<equiv> 18"
abbreviation BSON_MINKEY :: byte where "BSON_MINKEY \<equiv> 255"
abbreviation BSON_MAXKEY :: byte where "BSON_MAXKEY \<equiv> 127"

section \<open>Documents\<close>

text \<open>
  \<open>BEmpty t\<close> is a value that is all tag (null, the minimal and the maximal key). \<open>BRaw t p\<close> is a
  type whose payload the encoder copies as it is (object id, code, symbol, database pointer, code
  with scope). \<open>BBinary p\<close> has the subtype as the first byte of \<open>p\<close>. \<open>BEmbed p\<close> is a document
  given as bytes (a userdata inside a table).
\<close>

datatype bval =
    BReal "64 word"
  | BString bytes
  | BDoc "(bytes \<times> bval) list"
  | BArr "(bytes \<times> bval) list"
  | BEmbed bytes
  | BBinary bytes
  | BBool bool
  | BDate "64 word"
  | BTimestamp "32 word" "32 word"
  | BRegex bytes bytes
  | BEmpty byte
  | BRaw byte bytes
  | BInt32 "32 word"
  | BInt64 "64 word"

fun tag :: "bval \<Rightarrow> byte" where
  "tag (BReal d) = BSON_REAL"
| "tag (BString s) = BSON_STRING"
| "tag (BDoc es) = BSON_DOCUMENT"
| "tag (BArr es) = BSON_ARRAY"
| "tag (BEmbed p) = BSON_DOCUMENT"
| "tag (BBinary p) = BSON_BINARY"
| "tag (BBool x) = BSON_BOOLEAN"
| "tag (BDate v) = BSON_DATE"
| "tag (BTimestamp i t) = BSON_TIMESTAMP"
| "tag (BRegex r q) = BSON_REGEX"
| "tag (BEmpty t) = t"
| "tag (BRaw t p) = t"
| "tag (BInt32 i) = BSON_INT32"
| "tag (BInt64 i) = BSON_INT64"

text \<open>A document on the wire: its total length, the elements, a closing zero byte.\<close>

definition doc_frame :: "bytes \<Rightarrow> bytes" where
  "doc_frame body = le32 (of_nat (length body + 5)) @ body @ [0]"

fun payload :: "bval \<Rightarrow> bytes" and elems :: "(bytes \<times> bval) list \<Rightarrow> bytes" where
  "payload (BReal d) = le64 d"
| "payload (BString s) = le32 (of_nat (length s + 1)) @ s @ [0]"
| "payload (BDoc es) = doc_frame (elems es)"
| "payload (BArr es) = doc_frame (elems es)"
| "payload (BEmbed p) = p"
| "payload (BBinary p) = le32 (of_nat (length p) - 1) @ p"
| "payload (BBool x) = [if x then 1 else 0]"
| "payload (BDate v) = le64 v"
| "payload (BTimestamp i t) = le32 i @ le32 t"
| "payload (BRegex r q) = r @ [0] @ q @ [0]"
| "payload (BEmpty t) = []"
| "payload (BRaw t p) = p"
| "payload (BInt32 i) = le32 i"
| "payload (BInt64 i) = le64 i"
| "elems [] = []"
| "elems ((k, v) # es) = tag v # k @ [0] @ payload v @ elems es"

definition element :: "bytes \<Rightarrow> bval \<Rightarrow> bytes" where
  "element k v = tag v # k @ [0] @ payload v"

definition doc_bytes :: "(bytes \<times> bval) list \<Rightarrow> bytes" where
  "doc_bytes es = doc_frame (elems es)"

lemma elems_Cons: "elems ((k, v) # es) = element k v @ elems es"
  by (simp add: element_def)

lemma elems_append: "elems (es @ fs) = elems es @ elems fs"
  by (induction es) auto

lemma length_doc_frame [simp]: "length (doc_frame body) = length body + 5"
  by (simp add: doc_frame_def)

lemma length_doc_bytes: "length (doc_bytes es) = length (elems es) + 5"
  by (simp add: doc_bytes_def)

text \<open>
  The length field of a document tells its length, as long as it fits an \<open>int32\<close>.
\<close>

lemma doc_frame_length_field: "of_le32 (take 4 (doc_frame body)) = of_nat (length (doc_frame body))"
  by (simp add: doc_frame_def)

end
