(* ===== verification/Bson_Encode.thy ===== *)
theory Bson_Encode
  imports Bson_Spec
begin

text \<open>
  The encoder of \<open>cext/lua-bson.c\<close>: \<open>append_number\<close>, \<open>append_table\<close>, \<open>append_one\<close>, \<open>pack_dict\<close>,
  \<open>pack_ordered_dict\<close> and the entry points \<open>lencode\<close> and \<open>lencode_order\<close>, on the buffer of
  \<open>Bson_Buffer\<close>; the abstract conversion of a Lua value to a BSON document; and the refinement
  between the two.
\<close>

section \<open>The encoder\<close>

abbreviation MAX_DEPTH :: nat where "MAX_DEPTH \<equiv> 128"
abbreviation MAX_NUMBER :: nat where "MAX_NUMBER \<equiv> 1024"

definition is_32bit :: "64 word \<Rightarrow> bool" where
  "is_32bit v \<longleftrightarrow> INT_MIN \<le> sint v \<and> sint v \<le> INT_MAX"

definition append_number :: "buf \<Rightarrow> lval \<Rightarrow> bytes \<Rightarrow> (bson_error, buf) res" where
  "append_number b v key = (case v of
     LInt i \<Rightarrow>
       if is_32bit i then rbind (append_key b BSON_INT32 key) (\<lambda>b. write_int32 b (ucast i))
       else rbind (append_key b BSON_INT64 key) (\<lambda>b. write_int64 b i)
   | LNum d \<Rightarrow> rbind (append_key b BSON_REAL key) (\<lambda>b. write_double b d)
   | _ \<Rightarrow> Inr b)"

text \<open>
  A userdata is taken for an encoded document: its first four bytes are its length, and that many
  bytes are copied from the block.
\<close>

definition append_userdata :: "buf \<Rightarrow> bytes \<Rightarrow> bytes \<Rightarrow> (bson_error, buf) res" where
  "append_userdata b u key = rbind (append_key b BSON_DOCUMENT key) (\<lambda>b.
     if length u < 4 then Inl (UB OutOfBounds) else
     let sz = sint (of_le32 (take 4 u)) in
     rbind (bson_reserve b sz) (\<lambda>b.
     if sz < 0 \<or> int (length u) < sz then Inl (UB OutOfBounds) else
     rbind (memcpy_end b (take (nat sz) u)) (\<lambda>b. Inr (b\<lparr>b_size := b_size b + nat sz\<rparr>))))"

text \<open>
  Differences of \<open>size_t\<close> values. A Lua string of length \<open>n\<close> is readable at the offsets 0 to \<open>n\<close>, with
  a zero byte at the end; an address computed past the end of the address space wraps around. A part of
  a string that leaves it is \<open>UB OutOfBounds\<close>.
\<close>

definition size_minus :: "nat \<Rightarrow> nat \<Rightarrow> nat" where
  "size_minus a b = (if b \<le> a then a - b else a + 2 ^ 64 - b)"

definition str_byte :: "bytes \<Rightarrow> nat \<Rightarrow> (bson_error, byte) res" where
  "str_byte s a =
     (if a \<le> length s then Inr ((s @ [0]) ! a)
      else if 2 ^ 64 \<le> a \<and> a - 2 ^ 64 \<le> length s then Inr ((s @ [0]) ! (a - 2 ^ 64))
      else Inl (UB OutOfBounds))"

definition str_part :: "bytes \<Rightarrow> nat \<Rightarrow> nat \<Rightarrow> (bson_error, bytes) res" where
  "str_part s a n =
     (if a + n \<le> length s + 1 then Inr (take n (drop a (s @ [0]))) else Inl (UB OutOfBounds))"

text \<open>
  The scan of a regular expression from its end for the zero byte between pattern and options:
  the loop \<open>for (i = 0; i < len; i++) if (str[len-i-1] == 0) break;\<close>, where \<open>str\<close> points behind the two
  marker bytes of the string \<open>s\<close>.
\<close>

function regex_scan :: "bytes \<Rightarrow> nat \<Rightarrow> nat \<Rightarrow> (bson_error, nat) res" where
  "regex_scan s len i =
     (if i < len then rbind (str_byte s (2 + (len - i - 1))) (\<lambda>c.
        if c = 0 then Inr i else regex_scan s len (i + 1))
      else Inr i)"
  by pat_completeness auto
termination by (relation "measure (\<lambda>(s, len, i). len - i)") auto

declare regex_scan.simps [simp del]

text \<open>\<open>write_string\<close> with the \<open>n\<close> bytes at offset \<open>a\<close> of a Lua string as its source\<close>

definition write_part :: "buf \<Rightarrow> bytes \<Rightarrow> nat \<Rightarrow> nat \<Rightarrow> (bson_error, buf) res" where
  "write_part b s a n = rbind (bson_reserve b (to_int32 (int n + 1))) (\<lambda>b.
     rbind (str_part s a n) (\<lambda>src.
     rbind (memcpy_end b src) (\<lambda>b.
     rbind (put b (b_size b + n) 0) (\<lambda>b.
     Inr (b\<lparr>b_size := b_size b + (n + 1)\<rparr>)))))"

definition append_regex :: "buf \<Rightarrow> bytes \<Rightarrow> (bson_error, buf) res" where
  "append_regex b s = (let len = size_minus (length s) 3 in
     rbind (regex_scan s len 0) (\<lambda>i.
     rbind (write_part b s 2 (size_minus (size_minus len i) 1)) (\<lambda>b.
     write_part b s (2 + size_minus len i) i)))"

text \<open>
  A Lua string: plain, or one that starts with a zero byte and a BSON subtype, which is how the
  module represents the BSON types that Lua lacks.
\<close>

definition append_subtype :: "buf \<Rightarrow> byte \<Rightarrow> bytes \<Rightarrow> (bson_error, buf) res" where
  "append_subtype b subt s = (let p = drop 2 s; len = length s in
     if subt = BSON_BINARY then write_binary b p
      else if subt = BSON_OBJECTID then
        if len \<noteq> 2 + 12 then Inl (Raise InvalidObjectId) else write_bytes b p
      else if subt = BSON_JSCODE \<or> subt = BSON_DBPOINTER \<or> subt = BSON_SYMBOL \<or> subt = BSON_CODEWS then
        write_bytes b p
      else if subt = BSON_DATE then
        if len \<noteq> 2 + 4 then Inl (Raise InvalidDate)
        else write_int64 b (ucast (of_le32 p) * 1000)
      else if subt = BSON_TIMESTAMP then
        if len \<noteq> 2 + 8 then Inl (Raise InvalidTimestamp)
        else rbind (write_int32 b (of_le32 (take 4 p))) (\<lambda>b. write_int32 b (of_le32 (drop 4 p)))
      else if subt = BSON_REGEX then append_regex b s
      else if subt = BSON_MINKEY \<or> subt = BSON_MAXKEY \<or> subt = BSON_NULL then Inr b
      else Inl (Raise (InvalidSubtype (unat subt))))"

definition append_string :: "buf \<Rightarrow> bytes \<Rightarrow> bytes \<Rightarrow> (bson_error, buf) res" where
  "append_string b s key =
     (if 1 < length s \<and> s ! 0 = 0 then
        rbind (append_key b (s ! 1) key) (\<lambda>b. append_subtype b (s ! 1) s)
      else
        rbind (append_key b BSON_STRING key) (\<lambda>b.
        rbind (reserve_length b) (\<lambda>(off, b).
        rbind (write_string b s) (\<lambda>b.
        write_length b (of_nat (length s) + 1) off))))"

text \<open>The decimal keys of arrays: a table for the small ones, \<open>sprintf\<close> for the others.\<close>

definition bson_numstrs :: "nat \<Rightarrow> bytes" where
  "bson_numstrs i = utoa i"

definition bson_numstr :: "32 word \<Rightarrow> bytes" where
  "bson_numstr i = (if unat i < MAX_NUMBER then bson_numstrs (unat i) else utoa (unat i))"

text \<open>The key under which \<open>pack_dict\<close> writes an entry.\<close>

definition entry_key :: "lua_env \<Rightarrow> bool \<Rightarrow> lval \<Rightarrow> (bson_error, bytes) res" where
  "entry_key L isarray k =
     (if isarray then
        if lua_type k \<noteq> lua_type (LInt 0) then Inl (Raise (InvalidArrayKey (lua_type k)))
        else Inr (bson_numstr (ucast (lua_tointeger L k) - 1))
      else case lua_tolstring L k of
        Some s \<Rightarrow> Inr s
      | None \<Rightarrow> Inl (Raise (InvalidKeyType (lua_type k))))"

text \<open>
  Whether \<open>append_table\<close> writes a table as an array: its border is not zero and the traversal ends
  with the border as key.
\<close>

definition is_array :: "ltable \<Rightarrow> (bson_error, bool) res" where
  "is_array t = (if 0 < t_len t then
     case next_after (LInt (of_nat (t_len t))) (t_pairs t) of
       None \<Rightarrow> Inl (Raise InvalidNextKey)
     | Some ps \<Rightarrow> Inr (ps = [])
   else Inr False)"

function pack_dict :: "lua_env \<Rightarrow> heap \<Rightarrow> buf \<Rightarrow> ltable \<Rightarrow> bool \<Rightarrow> nat \<Rightarrow> (bson_error, buf) res"
  and pack_pairs :: "lua_env \<Rightarrow> heap \<Rightarrow> buf \<Rightarrow> (lval \<times> lval) list \<Rightarrow> bool \<Rightarrow> nat \<Rightarrow> (bson_error, buf) res"
  and append_one :: "lua_env \<Rightarrow> heap \<Rightarrow> buf \<Rightarrow> lval \<Rightarrow> bytes \<Rightarrow> nat \<Rightarrow> (bson_error, buf) res" where
  "pack_dict L h b t isarray depth =
     (if MAX_DEPTH < depth then Inl (Raise TooDeep)
      else if stack_levels L \<le> depth then Inl (Raise StackOverflow) else
      rbind (reserve_length b) (\<lambda>(len, b).
      rbind (pack_pairs L h b (t_pairs t) isarray depth) (\<lambda>b.
      rbind (write_byte b 0) (\<lambda>b.
      write_length b (of_nat (b_size b - len)) len))))"
| "pack_pairs L h b [] isarray depth = Inr b"
| "pack_pairs L h b ((k, v) # ps) isarray depth =
     rbind (entry_key L isarray k) (\<lambda>key.
     rbind (append_one L h b v key depth) (\<lambda>b.
     pack_pairs L h b ps isarray depth))"
| "append_one L h b v key depth =
     (case v of
        LInt i \<Rightarrow> append_number b v key
      | LNum d \<Rightarrow> append_number b v key
      | LUserdata u \<Rightarrow> append_userdata b u key
      | LStr s \<Rightarrow> append_string b s key
      | LTable a \<Rightarrow>
          (case h a of None \<Rightarrow> Inl (UB NullDeref) | Some t \<Rightarrow>
             rbind (is_array t) (\<lambda>isarray.
             rbind (append_key b (if isarray then BSON_ARRAY else BSON_DOCUMENT) key) (\<lambda>b.
             pack_dict L h b t isarray (depth + 1))))
      | LBool x \<Rightarrow>
          rbind (append_key b BSON_BOOLEAN key) (\<lambda>b. write_byte b (if x then 1 else 0))
      | _ \<Rightarrow> Inl (Raise (InvalidValueType (lua_type v))))"
  by pat_completeness auto
termination
  by (relation "inv_image (less_than <*lex*> less_than) (\<lambda>x. case x of
      Inl (L, h, b, t, isarray, depth) \<Rightarrow> (MAX_DEPTH + 1 - depth, 0)
    | Inr (Inl (L, h, b, ps, isarray, depth)) \<Rightarrow> (MAX_DEPTH - depth, 2 + 2 * length ps)
    | Inr (Inr (L, h, b, v, key, depth)) \<Rightarrow> (MAX_DEPTH - depth, 1))") auto

declare pack_dict.simps [simp del] append_one.simps [simp del]

text \<open>\<open>encode_order\<close> takes keys and values alternately as its arguments.\<close>

fun pack_ordered :: "lua_env \<Rightarrow> heap \<Rightarrow> buf \<Rightarrow> nat \<Rightarrow> lval list \<Rightarrow> (bson_error, buf) res" where
  "pack_ordered L h b i (k # v # args) =
     (case lua_tolstring L k of
        None \<Rightarrow> Inl (Raise (NeedString (i + 1)))
      | Some key \<Rightarrow> rbind (append_one L h b v key 0) (\<lambda>b. pack_ordered L h b (i + 2) args))"
| "pack_ordered L h b i _ = Inr b"

definition pack_ordered_dict :: "lua_env \<Rightarrow> heap \<Rightarrow> buf \<Rightarrow> lval list \<Rightarrow> (bson_error, buf) res" where
  "pack_ordered_dict L h b args = rbind (reserve_length b) (\<lambda>(len, b).
     rbind (pack_ordered L h b 0 args) (\<lambda>b.
     rbind (write_byte b 0) (\<lambda>b.
     write_length b (of_nat (b_size b - len)) len)))"

text \<open>The entry points copy the finished buffer into a userdata.\<close>

definition lencode :: "lua_env \<Rightarrow> heap \<Rightarrow> lval \<Rightarrow> (bson_error, lval) res" where
  "lencode L h v = (case v of
     LTable a \<Rightarrow> (case h a of None \<Rightarrow> Inl (UB NullDeref) | Some t \<Rightarrow>
       rbind (pack_dict L h bson_create t False 0) (\<lambda>b.
       rbind (read_out b) (\<lambda>bs. Inr (LUserdata bs))))
   | _ \<Rightarrow> Inl (Raise (BadArgument 1)))"

definition lencode_order :: "lua_env \<Rightarrow> heap \<Rightarrow> lval list \<Rightarrow> (bson_error, lval) res" where
  "lencode_order L h args =
     (if length args mod 2 \<noteq> 0 then Inl (Raise InvalidOrderedDict) else
      rbind (pack_ordered_dict L h bson_create args) (\<lambda>b.
      rbind (read_out b) (\<lambda>bs. Inr (LUserdata bs))))"

section \<open>The document a Lua value stands for\<close>

text \<open>
  The same conversion without buffers: to an abstract document, or to the error. A string that
  is no well-formed regular expression has no document (the C code runs into a wild copy).
\<close>

definition regex_split :: "bytes \<Rightarrow> (bson_error, bval) res" where
  "regex_split p =
     (if p = [] then Inl (UB OutOfBounds) else
      let q = butlast p; i = length (takeWhile (\<lambda>x. x \<noteq> 0) (rev q)) in
      if i = length q then Inl (UB OutOfBounds)
      else Inr (BRegex (take (length q - i - 1) q) (drop (length q - i) q)))"

definition subtype_to_bson :: "byte \<Rightarrow> bytes \<Rightarrow> (bson_error, bval) res" where
  "subtype_to_bson t p =
     (if t = BSON_BINARY then Inr (BBinary p)
      else if t = BSON_OBJECTID then
        if length p \<noteq> 12 then Inl (Raise InvalidObjectId) else Inr (BRaw t p)
      else if t = BSON_JSCODE \<or> t = BSON_DBPOINTER \<or> t = BSON_SYMBOL \<or> t = BSON_CODEWS then Inr (BRaw t p)
      else if t = BSON_DATE then
        if length p \<noteq> 4 then Inl (Raise InvalidDate) else Inr (BDate (ucast (of_le32 p) * 1000))
      else if t = BSON_TIMESTAMP then
        if length p \<noteq> 8 then Inl (Raise InvalidTimestamp)
        else Inr (BTimestamp (of_le32 (take 4 p)) (of_le32 (drop 4 p)))
      else if t = BSON_REGEX then regex_split p
      else if t = BSON_MINKEY \<or> t = BSON_MAXKEY \<or> t = BSON_NULL then Inr (BEmpty t)
      else Inl (Raise (InvalidSubtype (unat t))))"

definition string_to_bson :: "bytes \<Rightarrow> (bson_error, bval) res" where
  "string_to_bson s =
     (if 1 < length s \<and> s ! 0 = 0 then subtype_to_bson (s ! 1) (drop 2 s) else Inr (BString s))"

definition userdata_to_bson :: "bytes \<Rightarrow> (bson_error, bval) res" where
  "userdata_to_bson u =
     (if length u < 4 then Inl (UB OutOfBounds) else
      let sz = sint (of_le32 (take 4 u)) in
      if sz < 0 \<or> int (length u) < sz then Inl (UB OutOfBounds)
      else Inr (BEmbed (take (nat sz) u)))"

function table_to_bson :: "lua_env \<Rightarrow> heap \<Rightarrow> ltable \<Rightarrow> bool \<Rightarrow> nat \<Rightarrow> (bson_error, (bytes \<times> bval) list) res"
  and pairs_to_bson :: "lua_env \<Rightarrow> heap \<Rightarrow> (lval \<times> lval) list \<Rightarrow> bool \<Rightarrow> nat \<Rightarrow>
    (bson_error, (bytes \<times> bval) list) res"
  and to_bson :: "lua_env \<Rightarrow> heap \<Rightarrow> lval \<Rightarrow> nat \<Rightarrow> (bson_error, bval) res" where
  "table_to_bson L h t isarray depth =
     (if MAX_DEPTH < depth then Inl (Raise TooDeep)
      else if stack_levels L \<le> depth then Inl (Raise StackOverflow)
      else pairs_to_bson L h (t_pairs t) isarray depth)"
| "pairs_to_bson L h [] isarray depth = Inr []"
| "pairs_to_bson L h ((k, v) # ps) isarray depth =
     rbind (entry_key L isarray k) (\<lambda>key.
     rbind (to_bson L h v depth) (\<lambda>x.
     rbind (pairs_to_bson L h ps isarray depth) (\<lambda>es. Inr ((key, x) # es))))"
| "to_bson L h v depth =
     (case v of
        LInt i \<Rightarrow> Inr (if is_32bit i then BInt32 (ucast i) else BInt64 i)
      | LNum d \<Rightarrow> Inr (BReal d)
      | LUserdata u \<Rightarrow> userdata_to_bson u
      | LStr s \<Rightarrow> string_to_bson s
      | LTable a \<Rightarrow>
          (case h a of None \<Rightarrow> Inl (UB NullDeref) | Some t \<Rightarrow>
             rbind (is_array t) (\<lambda>isarray.
             rbind (table_to_bson L h t isarray (depth + 1)) (\<lambda>es.
             Inr (if isarray then BArr es else BDoc es))))
      | LBool x \<Rightarrow> Inr (BBool x)
      | _ \<Rightarrow> Inl (Raise (InvalidValueType (lua_type v))))"
  by pat_completeness auto
termination
  by (relation "inv_image (less_than <*lex*> less_than) (\<lambda>x. case x of
      Inl (L, h, t, isarray, depth) \<Rightarrow> (MAX_DEPTH + 1 - depth, 0)
    | Inr (Inl (L, h, ps, isarray, depth)) \<Rightarrow> (MAX_DEPTH - depth, 2 + 2 * length ps)
    | Inr (Inr (L, h, v, depth)) \<Rightarrow> (MAX_DEPTH - depth, 1))") auto

declare table_to_bson.simps [simp del] to_bson.simps [simp del]

fun ordered_to_bson :: "lua_env \<Rightarrow> heap \<Rightarrow> nat \<Rightarrow> lval list \<Rightarrow> (bson_error, (bytes \<times> bval) list) res" where
  "ordered_to_bson L h i (k # v # args) =
     (case lua_tolstring L k of
        None \<Rightarrow> Inl (Raise (NeedString (i + 1)))
      | Some key \<Rightarrow> rbind (to_bson L h v 0) (\<lambda>x.
          rbind (ordered_to_bson L h (i + 2) args) (\<lambda>es. Inr ((key, x) # es))))"
| "ordered_to_bson L h i _ = Inr []"

section \<open>The encoder refines the conversion\<close>

lemma regex_scan_takeWhile:
  "i \<le> length q \<Longrightarrow> (\<forall>j < i. q ! (length q - j - 1) \<noteq> 0) \<Longrightarrow>
   regex_scan (x # y # q @ r) (length q) i = Inr (length (takeWhile (\<lambda>x. x \<noteq> 0) (rev q)))"
proof (induction "length q - i" arbitrary: i)
  case 0
  have "x \<noteq> 0" if "x \<in> set (rev q)" for x
  proof -
    from that obtain j where "j < length q" "rev q ! j = x" by (metis in_set_conv_nth length_rev)
    then show ?thesis using 0 by (auto simp: rev_nth)
  qed
  then have "takeWhile (\<lambda>x. x \<noteq> 0) (rev q) = rev q" by (subst takeWhile_eq_all_conv) blast
  then have "length (takeWhile (\<lambda>x. x \<noteq> 0) (rev q)) = length q" by (simp only: length_rev)
  moreover have "i = length q" using 0 by simp
  ultimately show ?case by (subst regex_scan.simps) simp
next
  case (Suc d)
  then have i: "i < length q" by simp
  then have l: "length q - Suc i < length q" by simp
  then have b: "str_byte (x # y # q @ r) (2 + (length q - i - 1)) = Inr (q ! (length q - i - 1))"
    by (simp add: str_byte_def nth_append)
  show ?case
  proof (cases "q ! (length q - i - 1) = 0")
    case True
    have "takeWhile (\<lambda>x. x \<noteq> 0) (rev q) = take i (rev q)"
      by (rule takeWhile_eq_take_P_nth) (use i True Suc.prems in \<open>auto simp: rev_nth\<close>)
    then show ?thesis using i True b by (subst regex_scan.simps) simp
  next
    case False
    have "\<forall>j < i + 1. q ! (length q - j - 1) \<noteq> 0"
      using False Suc.prems(2) by (auto simp: less_Suc_eq)
    then have "regex_scan (x # y # q @ r) (length q) (i + 1) = Inr (length (takeWhile (\<lambda>x. x \<noteq> 0) (rev q)))"
      using Suc.hyps(1) [of "i + 1"] Suc.hyps(2) i by simp
    then show ?thesis using False i b by (subst regex_scan.simps) simp
  qed
qed

text \<open>A part inside the string is written as that string; a length that has wrapped around is a fault.\<close>

lemma write_part_inside:
  assumes "a + n \<le> length s"
  shows "write_part b s a n = write_string b (take n (drop a s))"
proof -
  have "str_part s a n = Inr (take n (drop a s))" "length (take n (drop a s)) = n"
    using assms by (auto simp: str_part_def)
  then show ?thesis by (simp add: write_part_def write_string_def)
qed

lemma write_part_huge:
  assumes "buf_ok b" and "2 ^ 31 \<le> n"
  shows "\<exists>f. write_part b s a n = Inl (UB f)"
proof (cases "bson_reserve b (to_int32 (int n + 1))")
  case (Inl e)
  then show ?thesis using bson_buf.reserve_no_raise [of b "to_int32 (int n + 1)"] by (cases e) (auto simp: write_part_def)
next
  case (Inr b')
  then have "length (b_ptr b') < 2 ^ 31" 
    using bson_buf.reserve_partial [OF assms(1) Inr] buf_ok_cap [of b'] by (simp add: buf_ok_def)
  moreover have "length (take n (drop a (s @ [0]))) = n" if "a + n \<le> length s + 1" using that by simp
  ultimately show ?thesis using Inr assms(2) by (auto simp: write_part_def str_part_def memcpy_end_def)
qed

lemma append_regex_refines:
  assumes "buf_ok b"
  shows "refines (append_regex b (x # y # p)) b (rbind (regex_split p) (\<lambda>x. Inr (payload x)))"
proof (cases p rule: rev_cases)
  case Nil
  have "regex_scan [x, y] (2 ^ 64 - 1) 0 = (if x = 0 then Inr 0 else Inl (UB OutOfBounds))"
    by (subst regex_scan.simps, subst regex_scan.simps) (simp add: str_byte_def)
  then have "\<exists>f. append_regex b [x, y] = Inl (UB f)"
    using write_part_huge [OF assms, of "2 ^ 64 - 2" "[x, y]" 2] by (auto simp: append_regex_def size_minus_def)
  then show ?thesis using Nil by (auto simp: regex_split_def refines_UB_iff)
next
  case (snoc q z)
  define i where "i = length (takeWhile (\<lambda>x. x \<noteq> 0) (rev q))"
  have i: "regex_scan (x # y # p) (length q) 0 = Inr i"
    unfolding snoc i_def by (rule regex_scan_takeWhile) auto
  have len: "size_minus (Suc (Suc (Suc (length q)))) 3 = length q" by (simp add: size_minus_def)
  have le: "i \<le> length q" unfolding i_def by (metis length_rev length_takeWhile_le)
  show ?thesis
  proof (cases "i = length q")
    case True
    then have n: "size_minus (size_minus (length q) i) 1 = 2 ^ 64 - 1" by (simp add: size_minus_def)
    then show ?thesis using i True write_part_huge [OF assms, of "2 ^ 64 - 1" "x # y # p" 2]
      by (auto simp: append_regex_def len regex_split_def snoc refines_UB_iff simp flip: i_def)
  next
    case False
    with le have lt: "i < length q" by simp
    have "refines (rbind (write_string b (take (length q - i - 1) q)) (\<lambda>b. write_string b (drop (length q - i) q))) b
       (then_append (Inr (take (length q - i - 1) q @ [0])) (Inr (drop (length q - i) q @ [0])))"
      by (rule refines_then) (auto intro: writes assms)
    moreover have "write_part b' (x # y # p) 2 (length q - i - 1) = write_string b' (take (length q - i - 1) q)"
      "write_part b' (x # y # p) (2 + (length q - i)) i = write_string b' (drop (length q - i) q)" for b'
      using lt by (simp_all add: write_part_inside snoc)
    moreover have "size_minus (length q) i = length q - i" "size_minus (length q - i) 1 = length q - i - 1"
      using lt by (simp_all add: size_minus_def)
    ultimately show ?thesis using i lt
      by (simp add: append_regex_def len regex_split_def snoc Let_def flip: i_def)
  qed
qed

text \<open>
  \<open>refines_key\<close> is the shape all value writers share: the key first, then the payload.
\<close>

definition value_spec :: "bytes \<Rightarrow> (bson_error, bval) res \<Rightarrow> (bson_error, bytes) res" where
  "value_spec key r = rbind r (\<lambda>x. Inr (element key x))"

lemma value_spec_Inr [simp]: "value_spec key (Inr x) = Inr (element key x)"
  by (simp add: value_spec_def)

lemma value_spec_Inl [simp]: "value_spec key (Inl e) = Inl e"
  by (simp add: value_spec_def)

lemma refines_element:
  assumes "buf_ok b" and "t = tag x" and "\<And>b'. buf_ok b' \<Longrightarrow> refines (f b') b' (Inr (payload x))"
  shows "refines (rbind (append_key b t key) f) b (Inr (element key x))"
proof -
  have "refines (rbind (append_key b t key) f) b (then_append (Inr (t # key @ [0])) (Inr (payload x)))"
    by (rule refines_then) (use assms writes in auto)
  then show ?thesis using assms(2) by (simp add: element_def)
qed

lemma refines_key_error:
  assumes "buf_ok b" and "\<And>b'. f b' = Inl e"
  shows "refines (rbind (append_key b t key) f) b (Inl e)"
proof -
  have "refines (rbind (append_key b t key) f) b (then_append (Inr (t # key @ [0])) (Inl e))"
    by (rule refines_then) (use assms writes in \<open>auto simp: refines_Inl\<close>)
  then show ?thesis by simp
qed

lemma append_number_refines:
  assumes "buf_ok b"
  shows "refines (append_number b (LInt i) key) b
      (Inr (element key (if is_32bit i then BInt32 (ucast i) else BInt64 i)))"
    and "refines (append_number b (LNum d) key) b (Inr (element key (BReal d)))"
  by (auto simp: append_number_def intro!: refines_element assms) (auto intro: writes)

lemma append_userdata_refines:
  assumes "buf_ok b"
  shows "refines (append_userdata b u key) b (value_spec key (userdata_to_bson u))"
proof -
  define sz where "sz = sint (of_le32 (take 4 u))"
  show ?thesis
  proof (cases "length u < 4")
    case True
    then show ?thesis
      by (auto simp: append_userdata_def userdata_to_bson_def intro!: refines_key_error assms)
  next
    case False
    note u = False
    have *: "refines (append_userdata b u key) b
       (then_append (Inr (BSON_DOCUMENT # key @ [0]))
         (if sz < 0 \<or> int (length u) < sz then Inl (UB OutOfBounds) else Inr (take (nat sz) u)))"
      unfolding append_userdata_def Let_def sz_def [symmetric]
    proof (rule refines_then [OF assms append_key_refines [OF assms]])
      fix b' :: buf assume ok: "buf_ok b'"
      show "refines (if length u < 4 then Inl (UB OutOfBounds) else rbind (bson_reserve b' sz) (\<lambda>b.
         if sz < 0 \<or> int (length u) < sz then Inl (UB OutOfBounds)
         else rbind (memcpy_end b (take (nat sz) u)) (\<lambda>b. Inr (b\<lparr>b_size := b_size b + nat sz\<rparr>)))) b'
         (if sz < 0 \<or> int (length u) < sz then Inl (UB OutOfBounds) else Inr (take (nat sz) u))"
      proof (cases "sz < 0 \<or> int (length u) < sz")
        case True
        then show ?thesis using u bson_buf.reserve_no_raise [of b' sz]
          by (cases "bson_reserve b' sz") (auto simp: refines_UB_iff refines_def split: err.splits)
      next
        case False
        then have l: "length (take (nat sz) u) = nat sz" "0 \<le> sz" "nat sz \<le> length u" by auto
        have "refines (rbind (bson_reserve b' sz) (\<lambda>b. rbind (memcpy_end b (take (nat sz) u))
            (\<lambda>b. Inr (b\<lparr>b_size := b_size b + nat sz\<rparr>)))) b' (Inr (take (nat sz) u))"
          by (rule bson_buf.reserve_refines [OF ok])
            (use l memcpy_push [of _ "take (nat sz) u"] in \<open>auto simp: memcpy_end_def\<close>)
        then show ?thesis using u False by auto
      qed
    qed
    have "then_append (Inr (BSON_DOCUMENT # key @ [0]))
         (if sz < 0 \<or> int (length u) < sz then Inl (UB OutOfBounds) else Inr (take (nat sz) u)) =
       value_spec key (userdata_to_bson u)"
      using u by (auto simp: userdata_to_bson_def element_def Let_def simp flip: sz_def)
    with * show ?thesis by simp
  qed
qed

lemma plain_string_refines:
  assumes "buf_ok b"
  shows "refines (rbind (reserve_length b) (\<lambda>(off, b). rbind (write_string b s) (\<lambda>b.
     write_length b (of_nat (length s) + 1) off))) b (Inr (payload (BString s)))"
  using length_refines [OF assms write_string_refines refl, of s "\<lambda>_. of_nat (length s) + 1"]
  by (simp add: add.commute)

lemma timestamp_refines:
  assumes "buf_ok b"
  shows "refines (rbind (write_int32 b i) (\<lambda>b. write_int32 b t)) b (Inr (payload (BTimestamp i t)))"
proof -
  have "refines (rbind (write_int32 b i) (\<lambda>b. write_int32 b t)) b (then_append (Inr (le32 i)) (Inr (le32 t)))"
    by (rule refines_then) (use assms writes in auto)
  then show ?thesis by simp
qed

definition payload_spec :: "(bson_error, bval) res \<Rightarrow> (bson_error, bytes) res" where
  "payload_spec r = rbind r (\<lambda>x. Inr (payload x))"

lemma payload_spec_simps [simp]:
  "payload_spec (Inr x) = Inr (payload x)" "payload_spec (Inl e) = Inl e"
  by (simp_all add: payload_spec_def)

lemma append_subtype_refines:
  assumes "buf_ok b"
  shows "refines (append_subtype b t (x # y # p)) b (payload_spec (subtype_to_bson t p))"
  using assms append_regex_refines [OF assms, of x y p] timestamp_refines [OF assms] writes [OF assms]
  unfolding append_subtype_def subtype_to_bson_def payload_spec_def [of "regex_split p"]
  by (simp add: refines_Raise_iff refines_Nil payload_spec_def Let_def del: le32_of_le32)

lemma subtype_tag: "subtype_to_bson t p = Inr x \<Longrightarrow> tag x = t"
  by (auto simp: subtype_to_bson_def regex_split_def Let_def split: if_splits)

lemma append_string_refines:
  assumes "buf_ok b"
  shows "refines (append_string b s key) b (value_spec key (string_to_bson s))"
proof (cases "1 < length s \<and> s ! 0 = 0")
  case False
  then show ?thesis
    unfolding append_string_def string_to_bson_def
    by (auto simp del: payload.simps intro!: refines_element plain_string_refines assms)
next
  case True
  then obtain x y where s: "s = x # y # drop 2 s" by (cases s; cases "tl s") auto
  let ?r = "subtype_to_bson (s ! 1) (drop 2 s)"
  have "refines (rbind (append_key b (s ! 1) key) (\<lambda>b. append_subtype b (s ! 1) s)) b
      (then_append (Inr ((s ! 1) # key @ [0])) (payload_spec ?r))"
    by (rule refines_then [OF assms append_key_refines [OF assms]])
      (subst (2) s, rule append_subtype_refines)
  moreover have "then_append (Inr ((s ! 1) # key @ [0])) (payload_spec ?r) = value_spec key ?r"
    using subtype_tag [of "s ! 1" "drop 2 s"] by (cases ?r) (auto simp: element_def)
  ultimately show ?thesis using True by (simp add: append_string_def string_to_bson_def)
qed

text \<open>
  A whole dictionary: the frame around what the pairs write.
\<close>

definition frame_spec :: "(bson_error, (bytes \<times> bval) list) res \<Rightarrow> (bson_error, bytes) res" where
  "frame_spec r = rbind r (\<lambda>es. Inr (doc_bytes es))"

definition elems_spec :: "(bson_error, (bytes \<times> bval) list) res \<Rightarrow> (bson_error, bytes) res" where
  "elems_spec r = rbind r (\<lambda>es. Inr (elems es))"

lemma frame_refines:
  assumes "buf_ok b" and "\<And>b'. buf_ok b' \<Longrightarrow> refines (f b') b' (elems_spec r)"
  shows "refines (rbind (reserve_length b) (\<lambda>(len, b). rbind (f b) (\<lambda>b. rbind (write_byte b 0) (\<lambda>b.
    write_length b (of_nat (b_size b - len)) len)))) b (frame_spec r)"
proof -
  let ?s = "then_append (elems_spec r) (Inr [0])"
  have "refines (rbind (reserve_length b) (\<lambda>(len, b). rbind (rbind (f b) (\<lambda>b. write_byte b 0)) (\<lambda>b.
    write_length b (of_nat (b_size b - len)) len))) b
    (rbind ?s (\<lambda>body. Inr (le32 (of_nat (length body + 4)) @ body)))"
    by (rule length_refines [OF assms(1), where l = "\<lambda>len b. of_nat (b_size b - len)"])
       (auto intro!: refines_then assms(2) writes)
  moreover have "rbind ?s (\<lambda>body. Inr (le32 (of_nat (length body + 4)) @ body)) = frame_spec r"
    by (cases r) (simp_all add: elems_spec_def frame_spec_def doc_bytes_def doc_frame_def add.commute)
  ultimately show ?thesis by (simp add: rbind_assoc)
qed

lemma pack_refines:
  "buf_ok b \<Longrightarrow> refines (pack_dict L h b t isarray depth) b (frame_spec (table_to_bson L h t isarray depth))"
  "buf_ok b \<Longrightarrow> refines (pack_pairs L h b ps isarray depth) b (elems_spec (pairs_to_bson L h ps isarray depth))"
  "buf_ok b \<Longrightarrow> refines (append_one L h b v key depth) b (value_spec key (to_bson L h v depth))"
proof (induction L h t isarray depth and L h ps isarray depth and L h v depth
    arbitrary: b and b and b key rule: table_to_bson_pairs_to_bson_to_bson.induct)
  case (1 L h t isarray depth)
  show ?case
  proof (cases "MAX_DEPTH < depth \<or> stack_levels L \<le> depth")
    case True
    then show ?thesis
      by (auto simp: pack_dict.simps table_to_bson.simps frame_spec_def refines_Raise_iff)
  next
    case False
    have "refines (rbind (reserve_length b) (\<lambda>(len, b). rbind (pack_pairs L h b (t_pairs t) isarray depth)
      (\<lambda>b. rbind (write_byte b 0) (\<lambda>b. write_length b (of_nat (b_size b - len)) len)))) b
      (frame_spec (pairs_to_bson L h (t_pairs t) isarray depth))"
      by (rule frame_refines) (use 1 False in auto)
    then show ?thesis using False by (simp add: pack_dict.simps table_to_bson.simps)
  qed
next
  case (2 L h isarray depth)
  then show ?case by (simp add: elems_spec_def refines_Nil)
next
  case (3 L h k v ps isarray depth)
  show ?case
  proof (cases "entry_key L isarray k")
    case (Inl e)
    then show ?thesis by (simp add: elems_spec_def refines_Inl)
  next
    case (Inr key)
    have "refines (rbind (append_one L h b v key depth) (\<lambda>b. pack_pairs L h b ps isarray depth)) b
      (then_append (value_spec key (to_bson L h v depth)) (elems_spec (pairs_to_bson L h ps isarray depth)))"
      by (rule refines_then) (use 3 Inr in \<open>auto simp: value_spec_def res_simps\<close>)
    moreover have "then_append (value_spec key (to_bson L h v depth)) (elems_spec (pairs_to_bson L h ps isarray depth)) =
      elems_spec (pairs_to_bson L h ((k, v) # ps) isarray depth)"
      using Inr by (cases "to_bson L h v depth"; cases "pairs_to_bson L h ps isarray depth")
        (simp_all add: elems_spec_def element_def)
    ultimately show ?thesis using Inr by simp
  qed
next
  case (4 L h v depth)
  show ?case
  proof (cases v)
    case (LTable a)
    show ?thesis
    proof (cases "h a")
      case None
      then show ?thesis by (simp add: append_one.simps to_bson.simps LTable refines_Inl)
    next
      case (Some t)
      show ?thesis
      proof (cases "is_array t")
        case (Inl e)
        then show ?thesis by (simp add: append_one.simps to_bson.simps LTable Some refines_Inl)
      next
        case (Inr arr)
        let ?r = "table_to_bson L h t arr (depth + 1)"
        let ?t = "if arr then BSON_ARRAY else BSON_DOCUMENT"
        have "refines (rbind (append_key b ?t key) (\<lambda>b. pack_dict L h b t arr (depth + 1))) b
          (then_append (Inr (?t # key @ [0])) (frame_spec ?r))"
          by (rule refines_then [OF "4.prems" append_key_refines [OF "4.prems"]])
            (use 4 LTable Some Inr in auto)
        moreover have "then_append (Inr (?t # key @ [0])) (frame_spec ?r) =
          value_spec key (rbind ?r (\<lambda>es. Inr (if arr then BArr es else BDoc es)))"
          by (cases ?r) (simp_all add: frame_spec_def doc_bytes_def element_def)
        ultimately show ?thesis using LTable Some Inr by (simp add: append_one.simps to_bson.simps)
      qed
    qed
  next
    case (LBool x)
    have "refines (rbind (append_key b BSON_BOOLEAN key) (\<lambda>b. write_byte b (if x then 1 else 0))) b
      (Inr (element key (BBool x)))"
      by (rule refines_element) (use 4 in \<open>auto intro: writes\<close>)
    then show ?thesis by (simp add: append_one.simps to_bson.simps LBool)
  qed (use 4 append_number_refines append_userdata_refines append_string_refines in
        \<open>auto simp: append_one.simps to_bson.simps refines_Inl\<close>)
qed

lemma pack_ordered_refines:
  "buf_ok b \<Longrightarrow> refines (pack_ordered L h b i args) b (elems_spec (ordered_to_bson L h i args))"
proof (induction L h b i args rule: pack_ordered.induct)
  case (1 L h b i k v args)
  show ?case
  proof (cases "lua_tolstring L k")
    case None
    then show ?thesis by (simp add: elems_spec_def refines_Raise_iff)
  next
    case (Some key)
    have "refines (rbind (append_one L h b v key 0) (\<lambda>b. pack_ordered L h b (i + 2) args)) b
      (then_append (value_spec key (to_bson L h v 0)) (elems_spec (ordered_to_bson L h (i + 2) args)))"
      by (rule refines_then) (use 1 Some pack_refines(3) in auto)
    moreover have "then_append (value_spec key (to_bson L h v 0)) (elems_spec (ordered_to_bson L h (i + 2) args)) =
      elems_spec (ordered_to_bson L h i (k # v # args))"
      using Some by (cases "to_bson L h v 0"; cases "ordered_to_bson L h (i + 2) args")
        (simp_all add: elems_spec_def element_def)
    ultimately show ?thesis using Some by simp
  qed
qed (auto simp: elems_spec_def refines_Nil)

end
