(* ===== verification/Bson_Reader.thy ===== *)
theory Bson_Reader
  imports Bson_Spec
begin

text \<open>
  \<open>struct bson_reader\<close> of \<open>cext/lua-bson.c\<close>: a position inside a memory block \<open>m\<close> and the number of
  bytes the reader believes are left. The two are independent, as in the code: \<open>check_reader\<close>
  compares with the believed size only, and a load outside the block is \<open>UB OutOfBounds\<close>. The block
  is what the C pointer may legally be dereferenced into.
\<close>

record reader =
  r_pos :: int
  r_size :: int

definition load :: "bytes \<Rightarrow> int \<Rightarrow> (bson_error, byte) res" where
  "load m i = (if 0 \<le> i \<and> i < int (length m) then Inr (m ! nat i) else Inl (UB OutOfBounds))"

text \<open>
  The \<open>n\<close> bytes at offset \<open>i\<close> for a Lua API function that copies them; \<open>n\<close> is converted to
  \<open>size_t\<close>, so a negative count is an enormous one. A range that does not lie in the block breaks the
  contract of these functions and is \<open>UB OutOfBounds\<close>, also where an implementation of Lua might
  refuse to allocate so much.
\<close>

definition slice :: "bytes \<Rightarrow> int \<Rightarrow> int \<Rightarrow> (bson_error, bytes) res" where
  "slice m i n = (if n = 0 then Inr []
     else if 0 < n \<and> 0 \<le> i \<and> i + n \<le> int (length m) then Inr (take (nat n) (drop (nat i) m))
     else Inl (UB OutOfBounds))"

definition check_reader :: "reader \<Rightarrow> int \<Rightarrow> (bson_error, unit) res" where
  "check_reader br sz = (if r_size br < sz then Inl (Raise (InvalidBlock (r_size br) sz)) else Inr ())"

text \<open>\<open>br->ptr += n; br->size -= n\<close>, the second on \<open>int\<close>.\<close>

definition advance :: "reader \<Rightarrow> int \<Rightarrow> (bson_error, reader) res" where
  "advance br n = rbind (c_int (r_size br - n)) (\<lambda>sz. Inr \<lparr>r_pos = r_pos br + n, r_size = sz\<rparr>)"

definition get_length :: "bytes \<Rightarrow> int \<Rightarrow> (bson_error, int) res" where
  "get_length m i = rbind (slice m i 4) (\<lambda>b. Inr (sint (of_le32 b)))"

definition read_byte :: "bytes \<Rightarrow> reader \<Rightarrow> (bson_error, byte \<times> reader) res" where
  "read_byte m br = rbind (check_reader br 1) (\<lambda>_. rbind (load m (r_pos br)) (\<lambda>b.
     rbind (advance br 1) (\<lambda>br. Inr (b, br))))"

definition read_uint32 :: "bytes \<Rightarrow> reader \<Rightarrow> (bson_error, 32 word \<times> reader) res" where
  "read_uint32 m br = rbind (check_reader br 4) (\<lambda>_. rbind (slice m (r_pos br) 4) (\<lambda>b.
     rbind (advance br 4) (\<lambda>br. Inr (of_le32 b, br))))"

definition read_int32 :: "bytes \<Rightarrow> reader \<Rightarrow> (bson_error, int \<times> reader) res" where
  "read_int32 m br = rbind (read_uint32 m br) (\<lambda>(v, br). Inr (sint v, br))"

definition read_int64 :: "bytes \<Rightarrow> reader \<Rightarrow> (bson_error, 64 word \<times> reader) res" where
  "read_int64 m br = rbind (check_reader br 8) (\<lambda>_. rbind (slice m (r_pos br) 8) (\<lambda>b.
     rbind (advance br 8) (\<lambda>br. Inr (of_le64 b, br))))"

definition read_double :: "bytes \<Rightarrow> reader \<Rightarrow> (bson_error, 64 word \<times> reader) res" where
  "read_double m br = rbind (check_reader br 8) (\<lambda>_. rbind (slice m (r_pos br) 8) (\<lambda>b.
     rbind (advance br 8) (\<lambda>br. Inr (of_le64 b, br))))"

text \<open>\<open>read_bytes\<close> returns the position before the step: a pointer into the block.\<close>

definition read_bytes :: "reader \<Rightarrow> int \<Rightarrow> (bson_error, int \<times> reader) res" where
  "read_bytes br sz = rbind (check_reader br sz) (\<lambda>_.
     rbind (advance br sz) (\<lambda>br'. Inr (r_pos br, br')))"

text \<open>The search for the closing zero byte; it ends at the believed size or with a fault.\<close>

function scan_cstring :: "bytes \<Rightarrow> int \<Rightarrow> int \<Rightarrow> int \<Rightarrow> (bson_error, int) res" where
  "scan_cstring m pos sz i =
     (if i = sz then Inl (Raise InvalidCString)
      else case load m (pos + i) of
        Inl e \<Rightarrow> Inl e
      | Inr b \<Rightarrow> if b = 0 then Inr i else scan_cstring m pos sz (i + 1))"
  by pat_completeness auto
termination
  by (relation "measure (\<lambda>(m, pos, sz, i). nat (int (length m) - (pos + i)))")
     (auto simp: load_def split: if_splits)

declare scan_cstring.simps [simp del]

definition read_cstring :: "bytes \<Rightarrow> reader \<Rightarrow> (bson_error, bytes \<times> reader) res" where
  "read_cstring m br = rbind (scan_cstring m (r_pos br) (r_size br) 0) (\<lambda>i.
     rbind (slice m (r_pos br) i) (\<lambda>s.
     rbind (advance br (i + 1)) (\<lambda>br. Inr (s, br))))"

section \<open>Readers on bytes that are there\<close>

text \<open>
  \<open>bytes_at m br xs\<close>: the next bytes of the reader are \<open>xs\<close>, in the block and within the believed
  size.
\<close>

definition bytes_at :: "bytes \<Rightarrow> reader \<Rightarrow> bytes \<Rightarrow> bool" where
  "bytes_at m br xs \<longleftrightarrow> 0 \<le> r_pos br \<and> int (length xs) \<le> r_size br \<and> r_size br \<le> INT_MAX \<and>
     (\<exists>rest. drop (nat (r_pos br)) m = xs @ rest)"

definition skip :: "reader \<Rightarrow> nat \<Rightarrow> reader" where
  "skip br n = \<lparr>r_pos = r_pos br + int n, r_size = r_size br - int n\<rparr>"

lemma skip_0 [simp]: "skip br 0 = br"
  by (simp add: skip_def)

lemma skip_skip [simp]: "skip (skip br m) n = skip br (m + n)"
  by (simp add: skip_def)

lemma skip_sel [simp]: "r_pos (skip br n) = r_pos br + int n" "r_size (skip br n) = r_size br - int n"
  by (simp_all add: skip_def)

lemma bytes_at_append:
  "bytes_at m br (xs @ ys) \<longleftrightarrow> bytes_at m br xs \<and> bytes_at m (skip br (length xs)) ys"
proof -
  have "(\<exists>rest. drop (nat (r_pos br)) m = (xs @ ys) @ rest) \<longleftrightarrow>
    (\<exists>rest. drop (nat (r_pos br)) m = xs @ rest) \<and>
    (\<exists>rest. drop (nat (r_pos br + int (length xs))) m = ys @ rest)" if "0 \<le> r_pos br"
  proof -
    have *: "drop (nat (r_pos br + int (length xs))) m = drop (length xs) (drop (nat (r_pos br)) m)"
      using that by (simp add: nat_add_distrib add.commute)
    show ?thesis
      unfolding * by (metis append.assoc append_eq_conv_conj)
  qed
  then show ?thesis by (auto simp: bytes_at_def)
qed

lemma bytes_at_size: "bytes_at m br xs \<Longrightarrow> int (length xs) \<le> r_size br \<and> r_size br \<le> INT_MAX"
  by (simp add: bytes_at_def)

lemma bytes_at_slice: "bytes_at m br xs \<Longrightarrow> n = int (length xs) \<Longrightarrow> slice m (r_pos br) n = Inr xs"
proof -
  assume a: "bytes_at m br xs" and n: "n = int (length xs)"
  then obtain rest where r: "drop (nat (r_pos br)) m = xs @ rest" "0 \<le> r_pos br"
    by (auto simp: bytes_at_def)
  have "length m - nat (r_pos br) = length xs + length rest"
    using arg_cong [OF r(1), of length] by simp
  then have "nat (r_pos br) + length xs \<le> length m" if "xs \<noteq> []"
    using that by (cases xs) auto
  then have "r_pos br + int (length xs) \<le> int (length m)" if "xs \<noteq> []"
    using that r(2) by linarith
  then show ?thesis using r n by (auto simp: slice_def)
qed

lemma bytes_at_load: "bytes_at m br (x # xs) \<Longrightarrow> load m (r_pos br) = Inr x"
proof -
  assume "bytes_at m br (x # xs)"
  then obtain rest where r: "drop (nat (r_pos br)) m = x # xs @ rest" "0 \<le> r_pos br"
    by (auto simp: bytes_at_def)
  then have "nat (r_pos br) < length m" by (metis drop_all list.distinct(1) not_le)
  moreover have "m ! nat (r_pos br) = x" using r(1) calculation by (metis nth_via_drop)
  ultimately show ?thesis using r(2) by (simp add: load_def)
qed

lemma advance_skip:
  "bytes_at m br xs \<Longrightarrow> n = int (length xs) \<Longrightarrow> advance br n = Inr (skip br (length xs))"
  by (auto simp: advance_def skip_def bytes_at_def)

named_theorems reads "reading bytes that are there"

lemma read_byte_at [reads]: "bytes_at m br [x] \<Longrightarrow> read_byte m br = Inr (x, skip br 1)"
  using bytes_at_size [of m br "[x]"]
  by (simp add: read_byte_def check_reader_def bytes_at_load advance_skip [of m br "[x]"])

lemma read_uint32_at [reads]: "bytes_at m br (le32 w) \<Longrightarrow> read_uint32 m br = Inr (w, skip br 4)"
  using bytes_at_size [of m br "le32 w"]
  by (simp add: read_uint32_def check_reader_def bytes_at_slice advance_skip [of m br "le32 w"])

lemma read_int32_at [reads]: "bytes_at m br (le32 w) \<Longrightarrow> read_int32 m br = Inr (sint w, skip br 4)"
  by (simp add: read_int32_def reads)

lemma read_int64_at [reads]: "bytes_at m br (le64 w) \<Longrightarrow> read_int64 m br = Inr (w, skip br 8)"
  using bytes_at_size [of m br "le64 w"]
  by (simp add: read_int64_def check_reader_def bytes_at_slice advance_skip [of m br "le64 w"])

lemma read_double_at [reads]: "bytes_at m br (le64 w) \<Longrightarrow> read_double m br = Inr (w, skip br 8)"
  using bytes_at_size [of m br "le64 w"]
  by (simp add: read_double_def check_reader_def bytes_at_slice advance_skip [of m br "le64 w"])

lemma read_bytes_at [reads]:
  "bytes_at m br xs \<Longrightarrow> n = int (length xs) \<Longrightarrow> read_bytes br n = Inr (r_pos br, skip br (length xs))"
  using bytes_at_size [of m br xs]
  by (simp add: read_bytes_def check_reader_def advance_skip [of m br xs])

lemma scan_cstring_at:
  assumes "bytes_at m br (xs @ 0 # ys)" and "0 \<notin> set xs" and "i \<le> length xs"
  shows "scan_cstring m (r_pos br) (r_size br) (int i) = Inr (int (length xs))"
  using assms(3)
proof (induction "length xs - i" arbitrary: i)
  case 0
  then have i: "i = length xs" by simp
  have "load m (r_pos br + int (length xs)) = Inr 0"
    using assms(1) bytes_at_load [of m "skip br (length xs)" 0 ys] by (simp add: bytes_at_append)
  then show ?case using i bytes_at_size [OF assms(1)] by (subst scan_cstring.simps) simp
next
  case (Suc d)
  then have i: "i < length xs" by simp
  have "xs @ 0 # ys = take i xs @ (xs ! i) # drop (Suc i) xs @ 0 # ys"
    using id_take_nth_drop [OF i] by (metis append.assoc append_Cons)
  then have "bytes_at m br (take i xs @ (xs ! i) # drop (Suc i) xs @ 0 # ys)" using assms(1) by metis
  then have "bytes_at m (skip br i) ((xs ! i) # drop (Suc i) xs @ 0 # ys)"
    using i by (simp add: bytes_at_append [of m br "take i xs"])
  from bytes_at_load [OF this] have "load m (r_pos br + int i) = Inr (xs ! i)" by simp
  moreover have "xs ! i \<noteq> 0" using assms(2) i by (metis nth_mem)
  ultimately show ?case
    using Suc.hyps(1) [of "Suc i"] Suc.hyps(2) i bytes_at_size [OF assms(1)]
    by (subst scan_cstring.simps) (simp add: add.commute)
qed

lemma read_cstring_at [reads]:
  assumes "bytes_at m br (xs @ [0])" and "0 \<notin> set xs"
  shows "read_cstring m br = Inr (xs, skip br (length xs + 1))"
proof -
  have "bytes_at m br xs" using assms(1) by (simp add: bytes_at_append)
  then show ?thesis
    using scan_cstring_at [of m br xs "[]" 0] assms bytes_at_slice [of m br xs]
      advance_skip [OF assms(1)] by (simp add: read_cstring_def add.commute)
qed

end
