(* ===== verification/Bson_Decode.thy ===== *)
theory Bson_Decode
  imports Bson_Reader
begin

text \<open>
  The decoder of \<open>cext/lua-bson.c\<close>: \<open>unpack_dict\<close> with its element loop, and \<open>ldecode\<close>. The
  decoder recurses on nested documents without a limit of its own; \<open>lvl\<close> is the number of nested
  calls the Lua stack takes before \<open>luaL_checkstack\<close> raises an error. The loop and the recursion
  carry fuel, and \<open>ldecode\<close> provides one unit more than the document is long, which is always
  enough (\<open>ldecode_never_diverges\<close>).
\<close>

section \<open>Scalar values\<close>

definition make_object :: "byte \<Rightarrow> bytes \<Rightarrow> lval" where
  "make_object t p = LStr ([0, t] @ p)"

text \<open>C's integer division truncates.\<close>

definition c_div :: "int \<Rightarrow> int \<Rightarrow> int" where
  "c_div a b = sgn a * sgn b * (\<bar>a\<bar> div \<bar>b\<bar>)"

text \<open>\<open>uint32_t v = date / 1000\<close>\<close>

definition date_seconds :: "64 word \<Rightarrow> 32 word" where
  "date_seconds v = word_of_int (c_div (sint v) 1000)"

definition unpack_scalar :: "bytes \<Rightarrow> byte \<Rightarrow> reader \<Rightarrow> (bson_error, lval \<times> reader) res" where
  "unpack_scalar m bt t =
     (if bt = BSON_REAL then rbind (read_double m t) (\<lambda>(d, t). Inr (LNum d, t))
      else if bt = BSON_BOOLEAN then rbind (read_byte m t) (\<lambda>(v, t). Inr (LBool (v \<noteq> 0), t))
      else if bt = BSON_STRING then
        rbind (read_int32 m t) (\<lambda>(sz, t).
        if sz \<le> 0 then Inl (Raise (InvalidStringLength sz)) else
        rbind (read_bytes t sz) (\<lambda>(p, t).
        rbind (slice m p (sz - 1)) (\<lambda>s. Inr (LStr s, t))))
      else if bt = BSON_BINARY then
        rbind (read_int32 m t) (\<lambda>(sz, t).
        rbind (read_byte m t) (\<lambda>(subtype, t).
        rbind (read_bytes t sz) (\<lambda>(p, t).
        rbind (slice m p sz) (\<lambda>s. Inr (LStr ([0, BSON_BINARY, subtype] @ s), t)))))
      else if bt = BSON_OBJECTID then
        rbind (read_bytes t 12) (\<lambda>(p, t).
        rbind (slice m p 12) (\<lambda>s. Inr (make_object BSON_OBJECTID s, t)))
      else if bt = BSON_DATE then
        rbind (read_int64 m t) (\<lambda>(date, t). Inr (make_object BSON_DATE (le32 (date_seconds date)), t))
      else if bt = BSON_MINKEY \<or> bt = BSON_MAXKEY \<or> bt = BSON_NULL then Inr (LStr [0, bt], t)
      else if bt = BSON_REGEX then
        rbind (read_cstring m t) (\<lambda>(r1, t).
        rbind (read_cstring m t) (\<lambda>(r2, t).
        Inr (LStr ([0, BSON_REGEX] @ r1 @ [0] @ r2 @ [0]), t)))
      else if bt = BSON_INT32 then
        rbind (read_int32 m t) (\<lambda>(i, t). Inr (LInt (word_of_int i), t))
      else if bt = BSON_TIMESTAMP then
        rbind (read_uint32 m t) (\<lambda>(inc, t).
        rbind (read_uint32 m t) (\<lambda>(ts, t).
        Inr (LStr ([0, BSON_TIMESTAMP] @ le32 inc @ le32 ts), t)))
      else if bt = BSON_INT64 then rbind (read_int64 m t) (\<lambda>(i, t). Inr (LInt i, t))
      else if bt = BSON_DBPOINTER then
        rbind (read_int32 m t) (\<lambda>(sz, t').
        rbind (c_int (sz + 12)) (\<lambda>n.
        rbind (read_bytes t' n) (\<lambda>(_, t').
        rbind (c_int (sz + 16)) (\<lambda>n.
        rbind (slice m (r_pos t) n) (\<lambda>s. Inr (make_object BSON_DBPOINTER s, t'))))))
      else if bt = BSON_JSCODE \<or> bt = BSON_SYMBOL then
        rbind (read_int32 m t) (\<lambda>(sz, t').
        rbind (read_bytes t' sz) (\<lambda>(_, t').
        rbind (c_int (sz + 4)) (\<lambda>n.
        rbind (slice m (r_pos t) n) (\<lambda>s. Inr (make_object bt s, t')))))
      else if bt = BSON_CODEWS then
        rbind (read_int32 m t) (\<lambda>(sz, t').
        rbind (c_int (sz - 4)) (\<lambda>n.
        rbind (read_bytes t' n) (\<lambda>(_, t').
        rbind (slice m (r_pos t) sz) (\<lambda>s. Inr (make_object bt s, t')))))
      else Inl (Raise (InvalidBsonType (int (unat bt)))))"

section \<open>Documents\<close>

text \<open>
  The key of an array element is \<open>strtol(key) + 1\<close>, computed on \<open>long\<close> and narrowed to \<open>int\<close>.
\<close>

definition decoded_key :: "bool \<Rightarrow> bytes \<Rightarrow> (bson_error, lval) res" where
  "decoded_key array key =
     (if array then
        if strtol key = 2 ^ 63 - 1 then Inl (UB SignedOverflow)
        else Inr (LInt (word_of_int (to_int32 (strtol key + 1))))
      else Inr (LStr key))"

function unpack_dict :: "nat \<Rightarrow> bytes \<Rightarrow> nat \<Rightarrow> bool \<Rightarrow> reader \<Rightarrow> (bson_error, dval \<times> reader) res"
  and unpack_loop :: "nat \<Rightarrow> bytes \<Rightarrow> nat \<Rightarrow> bool \<Rightarrow> reader \<Rightarrow> (lval \<times> dval) list \<Rightarrow>
    (bson_error, (lval \<times> dval) list) res"
  and unpack_value :: "nat \<Rightarrow> bytes \<Rightarrow> nat \<Rightarrow> byte \<Rightarrow> reader \<Rightarrow> (bson_error, dval \<times> reader) res" where
  "unpack_dict fuel m lvl array br =
     (case (fuel, lvl) of
        (0, _) \<Rightarrow> Inl (UB Diverges)
      | (Suc fuel, 0) \<Rightarrow> Inl (Raise StackOverflow)
      | (Suc fuel, Suc lvl) \<Rightarrow>
          rbind (read_int32 m br) (\<lambda>(sz, br).
          rbind (c_int (sz - 5)) (\<lambda>n.
          rbind (read_bytes br n) (\<lambda>(p, br).
          rbind (read_byte m br) (\<lambda>(e, br).
          if e \<noteq> 0 then Inl (Raise InvalidDocumentEnd) else
          rbind (unpack_loop fuel m lvl array \<lparr>r_pos = p, r_size = n\<rparr> []) (\<lambda>tab.
          Inr (DTab tab, br)))))))"
| "unpack_loop fuel m lvl array t tab =
     (case fuel of 0 \<Rightarrow> Inl (UB Diverges) | Suc fuel \<Rightarrow>
      if r_size t = 0 then Inr tab else
      rbind (read_byte m t) (\<lambda>(bt, t).
      rbind (read_cstring m t) (\<lambda>(key, t).
      rbind (decoded_key array key) (\<lambda>k.
      rbind (unpack_value fuel m lvl bt t) (\<lambda>(v, t).
      unpack_loop fuel m lvl array t (rawset k v tab))))))"
| "unpack_value fuel m lvl bt t =
     (if bt = BSON_DOCUMENT then unpack_dict fuel m lvl False t
      else if bt = BSON_ARRAY then unpack_dict fuel m lvl True t
      else rbind (unpack_scalar m bt t) (\<lambda>(v, t). Inr (DVal v, t)))"
  by pat_completeness auto
termination
  by (relation "measure (\<lambda>x. case x of
      Inl (fuel, _) \<Rightarrow> 2 * fuel
    | Inr (Inl (fuel, _)) \<Rightarrow> 2 * fuel
    | Inr (Inr (fuel, _)) \<Rightarrow> 2 * fuel + 1)") auto

declare unpack_dict.simps [simp del] unpack_loop.simps [simp del] unpack_value.simps [simp del]

text \<open>
  \<open>decode\<close> takes a pointer: no userdata gives no result; otherwise a block and the offset the
  pointer has in it.
\<close>

definition ldecode :: "nat \<Rightarrow> (bytes \<times> nat) option \<Rightarrow> (bson_error, dval option) res" where
  "ldecode lvl arg = (case arg of
     None \<Rightarrow> Inr None
   | Some (m, p) \<Rightarrow>
       rbind (get_length m (int p)) (\<lambda>len.
       rbind (unpack_dict (nat len + 1) m lvl False \<lparr>r_pos = int p, r_size = len\<rparr>) (\<lambda>(v, br).
       Inr (Some v))))"

section \<open>The Lua value of a document\<close>

definition element_key :: "bool \<Rightarrow> bytes \<Rightarrow> lval" where
  "element_key array key = (if array then LInt (word_of_int (to_int32 (strtol key + 1))) else LStr key)"

fun bson_to_lua :: "bval \<Rightarrow> dval"
  and fields_to_lua :: "bool \<Rightarrow> (bytes \<times> bval) list \<Rightarrow> (lval \<times> dval) list \<Rightarrow> (lval \<times> dval) list" where
  "bson_to_lua (BReal d) = DVal (LNum d)"
| "bson_to_lua (BString s) = DVal (LStr s)"
| "bson_to_lua (BDoc es) = DTab (fields_to_lua False es [])"
| "bson_to_lua (BArr es) = DTab (fields_to_lua True es [])"
| "bson_to_lua (BEmbed p) = DVal (LUserdata p)"
| "bson_to_lua (BBinary p) = DVal (LStr ([0, BSON_BINARY] @ p))"
| "bson_to_lua (BBool x) = DVal (LBool x)"
| "bson_to_lua (BDate v) = DVal (LStr ([0, BSON_DATE] @ le32 (date_seconds v)))"
| "bson_to_lua (BTimestamp i t) = DVal (LStr ([0, BSON_TIMESTAMP] @ le32 i @ le32 t))"
| "bson_to_lua (BRegex r q) = DVal (LStr ([0, BSON_REGEX] @ r @ [0] @ q @ [0]))"
| "bson_to_lua (BEmpty t) = DVal (LStr [0, t])"
| "bson_to_lua (BRaw t p) = DVal (LStr ([0, t] @ p))"
| "bson_to_lua (BInt32 i) = DVal (LInt (scast i))"
| "bson_to_lua (BInt64 i) = DVal (LInt i)"
| "fields_to_lua array [] tab = tab"
| "fields_to_lua array ((k, v) # es) tab =
     fields_to_lua array es (rawset (element_key array k) (bson_to_lua v) tab)"

text \<open>
  Well-formed documents: keys and the parts of a regular expression hold no zero byte, raw payloads
  carry the length field of their type, array keys do not overflow a \<open>long\<close>.
\<close>

definition raw_ok :: "byte \<Rightarrow> bytes \<Rightarrow> bool" where
  "raw_ok t p \<longleftrightarrow>
     (t = BSON_OBJECTID \<and> length p = 12) \<or>
     (4 \<le> length p \<and>
       (t \<in> {BSON_JSCODE, BSON_SYMBOL} \<and> sint (of_le32 (take 4 p)) = int (length p) - 4 \<or>
        t = BSON_DBPOINTER \<and> sint (of_le32 (take 4 p)) = int (length p) - 16 \<or>
        t = BSON_CODEWS \<and> sint (of_le32 (take 4 p)) = int (length p)))"

fun value_ok :: "bval \<Rightarrow> bool" and elems_ok :: "bool \<Rightarrow> (bytes \<times> bval) list \<Rightarrow> bool" where
  "value_ok (BDoc es) = elems_ok False es"
| "value_ok (BArr es) = elems_ok True es"
| "value_ok (BEmbed p) = False"
| "value_ok (BBinary p) = (p \<noteq> [])"
| "value_ok (BRegex r q) = (0 \<notin> set r \<and> 0 \<notin> set q)"
| "value_ok (BEmpty t) = (t \<in> {BSON_MINKEY, BSON_MAXKEY, BSON_NULL})"
| "value_ok (BRaw t p) = raw_ok t p"
| "value_ok _ = True"
| "elems_ok array [] = True"
| "elems_ok array ((k, v) # es) =
     (0 \<notin> set k \<and> (array \<longrightarrow> strtol k \<noteq> 2 ^ 63 - 1) \<and> value_ok v \<and> elems_ok array es)"

fun value_depth :: "bval \<Rightarrow> nat" and elems_depth :: "(bytes \<times> bval) list \<Rightarrow> nat" where
  "value_depth (BDoc es) = Suc (elems_depth es)"
| "value_depth (BArr es) = Suc (elems_depth es)"
| "value_depth _ = 0"
| "elems_depth [] = 0"
| "elems_depth ((k, v) # es) = max (value_depth v) (elems_depth es)"

section \<open>Decoding what a document encodes\<close>

text \<open>The branches of \<open>unpack_scalar\<close>, one equation per type.\<close>

lemmas unpack_scalar_simps =
  unpack_scalar_def [where bt = BSON_REAL, simplified]
  unpack_scalar_def [where bt = BSON_STRING, simplified]
  unpack_scalar_def [where bt = BSON_BINARY, simplified]
  unpack_scalar_def [where bt = BSON_OBJECTID, simplified]
  unpack_scalar_def [where bt = BSON_BOOLEAN, simplified]
  unpack_scalar_def [where bt = BSON_DATE, simplified]
  unpack_scalar_def [where bt = BSON_NULL, simplified]
  unpack_scalar_def [where bt = BSON_MINKEY, simplified]
  unpack_scalar_def [where bt = BSON_MAXKEY, simplified]
  unpack_scalar_def [where bt = BSON_REGEX, simplified]
  unpack_scalar_def [where bt = BSON_DBPOINTER, simplified]
  unpack_scalar_def [where bt = BSON_JSCODE, simplified]
  unpack_scalar_def [where bt = BSON_SYMBOL, simplified]
  unpack_scalar_def [where bt = BSON_CODEWS, simplified]
  unpack_scalar_def [where bt = BSON_INT32, simplified]
  unpack_scalar_def [where bt = BSON_TIMESTAMP, simplified]
  unpack_scalar_def [where bt = BSON_INT64, simplified]

lemma raw_at:
  assumes "bytes_at m br p" and "4 \<le> length p"
  shows "read_int32 m br = Inr (sint (of_le32 (take 4 p)), skip br 4)"
    and "bytes_at m (skip br 4) (drop 4 p)"
proof -
  have p: "p = le32 (of_le32 (take 4 p)) @ drop 4 p"
    using assms(2) by simp
  have *: "bytes_at m br (le32 (of_le32 (take 4 p)) @ drop 4 p)"
    using assms(1) p by metis
  show "read_int32 m br = Inr (sint (of_le32 (take 4 p)), skip br 4)"
    using * by (intro read_int32_at) (simp only: bytes_at_append)
  show "bytes_at m (skip br 4) (drop 4 p)"
    using * by (simp only: bytes_at_append length_le32)
qed

lemma length_sint32:
  "int n \<le> INT_MAX \<Longrightarrow> sint (word_of_nat n :: 32 word) = int n"
  using sint32_of_int [of "int n"] by simp

lemma raw_decodes:
  assumes "raw_ok t p" and "bytes_at m br p"
  shows "unpack_scalar m t br = Inr (LStr ([0, t] @ p), skip br (length p))"
proof (cases "t = BSON_OBJECTID")
  case True
  then have "length p = 12" using assms(1) by (auto simp: raw_ok_def)
  then show ?thesis
    using True assms(2) by (simp add: unpack_scalar_simps read_bytes_at [OF assms(2)] bytes_at_slice make_object_def)
next
  case False
  then have l4: "4 \<le> length p" using assms(1) by (auto simp: raw_ok_def)
  note r = raw_at [OF assms(2) l4]
  have len: "int (length p) \<le> INT_MAX" using bytes_at_size [OF assms(2)] by simp
  have d: "read_bytes (skip br 4) (int (length p) - 4) = Inr (r_pos br + 4, skip br (length p))"
    using read_bytes_at [OF r(2)] l4 by simp
  have s: "slice m (r_pos br) (int (length p)) = Inr p"
    using bytes_at_slice [OF assms(2)] by simp
  consider "t \<in> {BSON_JSCODE, BSON_SYMBOL}" "sint (of_le32 (take 4 p)) = int (length p) - 4"
    | "t = BSON_DBPOINTER" "sint (of_le32 (take 4 p)) = int (length p) - 16"
    | "t = BSON_CODEWS" "sint (of_le32 (take 4 p)) = int (length p)"
    using assms(1) False by (auto simp: raw_ok_def)
  then show ?thesis
    by cases (use len in \<open>auto simp: unpack_scalar_simps r(1) d s make_object_def\<close>)
qed

lemma string_decodes:
  assumes "bytes_at m br (payload (BString s))"
  shows "unpack_scalar m BSON_STRING br = Inr (LStr s, skip br (length s + 5))"
proof -
  have a: "bytes_at m br (le32 (of_nat (length s + 1)))" "bytes_at m (skip br 4) (s @ [0])"
      "bytes_at m (skip br 4) s"
    using assms by (simp_all add: bytes_at_append)
  have "int (length s + 1) \<le> INT_MAX" using bytes_at_size [OF assms] by simp
  then have "sint (word_of_nat (length s + 1) :: 32 word) = int (length s) + 1"
    by (subst length_sint32) auto
  then show ?thesis
    using read_int32_at [OF a(1)] read_bytes_at [OF a(2)] bytes_at_slice [OF a(3)]
    by (simp add: unpack_scalar_simps add.commute)
qed

lemma binary_decodes:
  assumes "bytes_at m br (payload (BBinary p))" and "p \<noteq> []"
  shows "unpack_scalar m BSON_BINARY br = Inr (LStr ([0, BSON_BINARY] @ p), skip br (length p + 4))"
proof -
  obtain x q where p: "p = x # q" using assms(2) by (cases p) auto
  have "bytes_at m br (le32 (of_nat (length q)) @ [x] @ q)"
    using assms(1) by (simp add: p)
  then have a: "bytes_at m br (le32 (of_nat (length q)))" "bytes_at m (skip br 4) [x]"
      "bytes_at m (skip br 5) q"
    by (simp_all add: bytes_at_append [of _ _ "[x]" q, simplified] bytes_at_append)
  have "int (length q) \<le> INT_MAX" using bytes_at_size [OF assms(1)] by (simp add: p)
  then have "sint (word_of_nat (length q) :: 32 word) = int (length q)"
    by (rule length_sint32)
  then show ?thesis
    using read_int32_at [OF a(1)] read_byte_at [OF a(2)] read_bytes_at [OF a(3)] bytes_at_slice [OF a(3)]
    by (simp add: unpack_scalar_simps p add.commute)
qed

lemma regex_decodes:
  assumes "bytes_at m br (payload (BRegex r q))" and "0 \<notin> set r" and "0 \<notin> set q"
  shows "unpack_scalar m BSON_REGEX br =
    Inr (LStr ([0, BSON_REGEX] @ r @ [0] @ q @ [0]), skip br (length r + length q + 2))"
proof -
  have "bytes_at m br ((r @ [0]) @ (q @ [0]))" using assms(1) by simp
  then have a: "bytes_at m br (r @ [0])" "bytes_at m (skip br (length r + 1)) (q @ [0])"
    by (simp_all only: bytes_at_append) (simp_all add: bytes_at_append)
  show ?thesis
    using read_cstring_at [OF a(1) assms(2)] read_cstring_at [OF a(2) assms(3)]
    by (simp add: unpack_scalar_simps add.commute add.left_commute)
qed

lemma timestamp_decodes:
  assumes "bytes_at m br (payload (BTimestamp i t))"
  shows "unpack_scalar m BSON_TIMESTAMP br =
    Inr (LStr ([0, BSON_TIMESTAMP] @ le32 i @ le32 t), skip br 8)"
proof -
  have a: "bytes_at m br (le32 i)" "bytes_at m (skip br 4) (le32 t)"
    using assms by (simp_all add: bytes_at_append)
  then show ?thesis by (simp add: unpack_scalar_simps reads)
qed

text \<open>One element value: the induction hypothesis of the round trip, and its base cases.\<close>

definition decodes :: "bytes \<Rightarrow> nat \<Rightarrow> bval \<Rightarrow> bool" where
  "decodes m lvl v \<longleftrightarrow> (\<forall>fuel br. bytes_at m br (payload v) \<longrightarrow> length (payload v) < fuel \<longrightarrow>
     unpack_value fuel m lvl (tag v) br = Inr (bson_to_lua v, skip br (length (payload v))))"

lemma scalar_decodes:
  assumes "value_ok v" and "\<And>es. v \<noteq> BDoc es" and "\<And>es. v \<noteq> BArr es"
  shows "decodes m lvl v"
proof -
  have "unpack_scalar m (tag v) br = Inr (x, skip br (length (payload v)))"
    if "bytes_at m br (payload v)" and "bson_to_lua v = DVal x" for br x
  proof (cases v)
    case (BString s)
    then show ?thesis using that string_decodes [of m br s] by (simp add: add.commute)
  next
    case (BBinary p)
    then show ?thesis using that assms(1) binary_decodes [of m br p] by (simp add: add.commute)
  next
    case (BTimestamp i t)
    then show ?thesis using that timestamp_decodes [of m br i t] by simp
  next
    case (BRegex r q)
    then show ?thesis using that assms(1) regex_decodes [of m br r q] by simp
  next
    case (BRaw t p)
    then show ?thesis using that assms(1) raw_decodes [of t p m br] by simp
  qed (use that assms in \<open>auto simp: reads unpack_scalar_simps make_object_def\<close>)
  moreover have "\<exists>x. bson_to_lua v = DVal x" using assms by (cases v) auto
  moreover have "tag v \<noteq> BSON_DOCUMENT" "tag v \<noteq> BSON_ARRAY"
    using assms by (cases v; auto simp: raw_ok_def)+
  ultimately show ?thesis
    by (auto simp: decodes_def unpack_value.simps)
qed

definition loop_decodes :: "bytes \<Rightarrow> nat \<Rightarrow> bool \<Rightarrow> (bytes \<times> bval) list \<Rightarrow> bool" where
  "loop_decodes m lvl array es \<longleftrightarrow> (\<forall>fuel t tab. bytes_at m t (elems es) \<longrightarrow>
     r_size t = int (length (elems es)) \<longrightarrow> length (elems es) < fuel \<longrightarrow>
     unpack_loop fuel m lvl array t tab = Inr (fields_to_lua array es tab))"

lemma frame_decodes:
  assumes "loop_decodes m lvl array es" and at: "bytes_at m br (doc_bytes es)"
    and "length (doc_bytes es) < fuel"
  shows "unpack_dict fuel m (Suc lvl) array br =
    Inr (DTab (fields_to_lua array es []), skip br (length (doc_bytes es)))"
proof -
  obtain fuel' where fuel: "fuel = Suc fuel'" using assms(3) by (cases fuel) auto
  let ?n = "length (elems es)"
  let ?t = "\<lparr>r_pos = r_pos br + 4, r_size = int ?n\<rparr>"
  have a: "bytes_at m br (le32 (of_nat (?n + 5)))" "bytes_at m (skip br 4) (elems es)"
      "bytes_at m (skip br (?n + 4)) [0]"
    using at by (simp_all add: doc_bytes_def doc_frame_def bytes_at_append add.commute)
  have "int (?n + 5) \<le> INT_MAX" using bytes_at_size [OF at] by (simp add: length_doc_bytes)
  then have sz: "sint (word_of_nat (?n + 5) :: 32 word) = int (?n + 5)" by (rule length_sint32)
  have "bytes_at m ?t (elems es)"
    using a(2) bytes_at_size [OF a(2)] by (simp add: bytes_at_def)
  then have "unpack_loop fuel' m lvl array ?t [] = Inr (fields_to_lua array es [])"
    using assms fuel by (simp add: loop_decodes_def length_doc_bytes)
  moreover have "(c_int (int ?n) :: (bson_error, int) res) = Inr (int ?n)" using \<open>int (?n + 5) \<le> INT_MAX\<close> by simp
  ultimately show ?thesis
    using read_int32_at [OF a(1)] read_bytes_at [OF a(2)] read_byte_at [OF a(3)]
    unfolding sz by (simp add: fuel unpack_dict.simps length_doc_bytes add.commute)
qed

lemma element_key_decoded:
  "(array \<longrightarrow> strtol k \<noteq> 2 ^ 63 - 1) \<Longrightarrow> decoded_key array k = Inr (element_key array k)"
  by (auto simp: decoded_key_def element_key_def)

lemma unpack_element:
  assumes v: "decodes m lvl v" and at: "bytes_at m t (elems ((k, v) # es))" and fuel: "length (payload v) < fuel"
    and k: "0 \<notin> set k" "array \<longrightarrow> strtol k \<noteq> 2 ^ 63 - 1"
  shows "unpack_loop (Suc fuel) m lvl array t tab =
      unpack_loop fuel m lvl array (skip t (length (element k v))) (rawset (element_key array k) (bson_to_lua v) tab)"
    and "bytes_at m (skip t (length (element k v))) (elems es)"
proof -
  let ?t1 = "skip t (length k + 2)" and ?t2 = "skip t (length k + 2 + length (payload v))"
  have "bytes_at m t ([tag v] @ (k @ [0]) @ payload v @ elems es)" using at by simp
  then have a: "bytes_at m t [tag v]" "bytes_at m (skip t 1) ((k @ [0]) @ payload v @ elems es)"
    unfolding bytes_at_append [of m t "[tag v]"] by simp_all
  then have b: "bytes_at m (skip t 1) (k @ [0])" "bytes_at m ?t1 (payload v @ elems es)"
    unfolding bytes_at_append [of m "skip t 1" "k @ [0]"] by (simp_all add: add.commute)
  then have c: "bytes_at m ?t1 (payload v)" "bytes_at m ?t2 (elems es)"
    unfolding bytes_at_append [of m ?t1 "payload v"] by simp_all
  have l: "length (element k v) = length k + 2 + length (payload v)" by (simp add: element_def)
  show "bytes_at m (skip t (length (element k v))) (elems es)" unfolding l by (rule c(2))
  have "unpack_value fuel m lvl (tag v) ?t1 = Inr (bson_to_lua v, ?t2)"
    using v c(1) fuel by (simp add: decodes_def)
  then show "unpack_loop (Suc fuel) m lvl array t tab =
      unpack_loop fuel m lvl array (skip t (length (element k v))) (rawset (element_key array k) (bson_to_lua v) tab)"
    using read_byte_at [OF a(1)] read_cstring_at [OF b(1) k(1)] element_key_decoded [OF k(2)] bytes_at_size [OF a(1)] l
    by (subst unpack_loop.simps) simp
qed

lemma loop_decodes_Cons:
  assumes v: "decodes m lvl v" and es: "loop_decodes m lvl array es"
    and k: "0 \<notin> set k" "array \<longrightarrow> strtol k \<noteq> 2 ^ 63 - 1"
  shows "loop_decodes m lvl array ((k, v) # es)"
  unfolding loop_decodes_def
proof (intro allI impI)
  fix fuel t tab
  assume at: "bytes_at m t (elems ((k, v) # es))"
    and sz: "r_size t = int (length (elems ((k, v) # es)))"
    and fuel: "length (elems ((k, v) # es)) < fuel"
  obtain fuel' where f: "fuel = Suc fuel'" using fuel by (cases fuel) auto
  have "length (payload v) < fuel'" using fuel f by simp
  note step = unpack_element [OF v at this k]
  have "unpack_loop fuel' m lvl array (skip t (length (element k v))) tab' = Inr (fields_to_lua array es tab')" for tab'
    using es step(2) sz fuel f by (simp add: loop_decodes_def element_def)
  then show "unpack_loop fuel m lvl array t tab = Inr (fields_to_lua array ((k, v) # es) tab)"
    using step(1) f by simp
qed

lemma document_decodes:
  "value_ok v \<Longrightarrow> value_depth v \<le> lvl \<Longrightarrow> decodes m lvl v"
  "elems_ok array es \<Longrightarrow> elems_depth es \<le> lvl \<Longrightarrow> loop_decodes m lvl array es"
proof (induction v and es arbitrary: lvl and array lvl rule: payload_elems.induct)
  case (3 es)
  then obtain lvl' where "lvl = Suc lvl'" "elems_depth es \<le> lvl'" by (cases lvl) auto
  then show ?case
    using "3.IH" [of False lvl'] "3.prems" frame_decodes [of m lvl' False es]
    by (auto simp: decodes_def unpack_value.simps doc_bytes_def)
next
  case (4 es)
  then obtain lvl' where "lvl = Suc lvl'" "elems_depth es \<le> lvl'" by (cases lvl) auto
  then show ?case
    using "4.IH" [of True lvl'] "4.prems" frame_decodes [of m lvl' True es]
    by (auto simp: decodes_def unpack_value.simps doc_bytes_def)
next
  case 15
  then show ?case by (auto simp: loop_decodes_def unpack_loop.simps split: nat.splits)
next
  case (16 k v es)
  then show ?case by (auto intro!: loop_decodes_Cons)
qed (auto intro!: scalar_decodes)

text \<open>The loop over the elements \<open>es\<close> when others follow.\<close>

lemma loop_reads:
  "elems_ok array es \<Longrightarrow> elems_depth es \<le> lvl \<Longrightarrow> bytes_at m t (elems es) \<Longrightarrow> length (elems es) < fuel \<Longrightarrow>
   \<exists>fuel'. fuel \<le> fuel' + length (elems es) \<and> unpack_loop fuel m lvl array t tab =
     unpack_loop fuel' m lvl array (skip t (length (elems es))) (fields_to_lua array es tab)"
proof (induction es arbitrary: t fuel tab)
  case Nil
  then show ?case by (intro exI [of _ fuel]) simp
next
  case (Cons e es)
  obtain k v where e: "e = (k, v)" by (cases e)
  obtain f where f: "fuel = Suc f" using Cons.prems(4) by (cases fuel) auto
  have ok: "0 \<notin> set k" "array \<longrightarrow> strtol k \<noteq> 2 ^ 63 - 1" "value_ok v" "elems_ok array es" "value_depth v \<le> lvl" "elems_depth es \<le> lvl"
    using Cons.prems(1,2) by (auto simp: e)
  have len: "length (payload v) < f" "length (elems es) < f" "length (element k v) \<ge> 1"
    using Cons.prems(4) f by (simp_all add: e element_def)
  note step = unpack_element [OF document_decodes(1) [OF ok(3,5)] Cons.prems(3) [unfolded e] len(1) ok(1,2)]
  obtain fuel' where "f \<le> fuel' + length (elems es)"
    "unpack_loop f m lvl array (skip t (length (element k v))) (rawset (element_key array k) (bson_to_lua v) tab) =
      unpack_loop fuel' m lvl array (skip (skip t (length (element k v))) (length (elems es)))
        (fields_to_lua array es (rawset (element_key array k) (bson_to_lua v) tab))"
    using Cons.IH [OF ok(4,6) step(2) len(2)] by blast
  moreover have l: "length (elems (e # es)) = length (element k v) + length (elems es)" by (simp add: e element_def)
  ultimately show ?case unfolding l using step(1) f len(3) by (intro exI [of _ fuel']) (simp add: e)
qed

end
