(* ===== verification/Bson_Decode_Safe.thy ===== *)
theory Bson_Decode_Safe
  imports Bson_Decode
begin

text \<open>
  What the decoder does on any input whatever: it always ends, and it can leave the memory block
  only through a length field with the sign bit set.
\<close>

section \<open>Termination on every input\<close>

text \<open>Readers never grow on the way through a value; every element consumes at least two bytes.\<close>

definition shrinks :: "reader \<Rightarrow> int \<Rightarrow> reader \<Rightarrow> bool" where
  "shrinks t n t' \<longleftrightarrow> r_size t' \<le> r_size t - n \<and> n \<le> r_size t"

lemma read_byte_ends: "ends terminating (read_byte m t) (\<lambda>(b, t'). shrinks t 1 t')"
  by (auto simp: ends_def read_byte_def check_reader_def load_def advance_def c_int_def shrinks_def
      split: sum.splits)

lemma read_uint32_ends: "ends terminating (read_uint32 m t) (\<lambda>(b, t'). shrinks t 4 t')"
  by (auto simp: ends_def read_uint32_def check_reader_def slice_def advance_def c_int_def shrinks_def
      split: sum.splits)

lemma read_int32_ends: "ends terminating (read_int32 m t) (\<lambda>(b, t'). shrinks t 4 t')"
  unfolding read_int32_def by (rule ends_rbind [OF read_uint32_ends]) auto

lemma read_int64_ends: "ends terminating (read_int64 m t) (\<lambda>(b, t'). shrinks t 8 t')"
  by (auto simp: ends_def read_int64_def check_reader_def slice_def advance_def c_int_def shrinks_def
      split: sum.splits)

lemma read_double_ends: "ends terminating (read_double m t) (\<lambda>(b, t'). shrinks t 8 t')"
  by (auto simp: ends_def read_double_def check_reader_def slice_def advance_def c_int_def shrinks_def
      split: sum.splits)

lemma read_bytes_ends:
  "ends terminating (read_bytes t n) (\<lambda>(p, t'). r_size t' = r_size t - n \<and> n \<le> r_size t)"
  by (auto simp: ends_def read_bytes_def check_reader_def advance_def c_int_def split: sum.splits)

lemma slice_ends: "ends terminating (slice m i n) (\<lambda>s. 0 \<le> n)"
  by (auto simp: slice_def)

lemma c_int_ends: "ends terminating (c_int x) (\<lambda>y. y = x)"
  by (auto simp: c_int_def)

lemma scan_cstring_ends: "ends terminating (scan_cstring m pos sz i) (\<lambda>j. i \<le> j)"
proof (induction m pos sz i rule: scan_cstring.induct)
  case (1 m pos sz i)
  have "ends terminating (scan_cstring m pos sz (i + 1)) (\<lambda>j. i \<le> j)"
    if "i \<noteq> sz" "load m (pos + i) = Inr b" "b \<noteq> 0" for b
    using 1 [OF that] by (rule ends_mono) auto
  then show ?case
    by (subst scan_cstring.simps) (auto simp: load_def)
qed

lemma read_cstring_ends: "ends terminating (read_cstring m t) (\<lambda>(s, t'). r_size t' \<le> r_size t - 1)"
  unfolding read_cstring_def
  by (rule ends_rbind [OF scan_cstring_ends], rule ends_rbind [OF slice_ends])
     (auto simp: ends_def advance_def c_int_def split: sum.splits)

lemmas read_ends = read_byte_ends read_uint32_ends read_int32_ends read_int64_ends read_double_ends
  read_bytes_ends read_cstring_ends slice_ends c_int_ends

lemma unpack_scalar_ends:
  "ends terminating (unpack_scalar m bt t) (\<lambda>(v, t'). r_size t' \<le> r_size t)"
  unfolding unpack_scalar_def
  by (auto simp: shrinks_def intro!: ends_rbind [OF read_byte_ends] ends_rbind [OF read_uint32_ends]
    ends_rbind [OF read_int32_ends] ends_rbind [OF read_int64_ends] ends_rbind [OF read_double_ends]
    ends_rbind [OF read_bytes_ends] ends_rbind [OF read_cstring_ends] ends_rbind [OF slice_ends]
    ends_rbind [OF c_int_ends])

lemma unpack_value_ends:
  assumes "\<And>array. ends terminating (unpack_dict fuel m lvl array t) (\<lambda>(v, t'). r_size t' \<le> r_size t)"
  shows "ends terminating (unpack_value fuel m lvl bt t) (\<lambda>(v, t'). r_size t' \<le> r_size t)"
  using assms by (auto simp: unpack_value.simps intro!: ends_rbind [OF unpack_scalar_ends])

lemma decoded_key_ends: "ends terminating (decoded_key array key) (\<lambda>_. True)"
  by (simp add: decoded_key_def)

lemma unpack_dict_ends_step:
  assumes "\<And>l p n. nat n < f \<Longrightarrow>
    ends terminating (unpack_loop f m l array \<lparr>r_pos = p, r_size = n\<rparr> []) (\<lambda>_. 0 \<le> n)"
    and "nat (r_size br) < Suc f"
  shows "ends terminating (unpack_dict (Suc f) m lvl array br) (\<lambda>(v, br'). r_size br' \<le> r_size br)"
proof (cases lvl)
  case (Suc l)
  then show ?thesis
    using assms(2) by (subst unpack_dict.simps)
      (auto simp: shrinks_def intro!: ends_rbind [OF read_int32_ends] ends_rbind [OF c_int_ends]
        ends_rbind [OF read_bytes_ends] ends_rbind [OF read_byte_ends] ends_rbind [OF assms(1)])
qed (simp add: unpack_dict.simps)

lemma unpack_loop_ends_step:
  assumes v: "\<And>bt t. nat (r_size t) < f \<Longrightarrow>
      ends terminating (unpack_value f m lvl bt t) (\<lambda>(v, t'). r_size t' \<le> r_size t)"
    and l: "\<And>t tab. nat (r_size t) < f \<Longrightarrow>
      ends terminating (unpack_loop f m lvl array t tab) (\<lambda>_. 0 \<le> r_size t)"
    and sz: "nat (r_size t) < Suc f"
  shows "ends terminating (unpack_loop (Suc f) m lvl array t tab) (\<lambda>_. 0 \<le> r_size t)"
proof -
  have "ends terminating (unpack_loop (Suc f) m lvl array t tab) (\<lambda>_. True)"
    using sz by (subst unpack_loop.simps)
      (auto simp: shrinks_def intro!: ends_rbind [OF read_byte_ends] ends_rbind [OF read_cstring_ends]
        ends_rbind [OF decoded_key_ends] ends_rbind [OF v] ends_mono [OF l])
  moreover have "0 \<le> r_size t" if "unpack_loop (Suc f) m lvl array t tab = Inr x" for x
    using that by (auto simp: unpack_loop.simps read_byte_def check_reader_def res_simps split: if_splits)
  ultimately show ?thesis by (cases "unpack_loop (Suc f) m lvl array t tab") auto
qed

lemma unpack_ends:
  "(\<forall>lvl array br. nat (r_size br) < fuel \<longrightarrow>
      ends terminating (unpack_dict fuel m lvl array br) (\<lambda>(v, br'). r_size br' \<le> r_size br)) \<and>
   (\<forall>lvl array t tab. nat (r_size t) < fuel \<longrightarrow>
      ends terminating (unpack_loop fuel m lvl array t tab) (\<lambda>_. 0 \<le> r_size t))"
proof (induction fuel)
  case (Suc f)
  have d: "ends terminating (unpack_dict f m lvl array t) (\<lambda>(v, t'). r_size t' \<le> r_size t)"
    if "nat (r_size t) < f" for lvl array t
    using Suc.IH that by blast
  have l: "ends terminating (unpack_loop f m lvl array t tab) (\<lambda>_. 0 \<le> r_size t)"
    if "nat (r_size t) < f" for lvl array t tab
    using Suc.IH that by blast
  have l': "ends terminating (unpack_loop f m lvl array \<lparr>r_pos = p, r_size = n\<rparr> []) (\<lambda>_. 0 \<le> n)"
    if "nat n < f" for lvl array p n
    using l [of "\<lparr>r_pos = p, r_size = n\<rparr>"] that by simp
  show ?case
    using unpack_dict_ends_step [OF l'] unpack_loop_ends_step [OF unpack_value_ends [OF d] l] by blast
qed simp

lemmas unpack_dict_ends = unpack_ends [THEN conjunct1, rule_format]

lemma ldecode_ends: "ends terminating (ldecode lvl arg) (\<lambda>_. True)"
proof (cases arg)
  case (Some mp)
  obtain m p where mp: "mp = (m, p)" by (cases mp)
  have "ends terminating (get_length m (int p)) (\<lambda>_. True)"
    unfolding get_length_def by (auto intro!: ends_rbind [OF slice_ends])
  moreover have "ends terminating (unpack_dict (nat x + 1) m lvl False \<lparr>r_pos = int p, r_size = x\<rparr>) (\<lambda>_. True)"
    for x
    by (rule ends_mono [OF unpack_dict_ends]) auto
  ultimately show ?thesis
    unfolding ldecode_def Some mp by (auto intro!: ends_rbind [where P = "\<lambda>_. True"])
qed (simp add: ldecode_def)

section \<open>Memory safety\<close>

text \<open>
  The accesses the decoder makes are bounded by its own counters. What can push it out of the
  block is a length that is negative as an \<open>int32\<close>: \<open>check_reader\<close> lets it pass, the pointer moves
  backwards, and as a \<open>size_t\<close> it is enormous. Without such a value in the block no input leads
  the decoder outside.
\<close>

fun memory_safe :: "'e err \<Rightarrow> bool" where
  "memory_safe (UB f) = (f \<notin> {OutOfBounds, UninitRead, NullDeref})"
| "memory_safe (Raise e) = True"

definition int_at :: "bytes \<Rightarrow> nat \<Rightarrow> int" where
  "int_at m i = sint (of_le32 (take 4 (drop i m)))"

definition no_negative_int :: "bytes \<Rightarrow> bool" where
  "no_negative_int m \<longleftrightarrow> (\<forall>i \<in> set [0..<length m]. 0 \<le> int_at m i)"

definition inside :: "bytes \<Rightarrow> reader \<Rightarrow> bool" where
  "inside m t \<longleftrightarrow> 0 \<le> r_pos t \<and> 0 \<le> r_size t \<and> r_pos t + r_size t \<le> int (length m)"

lemma read_byte_safe:
  "inside m t \<Longrightarrow> ends memory_safe (read_byte m t) (\<lambda>(b, t'). inside m t' \<and> 1 \<le> r_pos t')"
  by (auto simp: ends_def read_byte_def check_reader_def load_def advance_def c_int_def inside_def
      split: sum.splits)

lemma read_uint32_safe:
  "inside m t \<Longrightarrow> ends memory_safe (read_uint32 m t)
     (\<lambda>(v, t'). inside m t' \<and> t' = skip t 4 \<and> 4 \<le> r_size t \<and> sint v = int_at m (nat (r_pos t)))"
  by (auto simp: ends_def read_uint32_def check_reader_def slice_def advance_def c_int_def inside_def
      skip_def int_at_def split: sum.splits)

lemma read_int32_safe:
  assumes "inside m t" and "no_negative_int m"
  shows "ends memory_safe (read_int32 m t)
     (\<lambda>(v, t'). inside m t' \<and> t' = skip t 4 \<and> 4 \<le> r_size t \<and> 0 \<le> v \<and> v = int_at m (nat (r_pos t)))"
  unfolding read_int32_def
  by (rule ends_rbind [OF read_uint32_safe [OF assms(1)]])
     (use assms in \<open>auto simp: no_negative_int_def inside_def\<close>)

lemma read_int64_safe:
  "inside m t \<Longrightarrow> ends memory_safe (read_int64 m t) (\<lambda>(v, t'). inside m t')"
  by (auto simp: ends_def read_int64_def check_reader_def slice_def advance_def c_int_def inside_def
      split: sum.splits)

lemma read_double_safe:
  "inside m t \<Longrightarrow> ends memory_safe (read_double m t) (\<lambda>(v, t'). inside m t')"
  by (auto simp: ends_def read_double_def check_reader_def slice_def advance_def c_int_def inside_def
      split: sum.splits)

lemma read_bytes_safe:
  "inside m t \<Longrightarrow> 0 \<le> r_pos t + n \<Longrightarrow> ends memory_safe (read_bytes t n)
     (\<lambda>(p, t'). p = r_pos t \<and> inside m t' \<and> n \<le> r_size t \<and> t' = \<lparr>r_pos = r_pos t + n, r_size = r_size t - n\<rparr>)"
  by (auto simp: ends_def read_bytes_def check_reader_def advance_def c_int_def inside_def
      split: sum.splits)

lemma slice_safe:
  "0 \<le> n \<Longrightarrow> 0 \<le> i \<Longrightarrow> i + n \<le> int (length m) \<Longrightarrow> ends memory_safe (slice m i n) (\<lambda>_. True)"
  by (simp add: slice_def)

lemma c_int_safe: "ends memory_safe (c_int x) (\<lambda>y. y = x)"
  by (simp add: c_int_def)

lemma scan_cstring_safe:
  "0 \<le> pos \<Longrightarrow> 0 \<le> i \<Longrightarrow> i \<le> sz \<Longrightarrow> pos + sz \<le> int (length m) \<Longrightarrow>
   ends memory_safe (scan_cstring m pos sz i) (\<lambda>j. 0 \<le> j \<and> j < sz)"
proof (induction m pos sz i rule: scan_cstring.induct)
  case (1 m pos sz i)
  show ?case
    using 1 by (subst scan_cstring.simps) (auto simp: load_def split: sum.splits if_splits)
qed

lemma read_cstring_safe:
  assumes "inside m t"
  shows "ends memory_safe (read_cstring m t) (\<lambda>(s, t'). inside m t' \<and> r_pos t \<le> r_pos t')"
  unfolding read_cstring_def
proof (rule ends_rbind [OF scan_cstring_safe])
  fix i assume "0 \<le> i \<and> i < r_size t"
  then show "ends memory_safe (rbind (slice m (r_pos t) i) (\<lambda>s. rbind (advance t (i + 1)) (\<lambda>br. Inr (s, br))))
     (\<lambda>(s, t'). inside m t' \<and> r_pos t \<le> r_pos t')"
    using assms
    by (auto intro!: ends_rbind [OF slice_safe] simp: inside_def advance_def c_int_def)
qed (use assms in \<open>auto simp: inside_def\<close>)

lemma decoded_key_safe: "ends memory_safe (decoded_key array key) (\<lambda>_. True)"
  by (simp add: decoded_key_def)

lemma unpack_scalar_safe:
  assumes "inside m t" and "no_negative_int m"
  shows "ends memory_safe (unpack_scalar m bt t) (\<lambda>(v, t'). inside m t')"
proof -
  note i32 = read_int32_safe [OF _ assms(2)]
  show ?thesis
    using assms(1) unfolding unpack_scalar_def
    by (auto intro!: ends_rbind [OF read_byte_safe] ends_rbind [OF read_uint32_safe]
      ends_rbind [OF i32] ends_rbind [OF read_int64_safe] ends_rbind [OF read_double_safe]
      ends_rbind [OF read_bytes_safe] ends_rbind [OF read_cstring_safe] ends_rbind [OF slice_safe]
      ends_rbind [OF c_int_safe] simp: inside_def)
qed

definition dict_start :: "bytes \<Rightarrow> reader \<Rightarrow> bool" where
  "dict_start m br \<longleftrightarrow> inside m br \<and> (4 \<le> r_size br \<longrightarrow> 1 \<le> r_pos br + int_at m (nat (r_pos br)))"

lemma inside_dict_start:
  assumes "inside m t" and "1 \<le> r_pos t" and "no_negative_int m"
  shows "dict_start m t"
proof -
  have "1 \<le> r_pos t + int_at m (nat (r_pos t))" if "4 \<le> r_size t"
  proof -
    have "nat (r_pos t) \<in> set [0..<length m]" using assms(1) that by (auto simp: inside_def)
    then have "0 \<le> int_at m (nat (r_pos t))" using assms(3) by (simp only: no_negative_int_def)
    then show ?thesis using assms(2) by linarith
  qed
  then show ?thesis using assms(1) by (simp add: dict_start_def)
qed

lemma unpack_value_safe:
  assumes "inside m t" and "1 \<le> r_pos t" and "no_negative_int m"
    and "\<And>array. dict_start m t \<Longrightarrow> ends memory_safe (unpack_dict fuel m lvl array t) (\<lambda>(v, t'). inside m t')"
  shows "ends memory_safe (unpack_value fuel m lvl bt t) (\<lambda>(v, t'). inside m t')"
  using assms inside_dict_start [OF assms(1,2,3)]
  by (auto simp: unpack_value.simps intro!: ends_rbind [OF unpack_scalar_safe])

lemma unpack_dict_safe_step:
  assumes nn: "no_negative_int m"
    and l: "\<And>l t. r_size t < 0 \<or> inside m t \<Longrightarrow> ends memory_safe (unpack_loop f m l array t []) (\<lambda>_. True)"
    and start: "dict_start m br"
  shows "ends memory_safe (unpack_dict (Suc f) m lvl array br) (\<lambda>(v, br'). inside m br')"
proof (cases lvl)
  case (Suc lv)
  have ins: "inside m br" using start by (simp add: dict_start_def)
  have step: "ends memory_safe (rbind (read_bytes t (sz - 5)) (\<lambda>(p, br). rbind (read_byte m br) (\<lambda>(e, br).
       if e \<noteq> 0 then Inl (Raise InvalidDocumentEnd) else
       rbind (unpack_loop f m lv array \<lparr>r_pos = p, r_size = sz - 5\<rparr> []) (\<lambda>tab. Inr (DTab tab, br)))))
     (\<lambda>(v, br'). inside m br')"
    if t: "inside m t" "t = skip br 4" "4 \<le> r_size br" and sz: "0 \<le> sz" "sz = int_at m (nat (r_pos br))" for t sz
  proof (rule ends_rbind [OF read_bytes_safe [OF t(1)]])
    show "0 \<le> r_pos t + (sz - 5)" using start t sz by (simp add: dict_start_def)
    fix x assume x: "case x of (p, t') \<Rightarrow> p = r_pos t \<and> inside m t' \<and> sz - 5 \<le> r_size t \<and>
      t' = \<lparr>r_pos = r_pos t + (sz - 5), r_size = r_size t - (sz - 5)\<rparr>"
    then have "sz - 5 < 0 \<or> inside m \<lparr>r_pos = r_pos t, r_size = sz - 5\<rparr>"
      using t(1) by (auto simp: inside_def)
    then have "ends memory_safe (unpack_loop f m lv array \<lparr>r_pos = r_pos t, r_size = sz - 5\<rparr> []) (\<lambda>_. True)"
      by (intro l) auto
    then have loop: "ends memory_safe (rbind (unpack_loop f m lv array \<lparr>r_pos = r_pos t, r_size = sz - 5\<rparr> [])
        (\<lambda>tab. Inr (DTab tab, br))) (\<lambda>(v, br'). inside m br')" if "inside m br" for br
      using that by (auto intro!: ends_rbind)
    obtain t' where "x = (r_pos t, t')" "inside m t'" using x by (cases x) auto
    then show "ends memory_safe (case x of (p, br) \<Rightarrow> rbind (read_byte m br) (\<lambda>(e, br).
       if e \<noteq> 0 then Inl (Raise InvalidDocumentEnd) else
       rbind (unpack_loop f m lv array \<lparr>r_pos = p, r_size = sz - 5\<rparr> []) (\<lambda>tab. Inr (DTab tab, br))))
       (\<lambda>(v, br'). inside m br')"
      by (auto intro!: ends_rbind [OF read_byte_safe] loop)
  qed
  show ?thesis
    unfolding Suc
    by (subst unpack_dict.simps, simp, rule ends_rbind [OF read_int32_safe [OF ins nn]])
       (auto intro!: ends_rbind [OF c_int_safe] step)
qed (simp add: unpack_dict.simps)

lemma unpack_loop_safe_step:
  assumes v: "\<And>bt t. inside m t \<Longrightarrow> 1 \<le> r_pos t \<Longrightarrow>
      ends memory_safe (unpack_value f m lvl bt t) (\<lambda>(v, t'). inside m t')"
    and l: "\<And>t tab. inside m t \<Longrightarrow> ends memory_safe (unpack_loop f m lvl array t tab) (\<lambda>_. True)"
    and t: "r_size t < 0 \<or> inside m t"
  shows "ends memory_safe (unpack_loop (Suc f) m lvl array t tab) (\<lambda>_. True)"
proof (cases "r_size t < 0")
  case True
  then show ?thesis by (simp add: unpack_loop.simps read_byte_def check_reader_def)
next
  case False
  with t have ins: "inside m t" by simp
  show ?thesis
    by (subst unpack_loop.simps, simp, intro impI ends_rbind [OF read_byte_safe [OF ins]])
       (auto intro!: ends_rbind [OF read_cstring_safe] ends_rbind [OF decoded_key_safe] ends_rbind [OF v] l)
qed

lemma unpack_safe:
  assumes nn: "no_negative_int m"
  shows "(\<forall>lvl array br. dict_start m br \<longrightarrow>
      ends memory_safe (unpack_dict fuel m lvl array br) (\<lambda>(v, br'). inside m br')) \<and>
   (\<forall>lvl array t tab. (r_size t < 0 \<or> inside m t) \<longrightarrow>
      ends memory_safe (unpack_loop fuel m lvl array t tab) (\<lambda>_. True))"
proof (induction fuel)
  case 0
  then show ?case by (simp add: unpack_dict.simps unpack_loop.simps)
next
  case (Suc f)
  have d: "ends memory_safe (unpack_dict f m lvl array t) (\<lambda>(v, t'). inside m t')"
    if "dict_start m t" for lvl array t
    using Suc.IH that by blast
  have l: "ends memory_safe (unpack_loop f m lvl array t tab) (\<lambda>_. True)"
    if "r_size t < 0 \<or> inside m t" for lvl array t tab
    using Suc.IH that by blast
  have v: "ends memory_safe (unpack_value f m lvl bt t) (\<lambda>(v, t'). inside m t')"
    if "inside m t" "1 \<le> r_pos t" for lvl bt t
    using unpack_value_safe [OF that nn] d by blast
  show ?case
    using unpack_dict_safe_step [OF nn l] unpack_loop_safe_step [OF v l] by blast
qed

lemma ldecode_safe:
  assumes "no_negative_int m" and "p + 4 \<le> length m" and "int p + int_at m p \<le> int (length m)"
  shows "ends memory_safe (ldecode lvl (Some (m, p))) (\<lambda>_. True)"
proof -
  have len: "get_length m (int p) = Inr (int_at m p)"
    using assms(2) by (simp add: get_length_def slice_def int_at_def)
  have "0 \<le> int_at m p" using assms(1,2) by (auto simp: no_negative_int_def)
  then have "dict_start m \<lparr>r_pos = int p, r_size = int_at m p\<rparr>"
    using assms(3) by (auto simp: dict_start_def inside_def)
  then have "ends memory_safe (unpack_dict (nat (int_at m p) + 1) m lvl False \<lparr>r_pos = int p, r_size = int_at m p\<rparr>)
    (\<lambda>(v, br'). inside m br')"
    using unpack_safe [OF assms(1)] by blast
  then show ?thesis unfolding ldecode_def by (auto simp: len intro!: ends_rbind)
qed

end
