(* ===== verification/Bson_Codec.thy ===== *)
theory Bson_Codec
  imports Bson_Encode Bson_Decode_Safe
begin

text \<open>
  The BSON module as its users see it: what \<open>encode\<close> and \<open>decode\<close> promise together. The theory
  collects the round trip of Lua data through the wire format, the treatment of cyclic tables, the
  termination and memory-safety results for \<open>decode\<close>, and the inputs on which the C code leaves
  its contract.
\<close>

section \<open>Strings\<close>

text \<open>
  The strings that survive a round trip: plain ones, and those that start with a zero byte and hold
  a complete value of the subtype named by the second byte, as the constructors of the module
  build them.
\<close>

definition typed_payload_ok :: "byte \<Rightarrow> bytes \<Rightarrow> bool" where
  "typed_payload_ok t p \<longleftrightarrow>
     t = BSON_BINARY \<and> p \<noteq> [] \<or> raw_ok t p \<or> t = BSON_DATE \<and> length p = 4 \<or>
     t = BSON_TIMESTAMP \<and> length p = 8 \<or>
     t = BSON_REGEX \<and> p \<noteq> [] \<and> last p = 0 \<and> length (filter (\<lambda>b. b = 0) p) = 2 \<or>
     t \<in> {BSON_MINKEY, BSON_MAXKEY, BSON_NULL} \<and> p = []"

definition lua_string_ok :: "bytes \<Rightarrow> bool" where
  "lua_string_ok s \<longleftrightarrow> \<not> (1 < length s \<and> s ! 0 = 0) \<or> typed_payload_ok (s ! 1) (drop 2 s)"

lemma c_div_exact: "0 \<le> k \<Longrightarrow> c_div (k * 1000) 1000 = k"
  by (cases "k = 0") (simp_all add: c_div_def sgn_if)

lemma date_seconds_inverse: "date_seconds (ucast w * 1000) = w"
proof -
  have b: "0 \<le> uint w" "uint w < 2 ^ 32" using uint_lt2p [of w] by simp_all
  have "uint (ucast w * 1000 :: 64 word) = uint w * 1000"
    using b by (simp add: uint_word_ariths unsigned_ucast_eq take_bit_eq_mod)
  moreover have "signed_take_bit 63 (uint w * 1000) = uint w * 1000"
  proof (rule signed_take_bit_int_eq_self)
    have "0 \<le> uint w * 1000" by simp
    then show "- (2 ^ 63) \<le> uint w * 1000" by (rule order_trans [rotated]) simp
    show "uint w * 1000 < 2 ^ 63" using b by simp
  qed
  ultimately have "sint (ucast w * 1000 :: 64 word) = uint w * 1000"
    by (simp add: sint_uint)
  then show ?thesis by (simp add: date_seconds_def c_div_exact)
qed

lemma regex_split_ok:
  assumes "p \<noteq> []" and "last p = 0" and "length (filter (\<lambda>b. b = 0) p) = 2"
  shows "\<exists>r q. regex_split p = Inr (BRegex r q) \<and> 0 \<notin> set r \<and> 0 \<notin> set q \<and> p = r @ [0] @ q @ [0]"
proof -
  obtain u where p: "p = u @ [0]" using assms(1,2) by (metis append_butlast_last_id)
  then have one: "length (filter (\<lambda>b. b = 0) u) = 1" using assms(3) by simp
  then have "filter (\<lambda>b. b = 0) u \<noteq> []" by auto
  then have "0 \<in> set u" by (auto simp: filter_empty_conv)
  then obtain r q where u: "u = r @ 0 # q" "0 \<notin> set q" by (meson split_list_last)
  then have "0 \<notin> set r" using one by (auto simp: filter_empty_conv)
  moreover have "takeWhile (\<lambda>x. x \<noteq> 0) (rev u) = rev q"
    using u(2) unfolding u(1) by (simp, subst takeWhile_append2) auto
  then have *: "length (takeWhile (\<lambda>x. x \<noteq> 0) (rev u)) = length q" by simp
  have "regex_split (u @ [0]) = Inr (BRegex r q)"
    unfolding regex_split_def butlast_snoc Let_def * using u(1) by simp
  ultimately show ?thesis using u p by auto
qed

lemma string_copies:
  assumes "lua_string_ok s"
  shows "\<exists>x. string_to_bson s = Inr x \<and> value_ok x \<and> bson_to_lua x = DVal (LStr s) \<and> value_depth x = 0"
proof (cases "1 < length s \<and> s ! 0 = 0")
  case False
  then show ?thesis by (auto simp: string_to_bson_def)
next
  case True
  define t p where "t = s ! 1" and "p = drop 2 s"
  have s: "s = 0 # t # p"
    using True unfolding t_def p_def by (cases s; cases "tl s") auto
  have ok: "typed_payload_ok t p"
    using assms True by (simp add: lua_string_ok_def t_def p_def)
  have "\<exists>x. subtype_to_bson t p = Inr x \<and> value_ok x \<and> bson_to_lua x = DVal (LStr s) \<and> value_depth x = 0"
    using ok unfolding typed_payload_ok_def
  proof (elim disjE conjE)
    assume "raw_ok t p"
    then show ?thesis by (auto simp: subtype_to_bson_def raw_ok_def s)
  next
    assume "t = BSON_REGEX" "p \<noteq> []" "last p = 0" "length (filter (\<lambda>b. b = 0) p) = 2"
    then show ?thesis using regex_split_ok [of p] by (auto simp: subtype_to_bson_def s)
  qed (auto simp: subtype_to_bson_def s date_seconds_inverse)
  then show ?thesis using True by (simp add: string_to_bson_def t_def p_def)
qed

section \<open>Lua data that can be copied through BSON\<close>

text \<open>
  A dictionary has string keys without zero bytes, an array integer keys from 1 that fit an \<open>int\<close>.
\<close>

definition key_ok :: "bool \<Rightarrow> lval \<Rightarrow> bool" where
  "key_ok array k = (case k of
     LInt i \<Rightarrow> array \<and> 1 \<le> sint i \<and> sint i \<le> INT_MAX
   | LStr s \<Rightarrow> \<not> array \<and> 0 \<notin> set s
   | _ \<Rightarrow> False)"

text \<open>
  \<open>copies h n v d\<close>: the value \<open>v\<close> nests at most \<open>n\<close> tables and \<open>d\<close> is its copy as a tree.
\<close>

inductive copies :: "heap \<Rightarrow> nat \<Rightarrow> lval \<Rightarrow> dval \<Rightarrow> bool" for h where
  copy_int: "copies h n (LInt i) (DVal (LInt i))"
| copy_num: "copies h n (LNum d) (DVal (LNum d))"
| copy_bool: "copies h n (LBool x) (DVal (LBool x))"
| copy_str: "lua_string_ok s \<Longrightarrow> copies h n (LStr s) (DVal (LStr s))"
| copy_tab: "h a = Some t \<Longrightarrow> is_array t = Inr array \<Longrightarrow> distinct (map fst (t_pairs t)) \<Longrightarrow>
     list_all2 (\<lambda>p q. fst q = fst p \<and> key_ok array (fst p) \<and> copies h n (snd p) (snd q)) (t_pairs t) tab \<Longrightarrow>
     copies h (Suc n) (LTable a) (DTab tab)"

abbreviation copies_fields :: "heap \<Rightarrow> nat \<Rightarrow> bool \<Rightarrow> (lval \<times> lval) list \<Rightarrow> (lval \<times> dval) list \<Rightarrow> bool" where
  "copies_fields h n array ps tab \<equiv>
     list_all2 (\<lambda>p q. fst q = fst p \<and> key_ok array (fst p) \<and> copies h n (snd p) (snd q)) ps tab"

lemma nonneg_word:
  assumes "0 \<le> sint (i :: 'a::len word)"
  shows "uint i = sint i"
proof -
  have "i = word_of_int (sint i)" by simp
  then have "uint i = take_bit LENGTH('a) (sint i)" by (metis uint_word_of_int_eq)
  moreover have "sint i < 2 ^ LENGTH('a)"
    using sint_lt [of i] by (meson diff_le_self less_le_trans one_le_numeral power_increasing)
  ultimately show ?thesis using assms by (simp add: take_bit_int_eq_self)
qed

lemma array_key:
  assumes "1 \<le> sint i" and "sint i \<le> INT_MAX"
  shows "entry_key L True (LInt i) = Inr (utoa (nat (sint i - 1)))"
    and "strtol (utoa (nat (sint i - 1))) = sint i - 1"
    and "element_key True (utoa (nat (sint i - 1))) = LInt i"
proof -
  show *: "strtol (utoa (nat (sint i - 1))) = sint i - 1"
    using assms by (subst strtol_utoa) auto
  then show "element_key True (utoa (nat (sint i - 1))) = LInt i"
    using assms by (simp add: element_key_def)
  have "uint (ucast i :: 32 word) = sint i"
    using assms nonneg_word [of i] by (simp add: unsigned_ucast_eq take_bit_int_eq_self)
  then have "uint (ucast i - 1 :: 32 word) = sint i - 1"
    using assms by (simp add: uint_word_ariths)
  then have "unat (ucast i - 1 :: 32 word) = nat (sint i - 1)" by (metis unat_eq_nat_uint)
  then show "entry_key L True (LInt i) = Inr (utoa (nat (sint i - 1)))"
    by (simp add: entry_key_def bson_numstr_def bson_numstrs_def)
qed

text \<open>What \<open>key_ok\<close> is for: the key is written, read back, and within the decoder's reach.\<close>

lemma key_copies:
  assumes "key_ok array k"
  shows "\<exists>s. entry_key L array k = Inr s \<and> element_key array s = k \<and> 0 \<notin> set s \<and>
    (array \<longrightarrow> strtol s \<noteq> 2 ^ 63 - 1)"
proof (cases k)
  case (LInt i)
  then have "array" "1 \<le> sint i" "sint i \<le> INT_MAX" using assms by (auto simp: key_ok_def)
  then show ?thesis using array_key [of i] utoa_no_nul LInt by auto
next
  case (LStr s)
  then show ?thesis using assms by (auto simp: key_ok_def entry_key_def element_key_def)
qed (use assms in \<open>auto simp: key_ok_def\<close>)

lemma fields_to_lua_fresh:
  "list_all2 (\<lambda>e q. element_key array (fst e) = fst q \<and> bson_to_lua (snd e) = snd q) es tab' \<Longrightarrow>
   distinct (map fst (tab @ tab')) \<Longrightarrow> fields_to_lua array es tab = tab @ tab'"
proof (induction es tab' arbitrary: tab rule: list_all2_induct)
  case (Cons e es q qs)
  obtain k v where e: "e = (k, v)" by (cases e)
  have "element_key array k \<notin> fst ` set tab" using Cons e by auto
  then have "rawset (element_key array k) (bson_to_lua v) tab = tab @ [q]"
    using Cons.hyps e by (cases q) (simp add: rawset_fresh)
  then show ?case using Cons.IH [of "tab @ [q]"] Cons.prems e by simp
qed simp

text \<open>\<open>value_copies\<close> is the induction hypothesis of the round trip.\<close>

definition value_copies :: "lua_env \<Rightarrow> heap \<Rightarrow> nat \<Rightarrow> nat \<Rightarrow> lval \<Rightarrow> dval \<Rightarrow> bool" where
  "value_copies L h depth n v d \<longleftrightarrow>
     (\<exists>x. to_bson L h v depth = Inr x \<and> value_ok x \<and> bson_to_lua x = d \<and> value_depth x \<le> n)"

lemma fields_copy:
  assumes "list_all2 (\<lambda>p q. fst q = fst p \<and> key_ok array (fst p) \<and> value_copies L h depth n (snd p) (snd q)) ps tab"
    and "distinct (map fst ps)"
  shows "\<exists>es. pairs_to_bson L h ps array depth = Inr es \<and> elems_ok array es \<and>
    elems_depth es \<le> n \<and> fields_to_lua array es [] = tab"
proof -
  have "\<exists>es. pairs_to_bson L h ps array depth = Inr es \<and> elems_ok array es \<and> elems_depth es \<le> n \<and>
    list_all2 (\<lambda>e q. element_key array (fst e) = fst q \<and> bson_to_lua (snd e) = snd q) es tab"
    using assms(1)
  proof (induction ps tab rule: list_all2_induct)
    case (Cons p ps q qs)
    obtain k v where p: "p = (k, v)" by (cases p)
    obtain s where s: "entry_key L array k = Inr s" "element_key array s = k" "0 \<notin> set s"
        "array \<longrightarrow> strtol s \<noteq> 2 ^ 63 - 1"
      using key_copies [of array k] Cons.hyps p by auto
    obtain x where "to_bson L h v depth = Inr x" "value_ok x" "bson_to_lua x = snd q" "value_depth x \<le> n"
      using Cons.hyps p by (auto simp: value_copies_def)
    then show ?case using Cons.IH Cons.hyps s p by auto
  qed simp
  moreover have "map fst tab = map fst ps"
    using assms(1) by (induction ps tab rule: list_all2_induct) auto
  ultimately show ?thesis
    using fields_to_lua_fresh [of array _ tab "[]"] assms(2) by auto
qed

lemma narrow_int:
  assumes "is_32bit i"
  shows "scast (ucast i :: 32 word) = i"
proof -
  have "(ucast i :: 32 word) = ucast (word_of_int (sint i) :: 64 word)"
    by (simp add: of_int_sint)
  also have "\<dots> = word_of_int (sint i)" by (rule ucast_down_wi) (simp add: is_down)
  finally have "(ucast i :: 32 word) = word_of_int (sint i)" .
  then have "sint (ucast i :: 32 word) = sint (word_of_int (sint i) :: 32 word)" by (rule arg_cong)
  also have "\<dots> = sint i" using assms by (intro sint32_of_int) (auto simp: is_32bit_def)
  finally have "scast (ucast i :: 32 word) = (word_of_int (sint i) :: 64 word)" by (simp only: scast_eq)
  then show ?thesis by simp
qed

lemma copies_to_bson:
  "copies h n v d \<Longrightarrow> depth + n \<le> MAX_DEPTH \<Longrightarrow> depth + n < stack_levels L \<Longrightarrow> value_copies L h depth n v d"
proof (induction arbitrary: depth rule: copies.induct)
  case (copy_str s n)
  then show ?case using string_copies by (fastforce simp: value_copies_def to_bson.simps)
next
  case (copy_tab a t array n tab)
  have "list_all2 (\<lambda>p q. fst q = fst p \<and> key_ok array (fst p) \<and> value_copies L h (depth + 1) n (snd p) (snd q))
      (t_pairs t) tab"
    by (rule list_all2_mono [OF copy_tab.IH]) (use copy_tab.prems in auto)
  from fields_copy [OF this copy_tab.hyps(3)]
  obtain es where es: "pairs_to_bson L h (t_pairs t) array (depth + 1) = Inr es" "elems_ok array es"
      "elems_depth es \<le> n" "fields_to_lua array es [] = tab"
    by blast
  have "to_bson L h (LTable a) depth = Inr (if array then BArr es else BDoc es)"
    using copy_tab.hyps(1,2) copy_tab.prems es(1) by (simp add: to_bson.simps table_to_bson.simps)
  then show ?case using es by (cases array) (simp_all add: value_copies_def)
next
  case (copy_int n i)
  then show ?case using narrow_int [of i] by (simp add: value_copies_def to_bson.simps)
qed (simp_all add: value_copies_def to_bson.simps)

section \<open>What the entry points return\<close>

text \<open>
  \<open>encodes_as r s\<close>: the outcome \<open>r\<close> of an encoder against the document \<open>s\<close> it has to write. It
  returns exactly the bytes of the document, raises exactly the error of the conversion, and faults
  only for a document of 1 GiB or more, or when the conversion fails as well.
\<close>

definition encodes_as :: "(bson_error, lval) res \<Rightarrow> (bson_error, (bytes \<times> bval) list) res \<Rightarrow> bool" where
  "encodes_as r s = (case r of
     Inr v \<Rightarrow> (case s of Inr es \<Rightarrow> v = LUserdata (doc_bytes es) | Inl e \<Rightarrow> False)
   | Inl (Raise e) \<Rightarrow> s = Inl (Raise e)
   | Inl (UB f) \<Rightarrow> (case s of Inr es \<Rightarrow> buf_limit \<le> int (length (doc_bytes es)) | Inl e \<Rightarrow> True))"

lemma read_out_refines:
  assumes "refines r bson_create (frame_spec s)"
  shows "encodes_as (rbind r (\<lambda>b. rbind (read_out b) (\<lambda>bs. Inr (LUserdata bs)))) s"
proof (cases r)
  case (Inl e)
  then show ?thesis using assms bson_create_ok
    by (cases e; cases s) (auto simp: encodes_as_def refines_iffs frame_spec_def fits_def)
next
  case (Inr b)
  then obtain bs where bs: "frame_spec s = Inr bs" "buf_ok b" "content b = map Some bs"
    using assms bson_create_ok by (auto simp: refines_iffs)
  then have "(read_out b :: (bson_error, bytes) res) = Inr bs" by (auto intro!: read_out_Some simp: buf_ok_def)
  then show ?thesis using Inr bs(1) by (auto simp: encodes_as_def frame_spec_def res_simps)
qed

lemma lencode_encodes:
  "h a = Some t \<Longrightarrow> encodes_as (lencode L h (LTable a)) (table_to_bson L h t False 0)"
  unfolding lencode_def by (simp add: read_out_refines pack_refines(1) bson_create_ok)

lemma encodes_as_small:
  "encodes_as r (Inr es) \<Longrightarrow> int (length (doc_bytes es)) < buf_limit \<Longrightarrow> r = Inr (LUserdata (doc_bytes es))"
  by (auto simp: encodes_as_def split: sum.splits err.splits)

lemma lencode_order_encodes:
  assumes "length args mod 2 = 0"
  shows "encodes_as (lencode_order L h args) (ordered_to_bson L h 0 args)"
proof -
  have "refines (pack_ordered_dict L h bson_create args) bson_create (frame_spec (ordered_to_bson L h 0 args))"
    unfolding pack_ordered_dict_def by (rule frame_refines) (auto intro: pack_ordered_refines bson_create_ok)
  then show ?thesis using assms unfolding lencode_order_def by (simp add: read_out_refines)
qed

lemma ldecode_frame:
  assumes m: "m = pre @ doc_frame body @ post" and n: "int (length body + 5) \<le> INT_MAX"
  shows "ldecode (Suc lvl) (Some (m, length pre)) =
      rbind (unpack_loop (length body + 5) m lvl False \<lparr>r_pos = int (length pre) + 4, r_size = int (length body)\<rparr> [])
        (\<lambda>tab. Inr (Some (DTab tab)))"
    and "bytes_at m \<lparr>r_pos = int (length pre) + 4, r_size = int (length body)\<rparr> body"
proof -
  let ?n = "length body" and ?br = "\<lparr>r_pos = int (length pre), r_size = int (length body + 5)\<rparr>"
  have "bytes_at m ?br (le32 (of_nat (?n + 5)) @ body @ [0])"
    using n by (simp add: bytes_at_def m doc_frame_def)
  then have a: "bytes_at m ?br (le32 (of_nat (?n + 5)))" "bytes_at m (skip ?br 4) body" "bytes_at m (skip ?br (?n + 4)) [0]"
    unfolding bytes_at_append by (simp_all add: add.commute)
  then show "bytes_at m \<lparr>r_pos = int (length pre) + 4, r_size = int (length body)\<rparr> body" using n by (auto simp: bytes_at_def)
  have len: "sint (of_nat (?n + 5) :: 32 word) = int (?n + 5)" using n by (intro length_sint32) simp
  have "get_length m (int (length pre)) = Inr (int (?n + 5))"
    using bytes_at_slice [OF a(1), of 4] len by (simp add: get_length_def)
  moreover have "(c_int (int ?n) :: (bson_error, int) res) = Inr (int ?n)" using n by simp
  moreover have "nat (int ?n + 5) = ?n + 5" by simp
  ultimately show "ldecode (Suc lvl) (Some (m, length pre)) =
      rbind (unpack_loop (length body + 5) m lvl False \<lparr>r_pos = int (length pre) + 4, r_size = int (length body)\<rparr> [])
        (\<lambda>tab. Inr (Some (DTab tab)))"
    using read_int32_at [OF a(1)] read_bytes_at [OF a(2) refl] read_byte_at [OF a(3)] unfolding len
    by (simp add: ldecode_def unpack_dict.simps rbind_assoc add.commute)
qed

lemma ldecode_at:
  assumes "elems_ok False es" and "elems_depth es < lvl" and "int (length (doc_bytes es)) \<le> INT_MAX"
  shows "ldecode lvl (Some (pre @ doc_bytes es @ post, length pre)) =
    Inr (Some (DTab (fields_to_lua False es [])))"
proof -
  obtain lvl' where lvl: "lvl = Suc lvl'" "elems_depth es \<le> lvl'" using assms(2) by (cases lvl) auto
  let ?t = "\<lparr>r_pos = int (length pre) + 4, r_size = int (length (elems es))\<rparr>"
  have m: "pre @ doc_bytes es @ post = pre @ doc_frame (elems es) @ post" by (simp add: doc_bytes_def)
  have n: "int (length (elems es) + 5) \<le> INT_MAX" using assms(3) by (simp add: length_doc_bytes)
  note frame = ldecode_frame(1) [OF m n, of lvl'] ldecode_frame(2) [OF m n]
  have "unpack_loop (length (elems es) + 5) (pre @ doc_bytes es @ post) lvl' False ?t [] = Inr (fields_to_lua False es [])"
    using document_decodes(2) [OF assms(1) lvl(2), of "pre @ doc_bytes es @ post"] frame(2) by (simp add: loop_decodes_def)
  then show ?thesis using frame(1) lvl(1) by simp
qed

lemma lua_copy:
  assumes "copies_fields h n False (t_pairs t) tab" and "distinct (map fst (t_pairs t))" and "n \<le> MAX_DEPTH" and "n < stack_levels L"
  shows "\<exists>es. table_to_bson L h t False 0 = Inr es \<and> elems_ok False es \<and> elems_depth es \<le> n \<and>
    fields_to_lua False es [] = tab"
proof -
  have "list_all2 (\<lambda>p q. fst q = fst p \<and> key_ok False (fst p) \<and> value_copies L h 0 n (snd p) (snd q)) (t_pairs t) tab"
    by (rule list_all2_mono [OF assms(1)]) (use copies_to_bson assms(3,4) in auto)
  from fields_copy [OF this assms(2)] show ?thesis using assms(4) by (simp add: table_to_bson.simps)
qed




section \<open>The promises of encode and decode\<close>

text \<open>
  The tables of the concrete instances below: \<open>{a = 5, b = true, c = {"x", 1.0}}\<close>, a table that
  contains itself, and an environment (none of the instances converts a number to a string).
\<close>

definition demo_heap :: heap where
  "demo_heap a =
     (if a = 0 then Some \<lparr>t_len = 0, t_pairs =
        [(LStr [97], LInt 5), (LStr [98], LBool True), (LStr [99], LTable 1)]\<rparr>
      else if a = 1 then Some \<lparr>t_len = 2, t_pairs =
        [(LInt 1, LStr [120]), (LInt 2, LNum 0x3FF0000000000000)]\<rparr>
      else if a = 2 then Some \<lparr>t_len = 0, t_pairs = [(LStr [115], LTable 2)]\<rparr>
      else None)"

definition demo_env :: lua_env where
  "demo_env = \<lparr>num_str = (\<lambda>_. []), num_int = (\<lambda>_. None), str_int = (\<lambda>_. None),
     int_num = (\<lambda>_. 0), str_num = (\<lambda>_. None), stack_levels = 200\<rparr>"

definition demo_tree :: "(lval \<times> dval) list" where
  "demo_tree = [(LStr [97], DVal (LInt 5)), (LStr [98], DVal (LBool True)),
     (LStr [99], DTab [(LInt 1, DVal (LStr [120])), (LInt 2, DVal (LNum 0x3FF0000000000000))])]"

lemma demo_copies: "copies_fields demo_heap 1 False (t_pairs (the (demo_heap 0))) demo_tree"
proof -
  have "copies demo_heap 1 (LTable 1) (DTab [(LInt 1, DVal (LStr [120])), (LInt 2, DVal (LNum 0x3FF0000000000000))])"
    unfolding One_nat_def
    by (rule copies.intros(5) [where array = True and t = "the (demo_heap 1)"])
       (simp_all add: demo_heap_def is_array_def key_ok_def copies.intros(2) copies.intros(4) lua_string_ok_def)
  then show ?thesis by (auto simp: demo_heap_def demo_tree_def key_ok_def intro: copies.intros)
qed

text \<open>
  C1. Whatever Lua data can be copied through BSON is copied: for a table with distinct string keys
  (free of zero bytes) whose values are numbers, booleans, well-formed strings or tables of the same
  kind nested at most 128 deep, \<open>encode\<close> returns a userdata (when the document stays below 1 GiB),
  and \<open>decode\<close> applied to it returns a tree with the same keys, in the same order, and the same
  values. The Lua stack must admit one nested call per level, for either of them.
\<close>

theorem encode_decode_roundtrip:
  assumes "h a = Some t" and "distinct (map fst (t_pairs t))"
    and "copies_fields h n False (t_pairs t) tab" and "n \<le> MAX_DEPTH" and "n < lvl"
    and "n < stack_levels L"
  shows "\<exists>es. table_to_bson L h t False 0 = Inr es \<and>
    (int (length (doc_bytes es)) < buf_limit \<longrightarrow>
       (\<exists>u. lencode L h (LTable a) = Inr (LUserdata u) \<and> ldecode lvl (Some (u, 0)) = Inr (Some (DTab tab))))"
proof -
  obtain es where es: "table_to_bson L h t False 0 = Inr es" "elems_ok False es" "elems_depth es \<le> n"
      "fields_to_lua False es [] = tab"
    using lua_copy [OF assms(3,2,4,6)] by blast
  have "lencode L h (LTable a) = Inr (LUserdata (doc_bytes es))"
    if "int (length (doc_bytes es)) < buf_limit"
    using lencode_encodes [of h a t L] assms(1) es(1) that by (simp add: encodes_as_small)
  moreover have "ldecode lvl (Some (doc_bytes es, 0)) = Inr (Some (DTab tab))"
    if "int (length (doc_bytes es)) < buf_limit"
    using ldecode_at [of es lvl "[]" "[]"] es that assms(5) by simp
  ultimately show ?thesis using es(1) by blast
qed

theorem encode_decode_roundtrip_witness:
  "\<exists>u. lencode demo_env demo_heap (LTable 0) = Inr (LUserdata u) \<and>
     ldecode 10 (Some (u, 0)) = Inr (Some (DTab demo_tree))"
proof -
  have t: "demo_heap 0 = Some (the (demo_heap 0))" "distinct (map fst (t_pairs (the (demo_heap 0))))"
    by (simp_all add: demo_heap_def)
  obtain es where es: "table_to_bson demo_env demo_heap (the (demo_heap 0)) False 0 = Inr es"
    "int (length (doc_bytes es)) < buf_limit \<longrightarrow> (\<exists>u. lencode demo_env demo_heap (LTable 0) =
       Inr (LUserdata u) \<and> ldecode 10 (Some (u, 0)) = Inr (Some (DTab demo_tree)))"
    using encode_decode_roundtrip [OF t demo_copies, of 10 demo_env] by (auto simp: demo_env_def)
  have "es = [([97], BInt32 5), ([98], BBool True),
      ([99], BArr [([48], BString [120]), ([49], BReal 0x3FF0000000000000)])]"
    using es(1) by (simp add: demo_heap_def demo_env_def table_to_bson.simps to_bson.simps entry_key_def is_32bit_def
      string_to_bson_def is_array_def bson_numstr_def bson_numstrs_def utoa.simps)
  then show ?thesis using es(2) by (simp add: length_doc_bytes)
qed

text \<open>
  C2. \<open>encode\<close> implements the conversion of the abstract specification on every table: it returns
  exactly the bytes of the document \<open>table_to_bson\<close> describes, raises exactly the error of that
  conversion, and reaches undefined behaviour only for documents of 1 GiB and more or where the
  conversion has no result either. In particular no byte of the result is indeterminate.
\<close>

theorem encode_refines_conversion:
  assumes "h a = Some t"
  shows "encodes_as (lencode L h (LTable a)) (table_to_bson L h t False 0)"
  using assms by (rule lencode_encodes)

theorem encode_refines_conversion_witness:
  "encodes_as (lencode demo_env demo_heap (LTable 0))
     (table_to_bson demo_env demo_heap (the (demo_heap 0)) False 0)"
  using encode_refines_conversion [of demo_heap 0 "the (demo_heap 0)" demo_env] by (simp add: demo_heap_def)

text \<open>
  C3. \<open>encode_order\<close> writes the elements in the order of its arguments: its outcome is the document
  \<open>ordered_to_bson\<close> lists, and an odd number of arguments is rejected.
\<close>

theorem encode_order_refines_conversion:
  "if length args mod 2 = 0 then encodes_as (lencode_order L h args) (ordered_to_bson L h 0 args)
   else lencode_order L h args = Inl (Raise InvalidOrderedDict)"
  using lencode_order_encodes by (auto simp: lencode_order_def)



text \<open>
  C5. \<open>decode\<close> ends on every input: for any memory block, any offset and any stack limit, its loops
  and its recursion stop before the fuel does (which is the length field of the document plus one).
\<close>

theorem ldecode_never_diverges: "ldecode lvl arg \<noteq> Inl (UB Diverges)"
  using ldecode_ends [of lvl arg] by (auto simp: ends_def split: sum.splits)

text \<open>
  C6. \<open>decode\<close> stays inside the memory block when no four consecutive bytes of the block read as a
  negative length and the document is at most as long as the rest of the block.
\<close>

theorem ldecode_memory_safe:
  assumes "no_negative_int m" and "p + 4 \<le> length m" and "int p + int_at m p \<le> int (length m)"
  shows "ldecode lvl (Some (m, p)) \<noteq> Inl (UB OutOfBounds)"
  using ldecode_safe [OF assms, of lvl] by (auto simp: ends_def split: sum.splits)

theorem ldecode_memory_safe_witness:
  "ldecode 5 (Some ([8, 0, 0, 0, 8, 97, 0, 1], 0)) \<noteq> Inl (UB OutOfBounds)"
proof -
  have "[0..<8] = [0, 1, 2, 3, 4, 5, 6, 7::nat]" by (simp add: upt_rec)
  then show ?thesis by (intro ldecode_memory_safe) (simp_all add: no_negative_int_def int_at_def)
qed

text \<open>
  C7. \<open>decode\<close> reads a well-formed document wherever it lies in a block (the driver decodes
  documents in the middle of a reply): it returns the table of its elements and looks at no byte
  beyond them, since the bytes before and after the document are arbitrary.
\<close>

theorem ldecode_document:
  assumes "elems_ok False es" and "elems_depth es < lvl" and "int (length (doc_bytes es)) \<le> INT_MAX"
  shows "ldecode lvl (Some (pre @ doc_bytes es @ post, length pre)) =
    Inr (Some (DTab (fields_to_lua False es [])))"
  by (rule ldecode_at [OF assms])

theorem ldecode_document_witness:
  "ldecode 2 (Some ([7] @ doc_bytes [([120], BInt32 7), ([121], BEmpty BSON_NULL)] @ [9, 9, 9], 1)) =
    Inr (Some (DTab [(LStr [120], DVal (LInt 7)), (LStr [121], DVal (LStr [0, 10]))]))"
  using ldecode_document [of "[([120], BInt32 7), ([121], BEmpty BSON_NULL)]" 2 "[7]" "[9, 9, 9]"]
  by (simp add: length_doc_bytes element_key_def rawset_def)

text \<open>
  C8. A length field with the sign bit set passes \<open>check_reader\<close>, which compares it with the bytes left
  but not with zero. A nested document or array of negative length that takes the reader to a place
  before the block makes \<open>decode\<close> leave the block (or overflow an \<open>int\<close> before it gets there), whatever
  well-formed elements precede it, whatever its key is and whatever follows.
\<close>

theorem decode_negative_length_unsafe:
  assumes "elems_ok False es" and "elems_depth es < lvl" and "1 < lvl" and "0 \<notin> set k" and "t \<in> {BSON_DOCUMENT, BSON_ARRAY}"
    and "m = pre @ doc_frame (elems es @ t # k @ [0] @ le32 l @ rest) @ post" and "int (length m) \<le> INT_MAX"
    and "int (length pre + length (elems es) + length k + 10) + sint l < 5"
  shows "ldecode lvl (Some (m, length pre)) \<in> {Inl (UB OutOfBounds), Inl (UB SignedOverflow)}"
proof -
  let ?body = "elems es @ t # k @ [0] @ le32 l @ rest"
  let ?n = "length ?body" and ?p = "int (length pre)"
  obtain lvl' where lvl: "lvl = Suc (Suc lvl')" "elems_depth es \<le> Suc lvl'"
    using assms(2,3) by (cases lvl; cases "lvl - 1") auto
  have n: "int (?n + 5) \<le> INT_MAX" using assms(6,7) by (simp add: doc_frame_def)
  let ?t = "\<lparr>r_pos = ?p + 4, r_size = int ?n\<rparr>"
  note frame = ldecode_frame(1) [OF assms(6) n, of "Suc lvl'"] ldecode_frame(2) [OF assms(6) n]
  from frame(2) have b: "bytes_at m ?t (elems es)" "bytes_at m (skip ?t (length (elems es))) (t # k @ [0] @ le32 l @ rest)"
    unfolding bytes_at_append by simp_all
  let ?u = "skip ?t (length (elems es))" and ?v = "skip ?t (length (elems es) + length k + 2)"
  have "bytes_at m ?u ([t] @ (k @ [0]) @ le32 l @ rest)" using b(2) by simp
  then have c: "bytes_at m ?u [t]" "bytes_at m (skip ?u 1) (k @ [0])" "bytes_at m ?v (le32 l)"
    unfolding bytes_at_append by (simp_all add: ac_simps)
  obtain f where f: "?n + 5 \<le> f + length (elems es)" "unpack_loop (?n + 5) m (Suc lvl') False ?t [] =
      unpack_loop f m (Suc lvl') False ?u (fields_to_lua False es [])"
    using loop_reads [OF assms(1) lvl(2) b(1), of "?n + 5" "[]"] by auto
  obtain f' where f': "f = Suc (Suc f')" using f(1) by (cases f; cases "f - 1") auto
  have inner: "unpack_value (Suc f') m (Suc lvl') t ?v \<in> {Inl (UB OutOfBounds), Inl (UB SignedOverflow)}"
  proof -
    let ?w = "skip ?v 4"
    have w: "r_pos ?w + (sint l - 5) < 0" "0 \<le> r_size ?w" "sint l < 5" using assms(8) by simp_all
    have "rbind (c_int (sint l - 5)) (\<lambda>n. rbind (read_bytes ?w n) (\<lambda>(p, br). rbind (read_byte m br) (g p n))) \<in>
        {Inl (UB OutOfBounds), Inl (UB SignedOverflow)}" for g :: "int \<Rightarrow> int \<Rightarrow> byte \<times> reader \<Rightarrow> (bson_error, dval \<times> reader) res"
      using w by (auto simp: c_int_def read_bytes_def check_reader_def advance_def read_byte_def load_def simp del: skip_sel)
    then show ?thesis
      using assms(5) read_int32_at [OF c(3)] by (auto simp: unpack_value.simps unpack_dict.simps case_prod_beta)
  qed
  have "unpack_loop f m (Suc lvl') False ?u tab \<in> {Inl (UB OutOfBounds), Inl (UB SignedOverflow)}" for tab
    using read_byte_at [OF c(1)] read_cstring_at [OF c(2) assms(4)] bytes_at_size [OF c(1)] inner
    unfolding f' by (subst unpack_loop.simps) (auto simp: decoded_key_def ac_simps)
  then have "unpack_loop (?n + 5) m (Suc lvl') False ?t [] \<in> {Inl (UB OutOfBounds), Inl (UB SignedOverflow)}"
    using f(2) by simp
  then show ?thesis using frame(1) lvl(1) by auto
qed

theorem decode_negative_length_unsafe_witness:
  "ldecode 2 (Some ([7, 7] @ [17, 0, 0, 0, 8, 98, 0, 1, 3, 97, 0, 0x9c, 0xff, 0xff, 0xff, 5, 0] @ [9], 2)) \<in>
     {Inl (UB OutOfBounds), Inl (UB SignedOverflow)}"
proof -
  let ?es = "[([98], BBool True)]" and ?m = "[7, 7] @ [17, 0, 0, 0, 8, 98, 0, 1, 3, 97, 0, 0x9c, 0xff, 0xff, 0xff, 5, 0] @ [9] :: bytes"
  have m: "?m = [7, 7] @ doc_frame (elems ?es @ BSON_DOCUMENT # [97] @ [0] @ le32 (- 100) @ [5]) @ [9]"
    by (simp add: doc_frame_def element_def le32_def)
  have l: "length ([7, 7] :: bytes) = 2" by simp
  show ?thesis
    by (rule decode_negative_length_unsafe [OF _ _ _ _ _ m, of 2, unfolded l]) (simp_all add: element_def)
qed

text \<open>
  C9. A table is written as an array exactly when its border is positive and \<open>lua_next\<close> visits the
  border last; the choice never raises an error on a table that keeps Lua's promises.
\<close>

theorem array_choice:
  assumes "table_ok t"
  shows "is_array t = Inr (t_len t \<noteq> 0 \<and> fst (last (t_pairs t)) = LInt (of_nat (t_len t)))"
proof (cases "t_len t = 0")
  case False
  let ?k = "LInt (of_nat (t_len t))"
  have d: "distinct (map fst (t_pairs t))" and k: "?k \<in> fst ` set (t_pairs t)"
    using assms False by (auto simp: table_ok_def)
  obtain ps where ps: "next_after ?k (t_pairs t) = Some ps"
    using k next_after_Some_iff by metis
  have "t_pairs t \<noteq> []" using k by auto
  then have "ps = [] \<longleftrightarrow> fst (last (t_pairs t)) = ?k"
    using next_after_last [OF d, of ?k] ps by auto
  then show ?thesis using False ps by (simp add: is_array_def)
qed (simp add: is_array_def)

theorem array_choice_witness:
  "is_array (the (demo_heap 1)) = Inr True \<and>
   is_array \<lparr>t_len = 1, t_pairs = [(LInt 1, LBool True), (LStr [97], LBool True)]\<rparr> = Inr False"
proof
  show "is_array (the (demo_heap 1)) = Inr True"
    using array_choice [of "the (demo_heap 1)"] by (auto simp: demo_heap_def table_ok_def)
  show "is_array \<lparr>t_len = 1, t_pairs = [(LInt 1, LBool True), (LStr [97], LBool True)]\<rparr> = Inr False"
    using array_choice [of "\<lparr>t_len = 1, t_pairs = [(LInt 1, LBool True), (LStr [97], LBool True)]\<rparr>"]
    by (auto simp: table_ok_def)
qed

text \<open>
  Keys with a zero byte are not rejected, and the bytes after it become elements: the table
  with the one key \<open>k \ 0 1 8 k'\<close> is encoded to the same document as the table with the two keys
  \<open>k\<close> and \<open>k'\<close>.
\<close>

theorem nul_key_injects_element:
  assumes "0 < stack_levels L"
  shows "lencode L [0 \<mapsto> \<lparr>t_len = 0, t_pairs = [(LStr ([97] @ [0, 1, 8] @ [98]), LBool x)]\<rparr>] (LTable 0) =
   lencode L [0 \<mapsto> \<lparr>t_len = 0, t_pairs = [(LStr [97], LBool True), (LStr [98], LBool x)]\<rparr>] (LTable 0)"
proof -
  have enc: "lencode L [0 \<mapsto> t] (LTable 0) = Inr (LUserdata (doc_bytes es))"
    if "table_to_bson L [0 \<mapsto> t] t False 0 = Inr es" "int (length (doc_bytes es)) < buf_limit" for t es
    using lencode_encodes [of "[0 \<mapsto> t]" 0 t L] that by (simp add: encodes_as_small)
  let ?t = "\<lparr>t_len = 0, t_pairs = [(LStr ([97] @ [0, 1, 8] @ [98]), LBool x)]\<rparr>"
  let ?u = "\<lparr>t_len = 0, t_pairs = [(LStr [97], LBool True), (LStr [98], LBool x)]\<rparr>"
  have "lencode L [0 \<mapsto> ?t] (LTable 0) = Inr (LUserdata (doc_bytes [([97] @ [0, 1, 8] @ [98], BBool x)]))"
    by (rule enc) (simp_all add: assms table_to_bson.simps to_bson.simps entry_key_def length_doc_bytes)
  moreover have "lencode L [0 \<mapsto> ?u] (LTable 0) = Inr (LUserdata (doc_bytes [([97], BBool True), ([98], BBool x)]))"
    by (rule enc) (simp_all add: assms table_to_bson.simps to_bson.simps entry_key_def length_doc_bytes)
  ultimately show ?thesis by (simp add: doc_bytes_def)
qed



end
