(* ===== verification/Bson_Index.thy ===== *)
theory Bson_Index
  imports Bson_Codec
begin

text \<open>
  In-place update of an encoded document: \<open>makeindex\<close> records for every field of fixed size the
  type and the offset of its payload in one integer, and an assignment to a field of the userdata
  (\<open>lreplace\<close>, the metamethod \<open>__newindex\<close>) overwrites the payload.
\<close>

abbreviation BSON_TYPE_SHIFT :: nat where "BSON_TYPE_SHIFT \<equiv> 5"

section \<open>The code\<close>

text \<open>
  \<open>int id = bt | (int)(br.ptr - start) << BSON_TYPE_SHIFT\<close>; shifting a negative offset, or a bit
  past \<open>INT_MAX\<close>, is undefined.
\<close>

definition index_id :: "byte \<Rightarrow> int \<Rightarrow> (bson_error, int) res" where
  "index_id bt pos = (if pos < 0 then Inl (UB SignedOverflow) else
     rbind (c_int (push_bit BSON_TYPE_SHIFT pos)) (\<lambda>s. Inr (int (unat bt) OR s)))"

text \<open>One field: its size when that is fixed (0 otherwise), and the reader behind a variable one.\<close>

definition index_field :: "bytes \<Rightarrow> byte \<Rightarrow> reader \<Rightarrow> (bson_error, int \<times> reader) res" where
  "index_field m bt br =
     (if bt = BSON_INT64 \<or> bt = BSON_TIMESTAMP \<or> bt = BSON_DATE \<or> bt = BSON_REAL then Inr (8, br)
      else if bt = BSON_BOOLEAN then Inr (1, br)
      else if bt = BSON_JSCODE \<or> bt = BSON_SYMBOL \<or> bt = BSON_STRING then
        rbind (read_int32 m br) (\<lambda>(sz, br). rbind (read_bytes br sz) (\<lambda>(_, br). Inr (0, br)))
      else if bt = BSON_CODEWS \<or> bt = BSON_ARRAY \<or> bt = BSON_DOCUMENT then
        rbind (read_int32 m br) (\<lambda>(sz, br). rbind (c_int (sz - 4)) (\<lambda>n.
        rbind (read_bytes br n) (\<lambda>(_, br). Inr (0, br))))
      else if bt = BSON_BINARY then
        rbind (read_int32 m br) (\<lambda>(sz, br). rbind (c_int (sz + 1)) (\<lambda>n.
        rbind (read_bytes br n) (\<lambda>(_, br). Inr (0, br))))
      else if bt = BSON_OBJECTID then Inr (12, br)
      else if bt = BSON_MINKEY \<or> bt = BSON_MAXKEY \<or> bt = BSON_NULL then Inr (0, br)
      else if bt = BSON_REGEX then
        rbind (read_cstring m br) (\<lambda>(_, br). rbind (read_cstring m br) (\<lambda>(_, br). Inr (0, br)))
      else if bt = BSON_INT32 then Inr (4, br)
      else if bt = BSON_DBPOINTER then
        rbind (read_int32 m br) (\<lambda>(sz, br). rbind (c_int (sz + 12)) (\<lambda>n.
        rbind (read_bytes br n) (\<lambda>(_, br). Inr (0, br))))
      else Inl (Raise (InvalidBsonType (int (unat bt)))))"

fun index_loop :: "nat \<Rightarrow> bytes \<Rightarrow> reader \<Rightarrow> (lval \<times> lval) list \<Rightarrow> (bson_error, (lval \<times> lval) list) res" where
  "index_loop 0 m br tab = Inl (UB Diverges)"
| "index_loop (Suc fuel) m br tab =
     (if r_size br = 0 then Inr tab else
      rbind (read_byte m br) (\<lambda>(bt, br).
      rbind (read_cstring m br) (\<lambda>(key, br).
      rbind (index_field m bt br) (\<lambda>(field_size, br).
      if 0 < field_size then
        rbind (index_id bt (r_pos br)) (\<lambda>id.
        rbind (read_bytes br field_size) (\<lambda>(_, br).
        index_loop fuel m br (rawset (LStr key) (LInt (word_of_int id)) tab)))
      else index_loop fuel m br tab))))"

text \<open>
  \<open>m\<close> is the block of the userdata; the result is the table that becomes its user value. The loop
  need not end on a malformed block, so the number of rounds is an argument.
\<close>

definition lmakeindex :: "nat \<Rightarrow> bytes \<Rightarrow> (bson_error, (lval \<times> lval) list) res" where
  "lmakeindex fuel m = rbind (get_length m 0) (\<lambda>len. rbind (c_int (len - 5)) (\<lambda>sz.
     index_loop fuel m \<lparr>r_pos = 4, r_size = sz\<rparr> []))"







section \<open>Specification\<close>

definition fixed_size :: "bval \<Rightarrow> bool" where
  "fixed_size x \<longleftrightarrow> tag x \<in> {BSON_REAL, BSON_BOOLEAN, BSON_OBJECTID, BSON_DATE, BSON_INT32,
     BSON_TIMESTAMP, BSON_INT64}"



text \<open>The value an assignment writes over a value of type \<open>t\<close>, or the error it raises.\<close>

definition assigned_object :: "byte \<Rightarrow> bytes \<Rightarrow> (bson_error, bval) res" where
  "assigned_object t d =
     (if length d < 6 \<or> d ! 0 \<noteq> 0 \<or> d ! 1 \<noteq> t then Inl (Raise (TypeMismatch (int (unat t))))
      else subtype_to_bson t (drop 2 d))"

definition assigned :: "lua_env \<Rightarrow> byte \<Rightarrow> lval \<Rightarrow> (bson_error, bval) res" where
  "assigned L t v =
     (if t = BSON_REAL then
        (case lua_tonumber L v of None \<Rightarrow> Inl (Raise (BadArgument 3)) | Some d \<Rightarrow> Inr (BReal d))
      else if t = BSON_BOOLEAN then Inr (BBool (lua_toboolean v))
      else if t = BSON_INT32 then
        (case v of LInt i \<Rightarrow> Inr (BInt32 (ucast i)) | _ \<Rightarrow> Inl (Raise (NeedInteger 32)))
      else if t = BSON_INT64 then
        (case v of LInt i \<Rightarrow> Inr (BInt64 i) | _ \<Rightarrow> Inl (Raise (NeedInteger 64)))
      else (case lua_tolstring L v of None \<Rightarrow> Inl (Raise (BadArgument 3)) | Some d \<Rightarrow> assigned_object t d))"

section \<open>Building the index\<close>

lemmas index_field_simps =
  index_field_def [where bt = BSON_JSCODE, simplified]
  index_field_def [where bt = BSON_SYMBOL, simplified]
  index_field_def [where bt = BSON_STRING, simplified]
  index_field_def [where bt = BSON_CODEWS, simplified]
  index_field_def [where bt = BSON_ARRAY, simplified]
  index_field_def [where bt = BSON_DOCUMENT, simplified]
  index_field_def [where bt = BSON_BINARY, simplified]
  index_field_def [where bt = BSON_OBJECTID, simplified]
  index_field_def [where bt = BSON_MINKEY, simplified]
  index_field_def [where bt = BSON_MAXKEY, simplified]
  index_field_def [where bt = BSON_NULL, simplified]
  index_field_def [where bt = BSON_REGEX, simplified]
  index_field_def [where bt = BSON_INT32, simplified]
  index_field_def [where bt = BSON_DBPOINTER, simplified]
  index_field_def [where bt = BSON_INT64, simplified]
  index_field_def [where bt = BSON_TIMESTAMP, simplified]
  index_field_def [where bt = BSON_DATE, simplified]
  index_field_def [where bt = BSON_REAL, simplified]
  index_field_def [where bt = BSON_BOOLEAN, simplified]

lemma fixed_size_simps [simp]:
  "fixed_size (BReal d)" "fixed_size (BBool b)" "fixed_size (BDate v)" "fixed_size (BInt32 i)"
  "fixed_size (BInt64 j)" "fixed_size (BTimestamp i t)" "\<not> fixed_size (BString s)" "\<not> fixed_size (BDoc es)"
  "\<not> fixed_size (BArr es)" "\<not> fixed_size (BBinary s)" "\<not> fixed_size (BRegex r q)"
  "fixed_size (BRaw BSON_OBJECTID s)"
  by (simp_all add: fixed_size_def)


lemma fixed_size_empty: "value_ok (BEmpty t) \<Longrightarrow> \<not> fixed_size (BEmpty t)"
  by (auto simp: fixed_size_def)










section \<open>Assigning to a field\<close>




definition field :: "bytes \<Rightarrow> buf" where
  "field p = \<lparr>b_size = 0, b_cap = 16, b_ptr = map Some p, b_heap = False\<rparr>"


definition block :: "(bson_error, unit) res \<times> buf \<Rightarrow> (bson_error, unit) res \<times> bytes" where
  "block r = (fst r, map the (b_ptr (snd r)))"

lemma block_unchanged [simp]: "block (Inl e, field p) = (Inl e, p)"
  by (simp add: block_def field_def)








text \<open>The code of an assignment stores the payload of the value \<open>assigned\<close> describes.\<close>

definition overwritten :: "(bson_error, bval) res \<Rightarrow> bytes \<Rightarrow> (bson_error, unit) res \<times> bytes" where
  "overwritten r p = (case r of Inl e \<Rightarrow> (Inl e, p) | Inr x \<Rightarrow> (Inr (), payload x @ drop (length (payload x)) p))"

lemma overwritten_simps [simp]:
  "overwritten (Inl e) p = (Inl e, p)" "overwritten (Inr x) p = (Inr (), payload x @ drop (length (payload x)) p)"
  by (simp_all add: overwritten_def)








section \<open>Assignments to an indexed document\<close>





section \<open>Termination of the index loop\<close>

text \<open>
  A negative length moves the reader backwards, and unlike \<open>unpack_dict\<close> the loop never looks at the
  bytes it skips, so nothing stops it. Without such a length in the block it ends.
\<close>

lemma read_int32_nonneg:
  assumes "no_negative_int m"
  shows "ends terminating (read_int32 m t) (\<lambda>(v, t'). shrinks t 4 t' \<and> 0 \<le> v)"
proof -
  have "0 \<le> v" if "read_int32 m t = Inr (v, t')" for v t'
  proof -
    from that have "v = int_at m (nat (r_pos t))" "nat (r_pos t) \<in> set [0..<length m]"
      by (auto simp: read_int32_def read_uint32_def slice_def int_at_def res_simps split: if_splits)
    then show ?thesis using assms by (simp only: no_negative_int_def)
  qed
  then show ?thesis using read_int32_ends [of m t] by (auto simp: ends_def split: sum.splits)
qed

lemma index_field_ends:
  assumes "no_negative_int m"
  shows "ends terminating (index_field m bt t) (\<lambda>(n, t'). r_size t' \<le> r_size t)"
  unfolding index_field_def
  by (auto simp: shrinks_def intro!: ends_rbind [OF read_int32_nonneg [OF assms]] ends_rbind [OF read_bytes_ends]
    ends_rbind [OF read_cstring_ends] ends_rbind [OF c_int_ends])

lemma index_id_ends: "ends terminating (index_id bt pos) (\<lambda>_. True)"
  unfolding index_id_def by (auto intro!: ends_rbind [OF c_int_ends])

lemma index_loop_ends:
  assumes "no_negative_int m"
  shows "nat (r_size t) < fuel \<Longrightarrow> ends terminating (index_loop fuel m t tab) (\<lambda>_. True)"
proof (induction fuel arbitrary: t tab)
  case (Suc f)
  have "ends terminating (index_loop f m t' tab') (\<lambda>_. True)" if "r_size t' < r_size t" "1 \<le> r_size t" for t' tab'
    using Suc.IH [of t'] Suc.prems that by simp
  then show ?case
    by (auto simp: shrinks_def intro!: ends_rbind [OF read_byte_ends] ends_rbind [OF read_cstring_ends]
        ends_rbind [OF index_field_ends [OF assms]] ends_rbind [OF index_id_ends] ends_rbind [OF read_bytes_ends])
qed simp

lemma lmakeindex_ends:
  assumes "no_negative_int m" and "nat (int_at m 0) \<le> fuel" and "0 < fuel"
  shows "ends terminating (lmakeindex fuel m) (\<lambda>_. True)"
proof (cases "length m < 4")
  case False
  then have len: "get_length m 0 = Inr (int_at m 0)"
    by (simp add: get_length_def slice_def int_at_def)
  show ?thesis unfolding lmakeindex_def len rbind.simps
    by (rule ends_rbind [OF c_int_ends], rule index_loop_ends [OF assms(1)]) (use assms(2,3) in simp)
qed (simp add: lmakeindex_def get_length_def slice_def)

section \<open>The contract of the index\<close>



text \<open>
  The error for other values says that an \<open>int32\<close> field needs a 32-bit integer, but an integer that does
  not fit is stored all the same, as another number.
\<close>

lemma replace_truncates_integers:
  assumes "\<not> is_32bit i"
  shows "\<exists>n. assigned L BSON_INT32 (LInt i) = Inr (BInt32 n) \<and> sint n \<noteq> sint i"
proof -
  have "is_32bit i" if "sint (ucast i :: 32 word) = sint i"
    using that sint_lt [of "ucast i :: 32 word"] sint_ge [of "ucast i :: 32 word"] by (auto simp: is_32bit_def)
  then show ?thesis using assms by (auto simp: assigned_def)
qed

text \<open>
  C12. \<open>makeindex\<close> ends on every block in which no four consecutive bytes read as a negative number:
  its loop takes at most as many rounds as the length field of the block says.
\<close>

theorem lmakeindex_terminates:
  assumes "no_negative_int m" and "nat (int_at m 0) \<le> fuel" and "0 < fuel"
  shows "lmakeindex fuel m \<noteq> Inl (UB Diverges)"
  using lmakeindex_ends [OF assms] by (auto simp: ends_def split: sum.splits)

theorem lmakeindex_terminates_witness: "lmakeindex 13 [13, 0, 0, 0, 8, 97, 0, 1, 8, 98, 0, 0, 0] \<noteq> Inl (UB Diverges)"
proof -
  have "[0..<13] = [0, 1, 2, 3, 4, 5, 6, 7, 8, 9, 10, 11, 12::nat]" by (simp add: upt_rec)
  then show ?thesis by (intro lmakeindex_terminates) (simp_all add: no_negative_int_def int_at_def)
qed

text \<open>
  \<open>makeindex\<close> can be made to loop forever: a string field whose length is -7 takes the reader
  back to the first byte of the field, with the count of bytes left restored. No number of rounds
  is enough.
\<close>

theorem lmakeindex_endless_loop:
  "lmakeindex fuel [12, 0, 0, 0, 2, 97, 0, 0xf9, 0xff, 0xff, 0xff, 0] = Inl (UB Diverges)"
proof -
  let ?m = "[12, 0, 0, 0, 2, 97, 0, 0xf9, 0xff, 0xff, 0xff, 0] :: bytes"
  have "index_loop n ?m \<lparr>r_pos = 4, r_size = 7\<rparr> [] = Inl (UB Diverges)" for n
  proof (induction n)
    case (Suc n)
    then show ?case
      by (simp add: index_field_simps read_int32_def read_uint32_def read_byte_def read_bytes_def read_cstring_def
          scan_cstring.simps check_reader_def advance_def load_def slice_def)
  qed simp
  then show ?thesis by (simp add: lmakeindex_def get_length_def slice_def)
qed

end
