(* ===== verification/Bson_Types.thy ===== *)
theory Bson_Types
  imports Bson_Index
begin

text \<open>
  The constructors of \<open>cext/lua-bson.c\<close> for the BSON types that Lua lacks (\<open>date\<close>, \<open>timestamp\<close>,
  \<open>regex\<close>, \<open>binary\<close>, \<open>objectid\<close>), the classification function \<open>type\<close>, and the metamethods of encoded
  documents. What a constructor builds is a string that starts with a zero byte and the type tag.
\<close>

section \<open>The state of the module\<close>

text \<open>
  The static variables: the header and the counter of object ids, and the counter \<open>inc\<close> inside
  \<open>ltimestamp\<close>.
\<close>

record bson_state =
  oid_header :: bytes
  oid_counter :: "32 word"
  ts_inc :: "32 word"

text \<open>
  \<open>init_oid_header\<close> hashes the host name (\<open>None\<close> when \<open>gethostname\<close> fails, otherwise the 256 bytes of
  the array \<open>hostname\<close>) and mixes in the process id, the time and the address of the local variable
  \<open>h\<close>. A \<open>char\<close> is signed.
\<close>

fun host_hash :: "bytes \<Rightarrow> nat \<Rightarrow> 32 word \<Rightarrow> 32 word \<times> nat" where
  "host_hash [] i h = (h, i)"
| "host_hash (c # cs) i h = (if c = 0 then (h, i)
     else host_hash cs (i + 1) (h XOR (push_bit 5 h + drop_bit 2 h + scast c)))"

definition init_oid_header :: "bytes option \<Rightarrow> 32 word \<Rightarrow> 32 word \<Rightarrow> 32 word \<Rightarrow> bson_state \<Rightarrow> bson_state" where
  "init_oid_header hostname pid time addr s =
     (if oid_counter s \<noteq> 0 then s else
      let h = (case hostname of None \<Rightarrow> 0 | Some cs \<Rightarrow>
            let (h, i) = host_hash (take 256 cs) 0 0 in h XOR of_nat i);
          c = h XOR time XOR addr
      in s\<lparr>oid_header := [ucast (h AND 0xff), ucast (drop_bit 8 h AND 0xff), ucast (drop_bit 16 h AND 0xff),
             ucast (pid AND 0xff), ucast (drop_bit 8 pid AND 0xff)],
           oid_counter := if c = 0 then 1 else c\<rparr>)"

section \<open>Constructors\<close>

text \<open>\<open>int d = luaL_checkinteger(L, 1)\<close>: the low 32 bits of the integer.\<close>

definition check_int :: "lua_env \<Rightarrow> nat \<Rightarrow> lval \<Rightarrow> (bson_error, 32 word) res" where
  "check_int L n v = (case lua_tointegerx L v of
     None \<Rightarrow> Inl (Raise (BadArgument n)) | Some i \<Rightarrow> Inr (ucast i))"

definition ldate :: "lua_env \<Rightarrow> lval \<Rightarrow> (bson_error, lval) res" where
  "ldate L v = rbind (check_int L 1 v) (\<lambda>d. Inr (LStr ([0, BSON_DATE] @ le32 d)))"

text \<open>The second argument may be absent (\<open>None\<close>) or nil; then the static counter is used.\<close>

definition ltimestamp :: "lua_env \<Rightarrow> lval \<Rightarrow> lval option \<Rightarrow> bson_state \<Rightarrow> (bson_error, lval \<times> bson_state) res" where
  "ltimestamp L v w s = rbind (check_int L 1 v) (\<lambda>d.
     if w = None \<or> w = Some LNil then
       Inr (LStr ([0, BSON_TIMESTAMP] @ le32 (ts_inc s) @ le32 d), s\<lparr>ts_inc := ts_inc s + 1\<rparr>)
     else Inr (LStr ([0, BSON_TIMESTAMP] @ le32 (ucast (lua_tointeger L (the w))) @ le32 d), s))"

text \<open>
  \<open>luaL_addvalue\<close> adds the string form of a value; a value without one adds nothing.
\<close>

definition added_value :: "lua_env \<Rightarrow> lval \<Rightarrow> bytes" where
  "added_value L v = (case lua_tolstring L v of None \<Rightarrow> [] | Some s \<Rightarrow> s)"

definition lregex :: "lua_env \<Rightarrow> lval \<Rightarrow> lval option \<Rightarrow> (bson_error, lval) res" where
  "lregex L v w = (case lua_tolstring L v of
     None \<Rightarrow> Inl (Raise (BadArgument 1))
   | Some s \<Rightarrow> Inr (LStr ([0, BSON_REGEX] @ added_value L v @ [0] @
       added_value L (case w of None \<Rightarrow> LStr [] | Some x \<Rightarrow> x) @ [0])))"

definition lbinary :: "lua_env \<Rightarrow> lval \<Rightarrow> lval" where
  "lbinary L v = LStr ([0, BSON_BINARY, 0] @ added_value L v)"

text \<open>\<open>hextoint\<close> takes every letter for a digit, not only those up to \<open>f\<close>.\<close>

definition hextoint :: "byte \<Rightarrow> byte" where
  "hextoint c = (if 48 \<le> c \<and> c \<le> 57 then c - 48
     else if 97 \<le> c \<and> c \<le> 122 then c - 97 + 10
     else if 65 \<le> c \<and> c \<le> 90 then c - 65 + 10
     else 0)"

fun hex_bytes :: "bytes \<Rightarrow> bytes" where
  "hex_bytes (a # b # s) = (push_bit 4 (hextoint a) OR hextoint b) # hex_bytes s"
| "hex_bytes _ = []"

text \<open>A new id: the time, the header of the process, and three bytes of the counter.\<close>

definition new_oid :: "32 word \<Rightarrow> bytes \<Rightarrow> 32 word \<Rightarrow> bytes" where
  "new_oid ti header c =
     [ucast (drop_bit 24 ti AND 0xff), ucast (drop_bit 16 ti AND 0xff), ucast (drop_bit 8 ti AND 0xff),
      ucast (ti AND 0xff)] @ take 5 header @
     [ucast (drop_bit 16 c AND 0xff), ucast (drop_bit 8 c AND 0xff), ucast (c AND 0xff)]"

definition lobjectid :: "lua_env \<Rightarrow> 32 word \<Rightarrow> lval option \<Rightarrow> bson_state \<Rightarrow> (bson_error, lval \<times> bson_state) res" where
  "lobjectid L ti arg s = (case arg of
     Some v \<Rightarrow> (case lua_tolstring L v of
       Some str \<Rightarrow> if length str \<noteq> 24 then Inl (Raise InvalidObjectId)
                   else Inr (LStr ([0, BSON_OBJECTID] @ hex_bytes str), s)
     | None \<Rightarrow> Inr (LStr ([0, BSON_OBJECTID] @ new_oid ti (oid_header s) (oid_counter s)),
                   s\<lparr>oid_counter := oid_counter s + 1\<rparr>))
   | None \<Rightarrow> Inr (LStr ([0, BSON_OBJECTID] @ new_oid ti (oid_header s) (oid_counter s)),
                  s\<lparr>oid_counter := oid_counter s + 1\<rparr>))"

section \<open>Classification\<close>

text \<open>String literals as bytes, and the upvalues of the closure \<open>typeclosure\<close> builds.\<close>

definition cstr :: "string \<Rightarrow> bytes" where
  "cstr s = map of_char s"

definition typenames :: "bytes list" where
  "typenames = map cstr [''number'', ''boolean'', ''table'', ''nil'', ''string'', ''binary'', ''objectid'',
     ''timestamp'', ''date'', ''regex'', ''minkey'', ''maxkey'', ''unsupported'']"

definition upvalue :: "nat \<Rightarrow> lval" where
  "upvalue i = LStr (typenames ! (i - 1))"

definition hex_digit :: "byte \<Rightarrow> byte" where
  "hex_digit d = cstr ''0123456789abcdef'' ! unat d"

definition oid_hex :: "bytes \<Rightarrow> bytes" where
  "oid_hex p = concat (map (\<lambda>b. [hex_digit (drop_bit 4 b), hex_digit (b AND 0xf)]) p)"

text \<open>
  The payload lies behind the two marker bytes of the string \<open>s\<close>; an empty one makes \<open>sz - 1\<close> wrap around
  for a binary and a regular expression.
\<close>

definition lsubtype :: "byte \<Rightarrow> bytes \<Rightarrow> (bson_error, lval list) res" where
  "lsubtype subtype s = (let p = drop 2 s in
     if subtype = BSON_BINARY then
        rbind (str_part s 3 (size_minus (length p) 1)) (\<lambda>x.
        rbind (str_byte s 2) (\<lambda>c. Inr [upvalue 6, LStr x, LInt (ucast c)]))
      else if subtype = BSON_OBJECTID then
        (if length p \<noteq> 12 then Inl (Raise InvalidObjectId) else Inr [upvalue 7, LStr (oid_hex p)])
      else if subtype = BSON_DATE then
        (if length p \<noteq> 4 then Inl (Raise InvalidDate) else Inr [upvalue 9, LInt (scast (of_le32 p))])
      else if subtype = BSON_TIMESTAMP then
        (if length p \<noteq> 8 then Inl (Raise InvalidTimestamp)
         else Inr [upvalue 8, LInt (ucast (of_le32 (drop 4 p))), LInt (ucast (of_le32 (take 4 p)))])
      else if subtype = BSON_REGEX then
        (let sz = size_minus (length p) 1 in
         rbind (regex_scan s sz 0) (\<lambda>i.
         if i = sz then Inl (Raise InvalidRegex) else
         rbind (str_part s 2 (size_minus (size_minus sz i) 1)) (\<lambda>r.
         rbind (str_part s (2 + size_minus sz i) i) (\<lambda>q.
         Inr [upvalue 10, LStr r, LStr q]))))
      else if subtype = BSON_MINKEY then Inr [upvalue 11]
      else if subtype = BSON_MAXKEY then Inr [upvalue 12]
      else if subtype = BSON_NULL then Inr [upvalue 4]
      else if subtype = BSON_JSCODE \<or> subtype = BSON_DBPOINTER \<or> subtype = BSON_SYMBOL \<or> subtype = BSON_CODEWS
      then Inr [upvalue 13, LStr p]
      else Inl (Raise (InvalidSubtype (unat subtype))))"

definition ltype :: "lval \<Rightarrow> (bson_error, lval list) res" where
  "ltype v = (case v of
     LInt i \<Rightarrow> Inr [upvalue 1, v]
   | LNum d \<Rightarrow> Inr [upvalue 1, v]
   | LBool x \<Rightarrow> Inr [upvalue 2, v]
   | LTable a \<Rightarrow> Inr [upvalue 3, v]
   | LNil \<Rightarrow> Inr [upvalue 4]
   | LStr s \<Rightarrow> if 2 \<le> length s \<and> s ! 0 = 0 then lsubtype (s ! 1) s else Inr [upvalue 5, v]
   | _ \<Rightarrow> Inl (Raise (InvalidType (lua_type v))))"

section \<open>Metamethods and constants\<close>

definition ltostring :: "bytes \<Rightarrow> lval" where
  "ltostring u = LStr u"

definition llen :: "bytes \<Rightarrow> lval" where
  "llen u = LInt (of_nat (length u))"

definition bson_null :: lval where
  "bson_null = LStr [0, BSON_NULL]"

definition bson_minkey :: lval where
  "bson_minkey = LStr [0, BSON_MINKEY]"

definition bson_maxkey :: lval where
  "bson_maxkey = LStr [0, BSON_MAXKEY]"

section \<open>Lemmas on the constructors\<close>

lemma regex_scan_split:
  assumes "0 \<notin> set q"
  shows "regex_scan (x # y # r @ 0 # q @ [0]) (length r + length q + 1) 0 = Inr (length q)"
proof -
  have "regex_scan (x # y # (r @ 0 # q) @ [0]) (length (r @ 0 # q)) 0 =
      Inr (length (takeWhile (\<lambda>x. x \<noteq> 0) (rev (r @ 0 # q))))"
    by (rule regex_scan_takeWhile) auto
  moreover have "takeWhile (\<lambda>x. x \<noteq> 0) (rev q @ 0 # rev r) = rev q"
    using assms by (subst takeWhile_append2) auto
  ultimately show ?thesis by simp
qed

lemma lsubtype_regex:
  assumes "0 \<notin> set q"
  shows "lsubtype BSON_REGEX (x # y # r @ 0 # q @ [0]) = Inr [upvalue 10, LStr r, LStr q]"
proof -
  have "str_part (x # y # r @ 0 # q @ [0]) 2 (length r) = Inr r"
    "str_part (x # y # r @ 0 # q @ [0]) (Suc (Suc (Suc (length r)))) (length q) = Inr q"
    by (simp_all add: str_part_def numeral_2_eq_2 numeral_3_eq_3)
  then show ?thesis using regex_scan_split [OF assms, of x y r] by (simp add: lsubtype_def size_minus_def)
qed

lemma lsubtype_binary: "lsubtype BSON_BINARY (x # y # c # p) = Inr [upvalue 6, LStr p, LInt (ucast c)]"
  by (simp add: lsubtype_def size_minus_def str_part_def str_byte_def numeral_2_eq_2 numeral_3_eq_3)

lemma hex_digit_inverse: "unat d < 16 \<Longrightarrow> hextoint (hex_digit d) = d"
proof -
  assume "unat d < 16"
  then have "unat d \<in> set [0..<16]" by simp
  moreover have "\<forall>n \<in> set [0..<16]. hextoint (hex_digit (of_nat n)) = of_nat n"
    by (simp add: upt_rec hextoint_def hex_digit_def cstr_def)
  ultimately have "hextoint (hex_digit (of_nat (unat d))) = of_nat (unat d)" by blast
  then show ?thesis by simp
qed

lemma nibbles:
  fixes b :: byte
  shows "unat (drop_bit 4 b) < 16" "unat (b AND 0xf) < 16" "push_bit 4 (drop_bit 4 b) OR (b AND 0xf) = b"
proof -
  have m: "(0xf :: byte) = mask 4" by (simp add: mask_eq_exp_minus_1)
  have "unat b < 256" using unsigned_less [of b] by simp
  then show "unat (drop_bit 4 b) < 16" by (simp add: unat_div_distrib drop_bit_eq_div)
  show "unat (b AND 0xf) < 16"
    unfolding m take_bit_eq_mask [symmetric] by (simp add: take_bit_eq_mod unat_mod_distrib)
  show "push_bit 4 (drop_bit 4 b) OR (b AND 0xf) = b"
    unfolding m by (rule bit_word_eqI) (auto simp: bit_simps)
qed

lemma hex_bytes_oid_hex: "hex_bytes (oid_hex p) = p"
  by (induction p) (simp_all add: oid_hex_def hex_digit_inverse nibbles)

lemma length_oid_hex: "length (oid_hex p) = 2 * length p"
  by (induction p) (simp_all add: oid_hex_def)

lemma new_oid_counter:
  assumes "length hdr = 5" and "length hdr' = 5" and "new_oid ti hdr c = new_oid ti' hdr' c'"
  shows "take_bit 24 c = take_bit 24 c'"
proof -
  have e: "(ucast (drop_bit 16 c AND 0xff) :: byte) = ucast (drop_bit 16 c' AND 0xff)"
      "(ucast (drop_bit 8 c AND 0xff) :: byte) = ucast (drop_bit 8 c' AND 0xff)"
      "(ucast (c AND 0xff) :: byte) = ucast (c' AND 0xff)"
    using assms by (auto simp: new_oid_def)
  have b: "bit c (k + n) = bit c' (k + n)"
    if "(ucast (drop_bit k c AND 0xff) :: byte) = ucast (drop_bit k c' AND 0xff)" "n < 8" for k n
    using arg_cong [OF that(1), of "\<lambda>w. bit w n"] that(2) unfolding mask8 by (simp add: bit_simps)
  have "bit c n = bit c' n" if "n < 24" for n
  proof -
    have "n < 8 \<or> (\<exists>m < 8. n = 8 + m) \<or> (\<exists>m < 8. n = 16 + m)" using that by presburger
    then show ?thesis using b [of 0 n] b [of 8] b [of 16] e by auto
  qed
  then show ?thesis by (intro bit_word_eqI) (auto simp: bit_simps)
qed

lemma low_bits_distinct:
  fixes c :: "32 word"
  assumes "i < 2 ^ 24" and "j < 2 ^ 24" and "take_bit 24 (c + of_nat i) = take_bit 24 (c + of_nat j)"
  shows "i = j"
proof -
  have "uint (take_bit 24 (c + of_nat k)) = (uint c + int k) mod 2 ^ 24" for k
  proof -
    have "uint (c + of_nat k) = (uint c + int k) mod 2 ^ 32"
      by (simp add: uint_word_ariths unsigned_of_nat take_bit_eq_mod of_nat_mod mod_simps)
    moreover have "uint (take_bit 24 w) = uint w mod 2 ^ 24" for w :: "32 word"
      by (simp add: take_bit_eq_mod uint_mod_distrib)
    ultimately show ?thesis by (simp only: mod_mod_cancel [of "2 ^ 24 :: int"]) (simp add: mod_mod_cancel)
  qed
  then have "(uint c + int i) mod 2 ^ 24 = (uint c + int j) mod 2 ^ 24" using assms(3) by metis
  then have "2 ^ 24 dvd int i - int j" by (simp add: mod_eq_dvd_iff)
  then have "int i mod 2 ^ 24 = int j mod 2 ^ 24" by (simp add: mod_eq_dvd_iff)
  then show ?thesis using assms(1,2) by simp
qed

text \<open>Which strings the constructors build.\<close>

lemma length_hex_bytes: "length (hex_bytes s) = length s div 2"
  by (induction s rule: hex_bytes.induct) auto

lemma typed_string_ok: "typed_payload_ok t p \<Longrightarrow> lua_string_ok (0 # t # p)"
  by (simp add: lua_string_ok_def)

definition constructed :: "lua_env \<Rightarrow> lval \<Rightarrow> bool" where
  "constructed L v \<longleftrightarrow> (\<exists>x. ldate L x = Inr v) \<or> (\<exists>x y s s'. ltimestamp L x y s = Inr (v, s')) \<or>
     (\<exists>r q. lregex L (LStr r) (Some (LStr q)) = Inr v \<and> 0 \<notin> set r \<and> 0 \<notin> set q) \<or>
     (\<exists>x. lbinary L x = v) \<or>
     (\<exists>ti z s s'. lobjectid L ti z s = Inr (v, s') \<and> length (oid_header s) = 5) \<or>
     v \<in> {bson_null, bson_minkey, bson_maxkey}"

lemma constructed_ok:
  assumes "constructed L v"
  shows "\<exists>s. v = LStr s \<and> lua_string_ok s"
proof -
  have regex: "lua_string_ok ([0, BSON_REGEX] @ r @ [0] @ q @ [0])" if "0 \<notin> set r" "0 \<notin> set q" for r q
  proof -
    have "filter (\<lambda>b. b = 0) r = []" "filter (\<lambda>b. b = 0) q = []" using that by (auto simp: filter_empty_conv)
    then show ?thesis by (auto simp: typed_payload_ok_def intro!: typed_string_ok)
  qed
  have oid: "lua_string_ok ([0, BSON_OBJECTID] @ p)" if "length p = 12" for p
    using that by (auto simp: typed_payload_ok_def raw_ok_def intro!: typed_string_ok)
  have "length (new_oid ti hdr c) = 12" if "length hdr = 5" for ti hdr c
    using that by (simp add: new_oid_def)
  then have "\<exists>s. v = LStr s \<and> lua_string_ok s"
    if "lobjectid L ti z st = Inr (v, st')" "length (oid_header st) = 5" for ti z st st'
    using that oid by (auto simp: lobjectid_def length_hex_bytes split: option.splits if_splits)
  moreover have "\<exists>s. v = LStr s \<and> lua_string_ok s" if "ldate L x = Inr v" for x
    using that by (auto simp: ldate_def check_int_def typed_payload_ok_def res_simps split: option.splits intro!: typed_string_ok)
  moreover have "\<exists>s. v = LStr s \<and> lua_string_ok s" if "ltimestamp L x y st = Inr (v, st')" for x y st st'
    using that by (auto simp: ltimestamp_def check_int_def typed_payload_ok_def res_simps split: option.splits if_splits intro!: typed_string_ok)
  moreover have "\<exists>s. v = LStr s \<and> lua_string_ok s" if "lbinary L x = v" for x
    using that by (auto simp: lbinary_def typed_payload_ok_def intro!: typed_string_ok)
  moreover have "\<exists>s. v = LStr s \<and> lua_string_ok s" if "v \<in> {bson_null, bson_minkey, bson_maxkey}"
    using that by (auto simp: bson_null_def bson_minkey_def bson_maxkey_def typed_payload_ok_def intro!: typed_string_ok)
  ultimately show ?thesis
    using assms regex by (auto simp: constructed_def lregex_def added_value_def)
qed

section \<open>What the constructors and the classification promise\<close>

text \<open>
  C13. The classification function takes every value apart that a constructor has put together: dates
  (as 32-bit seconds), timestamps, regular expressions (whose options hold no zero byte) and
  binaries come back with their type name and their components.
\<close>

theorem type_inverts_constructors:
  assumes "is_32bit d" and "0 \<notin> set q"
  shows "rbind (ldate L (LInt d)) ltype = Inr [upvalue 9, LInt d] \<and>
    rbind (ltimestamp L (LInt d) (Some (LInt i)) s) (\<lambda>(v, _). ltype v) =
      Inr [upvalue 8, LInt (ucast (ucast d :: 32 word)), LInt (ucast (ucast i :: 32 word))] \<and>
    rbind (lregex L (LStr r) (Some (LStr q))) ltype = Inr [upvalue 10, LStr r, LStr q] \<and>
    ltype (lbinary L (LStr r)) = Inr [upvalue 6, LStr r, LInt 0]"
proof (intro conjI)
  show "rbind (ldate L (LInt d)) ltype = Inr [upvalue 9, LInt d]"
    by (simp add: ldate_def check_int_def ltype_def lsubtype_def narrow_int [OF assms(1)])
  show "rbind (ltimestamp L (LInt d) (Some (LInt i)) s) (\<lambda>(v, _). ltype v) =
      Inr [upvalue 8, LInt (ucast (ucast d :: 32 word)), LInt (ucast (ucast i :: 32 word))]"
    by (simp add: ltimestamp_def check_int_def ltype_def lsubtype_def)
  show "rbind (lregex L (LStr r) (Some (LStr q))) ltype = Inr [upvalue 10, LStr r, LStr q]"
    using lsubtype_regex [OF assms(2), of 0 BSON_REGEX r] by (simp add: lregex_def added_value_def ltype_def)
  show "ltype (lbinary L (LStr r)) = Inr [upvalue 6, LStr r, LInt 0]"
    by (simp add: lbinary_def added_value_def ltype_def lsubtype_binary)
qed

theorem type_inverts_constructors_witness:
  "rbind (ldate demo_env (LInt 86400)) ltype = Inr [upvalue 9, LInt 86400] \<and>
   rbind (lregex demo_env (LStr [97, 0, 98]) (Some (LStr [105]))) ltype =
     Inr [upvalue 10, LStr [97, 0, 98], LStr [105]]"
  using type_inverts_constructors [of 86400 "[105]" demo_env 0 undefined "[97, 0, 98]"]
  by (simp add: is_32bit_def)

text \<open>
  C14. Object ids print and parse back: the hexadecimal form \<open>type\<close> returns for the 12 bytes of an id
  is the argument from which \<open>objectid\<close> builds the same id.
\<close>

theorem objectid_hex_roundtrip:
  assumes "length p = 12"
  shows "\<exists>hex. ltype (LStr ([0, BSON_OBJECTID] @ p)) = Inr [upvalue 7, LStr hex] \<and>
    lobjectid L ti (Some (LStr hex)) s = Inr (LStr ([0, BSON_OBJECTID] @ p), s)"
  using assms by (simp add: ltype_def lsubtype_def lobjectid_def length_oid_hex hex_bytes_oid_hex)

theorem objectid_hex_roundtrip_witness:
  "\<exists>hex. ltype (LStr ([0, BSON_OBJECTID] @ replicate 12 0xab)) = Inr [upvalue 7, LStr hex] \<and>
    lobjectid demo_env 0 (Some (LStr hex)) \<lparr>oid_header = [], oid_counter = 0, ts_inc = 0\<rparr> =
      Inr (LStr ([0, BSON_OBJECTID] @ replicate 12 0xab), \<lparr>oid_header = [], oid_counter = 0, ts_inc = 0\<rparr>)"
  by (rule objectid_hex_roundtrip) simp

text \<open>Successive calls of \<open>objectid\<close> without an argument, at the given times.\<close>

fun generate_oids :: "lua_env \<Rightarrow> 32 word list \<Rightarrow> bson_state \<Rightarrow> (bson_error, lval list) res" where
  "generate_oids L [] s = Inr []"
| "generate_oids L (t # ts) s = rbind (lobjectid L t None s) (\<lambda>(v, s).
     rbind (generate_oids L ts s) (\<lambda>vs. Inr (v # vs)))"

lemma generate_oids_eq:
  "generate_oids L ts s = Inr (map (\<lambda>i. LStr ([0, BSON_OBJECTID] @ new_oid (ts ! i) (oid_header s) (oid_counter s + of_nat i))) [0..<length ts])"
proof (induction ts arbitrary: s)
  case (Cons t ts)
  have "[0..<length (t # ts)] = 0 # map Suc [0..<length ts]"
    by (metis length_Cons map_Suc_upt upt_conv_Cons zero_less_Suc)
  then show ?case using Cons.IH [of "s\<lparr>oid_counter := oid_counter s + 1\<rparr>"]
    by (simp add: lobjectid_def o_def algebra_simps)
qed simp

text \<open>
  C15. The ids a process generates are distinct for 2^24 calls in a row, whatever the clock does.
\<close>

theorem generated_oids_distinct:
  assumes "length ts \<le> 2 ^ 24" and "length (oid_header s) = 5"
  shows "\<exists>vs. generate_oids L ts s = Inr vs \<and> length vs = length ts \<and> distinct vs"
proof -
  have "i = j" if ij: "i < length ts" "j < length ts"
    and eq: "new_oid (ts ! i) (oid_header s) (oid_counter s + of_nat i) =
      new_oid (ts ! j) (oid_header s) (oid_counter s + of_nat j)" for i j
  proof -
    have "take_bit 24 (oid_counter s + of_nat i) = take_bit 24 (oid_counter s + of_nat j)"
      by (rule new_oid_counter [OF assms(2,2) eq])
    then show ?thesis using low_bits_distinct ij assms(1) by simp
  qed
  then show ?thesis
    by (auto simp: generate_oids_eq distinct_map inj_on_def)
qed

theorem generated_oids_distinct_witness:
  "\<exists>vs. generate_oids demo_env [7, 7, 7] \<lparr>oid_header = [9, 9, 9, 9, 9], oid_counter = 0xfffffffe, ts_inc = 0\<rparr> =
     Inr vs \<and> length vs = 3 \<and> distinct vs"
proof -
  let ?s = "\<lparr>oid_header = [9, 9, 9, 9, 9], oid_counter = 0xfffffffe, ts_inc = 0\<rparr>"
  have "length [7, 7, 7 :: 32 word] = 3" by simp
  then show ?thesis using generated_oids_distinct [of "[7, 7, 7]" ?s demo_env] by (simp del: generate_oids.simps add: numeral_3_eq_3)
qed

text \<open>
  C16. A date before 1970 is not stored as that date: the constructor keeps the negative number of
  seconds as 32 bits, and the encoder reads them as unsigned, so that the document it writes holds a
  date 2^32 seconds (136 years) later.
\<close>

theorem date_before_1970_shifted:
  assumes "is_32bit d" and "sint d < 0" and "length k < 2 ^ 29"
  shows "\<exists>v. ldate L (LInt d) = Inr v \<and>
    lencode_order L h [LStr k, v] = Inr (LUserdata (doc_bytes [(k, BDate (word_of_int ((sint d + 2 ^ 32) * 1000)))]))"
proof -
  have "uint (ucast d :: 32 word) = sint d mod 2 ^ 32"
  proof -
    have "(ucast d :: 32 word) = ucast (word_of_int (sint d) :: 64 word)" by simp
    also have "\<dots> = word_of_int (sint d)" by (rule ucast_down_wi) (simp add: is_down)
    finally show ?thesis by (simp only: uint_word_of_int) simp
  qed
  also have "\<dots> = (sint d + 2 ^ 32) mod 2 ^ 32" by simp
  also have "\<dots> = sint d + 2 ^ 32"
    by (rule mod_pos_pos_trivial) (use assms in \<open>auto simp: is_32bit_def\<close>)
  finally have u: "uint (ucast d :: 32 word) = sint d + 2 ^ 32" .
  have "(ucast (ucast d :: 32 word) * 1000 :: 64 word) = word_of_int (uint (ucast d :: 32 word) * 1000)"
    by (simp only: ucast_eq [of "ucast d :: 32 word"] of_int_mult of_int_numeral)
  then have e: "ordered_to_bson L h 0 [LStr k, LStr ([0, BSON_DATE] @ le32 (ucast d))] =
      Inr [(k, BDate (word_of_int ((sint d + 2 ^ 32) * 1000)))]"
    unfolding u by (simp add: to_bson.simps string_to_bson_def subtype_to_bson_def)
  have "encodes_as (lencode_order L h [LStr k, LStr ([0, BSON_DATE] @ le32 (ucast d))])
      (Inr [(k, BDate (word_of_int ((sint d + 2 ^ 32) * 1000)))])"
    unfolding e [symmetric] by (rule lencode_order_encodes) simp
  from encodes_as_small [OF this] show ?thesis
    using assms(3) by (simp add: ldate_def check_int_def length_doc_bytes element_def)
qed

theorem date_before_1970_shifted_witness:
  "\<exists>v. ldate demo_env (LInt (- 1)) = Inr v \<and>
    lencode_order demo_env demo_heap [LStr [97], v] = Inr (LUserdata (doc_bytes [([97], BDate 4294967295000)]))"
  using date_before_1970_shifted [of "- 1" "[97]" demo_env demo_heap] by (simp add: is_32bit_def)

lemma constructed_to_bson:
  assumes "constructed L v"
  shows "\<exists>x. to_bson L h v depth = Inr x \<and> value_ok x \<and> bson_to_lua x = DVal v \<and> value_depth x = 0 \<and>
    length (payload x) \<le> length (added_value L v) + 5"
proof -
  obtain s where s: "v = LStr s" "lua_string_ok s" using constructed_ok [OF assms] by blast
  obtain x where x: "string_to_bson s = Inr x" "value_ok x" "bson_to_lua x = DVal (LStr s)" "value_depth x = 0"
    using string_copies [OF s(2)] by blast
  have "length (payload x) \<le> length s + 5" using x(3) by (cases x) auto
  then show ?thesis using x s(1) by (auto simp: to_bson.simps added_value_def)
qed

text \<open>The arguments of \<open>encode_order\<close> for a list of fields\<close>

definition field_args :: "(bytes \<times> lval) list \<Rightarrow> lval list" where
  "field_args kvs = concat (map (\<lambda>(k, v). [LStr k, v]) kvs)"

lemma field_args_even: "length (field_args kvs) mod 2 = 0"
  by (induction kvs) (auto simp: field_args_def)

definition fields_size :: "lua_env \<Rightarrow> (bytes \<times> lval) list \<Rightarrow> nat" where
  "fields_size L kvs = sum_list (map (\<lambda>(k, v). length k + length (added_value L v) + 7) kvs)"

lemma constructed_fields:
  assumes "\<forall>(k, v) \<in> set kvs. constructed L v \<and> 0 \<notin> set k"
  shows "\<exists>es. ordered_to_bson L h i (field_args kvs) = Inr es \<and> elems_ok False es \<and> elems_depth es = 0 \<and>
    length (elems es) \<le> fields_size L kvs \<and>
    list_all2 (\<lambda>e q. element_key False (fst e) = fst q \<and> bson_to_lua (snd e) = snd q) es (map (\<lambda>(k, v). (LStr k, DVal v)) kvs)"
  using assms
proof (induction kvs arbitrary: i)
  case (Cons kv kvs)
  obtain k v where kv: "kv = (k, v)" by (cases kv)
  obtain es where es: "ordered_to_bson L h (i + 2) (field_args kvs) = Inr es" "elems_ok False es" "elems_depth es = 0"
    "length (elems es) \<le> fields_size L kvs"
    "list_all2 (\<lambda>e q. element_key False (fst e) = fst q \<and> bson_to_lua (snd e) = snd q) es (map (\<lambda>(k, v). (LStr k, DVal v)) kvs)"
    using Cons.IH [of "i + 2"] Cons.prems by auto
  obtain x where "to_bson L h v 0 = Inr x" "value_ok x" "bson_to_lua x = DVal v" "value_depth x = 0"
    "length (payload x) \<le> length (added_value L v) + 5"
    using constructed_to_bson [of L v h 0] Cons.prems kv by auto
  then show ?case using es Cons.prems kv
    by (intro exI [of _ "(k, x) # es"]) (simp add: field_args_def fields_size_def element_key_def)
qed (simp add: field_args_def fields_size_def)

text \<open>
  C17. Values built by the constructors survive the encoder and the decoder: \<open>encode_order\<close> accepts any
  list of fields with such values and distinct keys without zero bytes (for a regular expression: when
  neither part holds a zero byte), as long as the document stays below 1 GiB, and \<open>decode\<close> returns the
  same fields, in the same order, with the same values.
\<close>

theorem constructors_roundtrip:
  assumes "\<forall>(k, v) \<in> set kvs. constructed L v \<and> 0 \<notin> set k" and "distinct (map fst kvs)"
    and "fields_size L kvs + 5 < 2 ^ 30" and "0 < lvl"
  shows "\<exists>u. lencode_order L h (field_args kvs) = Inr (LUserdata u) \<and>
    ldecode lvl (Some (u, 0)) = Inr (Some (DTab (map (\<lambda>(k, v). (LStr k, DVal v)) kvs)))"
proof -
  obtain es where es: "ordered_to_bson L h 0 (field_args kvs) = Inr es" "elems_ok False es" "elems_depth es = 0"
    "length (elems es) \<le> fields_size L kvs"
    "list_all2 (\<lambda>e q. element_key False (fst e) = fst q \<and> bson_to_lua (snd e) = snd q) es (map (\<lambda>(k, v). (LStr k, DVal v)) kvs)"
    using constructed_fields [OF assms(1), of h 0] by blast
  have small: "int (length (doc_bytes es)) < buf_limit" using es(4) assms(3) by (simp add: length_doc_bytes)
  have "encodes_as (lencode_order L h (field_args kvs)) (Inr es)"
    using lencode_order_encodes [OF field_args_even, of L h kvs] es(1) by simp
  then have "lencode_order L h (field_args kvs) = Inr (LUserdata (doc_bytes es))" using small by (rule encodes_as_small)
  moreover have "fields_to_lua False es [] = map (\<lambda>(k, v). (LStr k, DVal v)) kvs"
  proof -
    have "map fst (map (\<lambda>(k, v). (LStr k, DVal v)) kvs) = map LStr (map fst kvs)" by (simp add: case_prod_beta)
    then have "distinct (map fst ([] @ map (\<lambda>(k, v). (LStr k, DVal v)) kvs))"
      using assms(2) by (simp only: append_Nil distinct_map [of LStr]) (simp add: inj_on_def)
    from fields_to_lua_fresh [OF es(5) this] show ?thesis by simp
  qed
  ultimately show ?thesis using ldecode_at [of es lvl "[]" "[]"] es(2,3) assms(4) small by simp
qed

theorem constructors_roundtrip_witness:
  "\<exists>u. lencode_order demo_env demo_heap (field_args [([97], lbinary demo_env (LStr [1, 2])), ([98], bson_null)]) = Inr (LUserdata u) \<and>
    ldecode 1 (Some (u, 0)) = Inr (Some (DTab [(LStr [97], DVal (LStr [0, 5, 0, 1, 2])), (LStr [98], DVal (LStr [0, 10]))]))"
proof -
  let ?b = "lbinary demo_env (LStr [1, 2])"
  have "constructed demo_env ?b" "constructed demo_env bson_null" by (auto simp: constructed_def)
  then have "\<exists>u. lencode_order demo_env demo_heap (field_args [([97], ?b), ([98], bson_null)]) = Inr (LUserdata u) \<and>
      ldecode 1 (Some (u, 0)) = Inr (Some (DTab (map (\<lambda>(k, v). (LStr k, DVal v)) [([97], ?b), ([98], bson_null)])))"
    by (intro constructors_roundtrip) (simp_all add: fields_size_def added_value_def lbinary_def bson_null_def)
  then show ?thesis by (simp add: lbinary_def bson_null_def added_value_def)
qed

end
