(* ===== verification/Mongo_Driver.thy ===== *)
theory Mongo_Driver
  imports Grow_Buffer Lua_Values
begin

text \<open>
  The wire messages of \<open>cext/lua-mongo.c\<close>: the buffer of the driver (the same growth scheme as in
  \<open>lua-bson.c\<close>, from 128 inline bytes), the builders \<open>op_query\<close>, \<open>op_kill\<close>, \<open>op_delete\<close>,
  \<open>op_get_more\<close>, \<open>op_update\<close>, \<open>op_insert\<close>, and the reply parser. A \<open>document\<close> is a pointer: a memory
  block and an offset in it.
\<close>

datatype mongo_error =
    MBadArgument nat
  | RequireQuery
  | InvalidParam
  | InvalidCursorId
  | InvalidDocumentAt nat
  | NeedDocuments
  | InvalidResult

abbreviation OP_UPDATE :: "32 word" where "OP_UPDATE \<equiv> 2001"
abbreviation OP_INSERT :: "32 word" where "OP_INSERT \<equiv> 2002"
abbreviation OP_QUERY :: "32 word" where "OP_QUERY \<equiv> 2004"
abbreviation OP_GET_MORE :: "32 word" where "OP_GET_MORE \<equiv> 2005"
abbreviation OP_DELETE :: "32 word" where "OP_DELETE \<equiv> 2006"
abbreviation OP_KILL_CURSORS :: "32 word" where "OP_KILL_CURSORS \<equiv> 2007"

type_synonym document = "bytes \<times> nat"

section \<open>The buffer\<close>

definition little_endian :: "32 word \<Rightarrow> 32 word" where
  "little_endian v = of_le32 (le32 v)"

definition get_length_m :: "document \<Rightarrow> (mongo_error, 32 word) res" where
  "get_length_m d = (case d of (m, p) \<Rightarrow>
     if length m < p + 4 then Inl (UB OutOfBounds) else Inr (of_le32 (take 4 (drop p m))))"

definition buffer_create :: buf where
  "buffer_create = \<lparr>b_size = 0, b_cap = 128, b_ptr = replicate 128 None, b_heap = False\<rparr>"

definition buffer_reserve :: "buf \<Rightarrow> int \<Rightarrow> (mongo_error, buf) res" where
  "buffer_reserve b sz = reserve_body b sz"

definition write_int32_m :: "buf \<Rightarrow> 32 word \<Rightarrow> (mongo_error, buf) res" where
  "write_int32_m b uv = rbind (buffer_reserve b 4) (\<lambda>b. push_bytes b (le32 uv))"

definition write_bytes_m :: "buf \<Rightarrow> bytes \<Rightarrow> (mongo_error, buf) res" where
  "write_bytes_m b src = rbind (buffer_reserve b (to_int32 (int (length src)))) (\<lambda>b.
     rbind (memcpy_end b src) (\<lambda>b. Inr (b\<lparr>b_size := b_size b + length src\<rparr>)))"

definition write_string_m :: "buf \<Rightarrow> bytes \<Rightarrow> (mongo_error, buf) res" where
  "write_string_m b key = rbind (buffer_reserve b (to_int32 (int (length key) + 1))) (\<lambda>b.
     rbind (memcpy_end b key) (\<lambda>b.
     rbind (put b (b_size b + length key) 0) (\<lambda>b.
     Inr (b\<lparr>b_size := b_size b + (length key + 1)\<rparr>))))"

definition reserve_length_m :: "buf \<Rightarrow> (mongo_error, nat \<times> buf) res" where
  "reserve_length_m b = rbind (buffer_reserve b 4) (\<lambda>b'.
     Inr (b_size b, b'\<lparr>b_size := b_size b' + 4\<rparr>))"

definition write_length_m :: "buf \<Rightarrow> 32 word \<Rightarrow> nat \<Rightarrow> (mongo_error, buf) res" where
  "write_length_m b uv off = puts b off (le32 uv)"

section \<open>Messages\<close>

text \<open>Arguments of the Lua functions: integers are narrowed to \<open>int\<close>.\<close>

definition check_int_m :: "lua_env \<Rightarrow> nat \<Rightarrow> lval \<Rightarrow> (mongo_error, 32 word) res" where
  "check_int_m L n v = (case lua_tointegerx L v of
     None \<Rightarrow> Inl (Raise (MBadArgument n)) | Some i \<Rightarrow> Inr (ucast i))"

definition check_string_m :: "lua_env \<Rightarrow> nat \<Rightarrow> lval \<Rightarrow> (mongo_error, bytes) res" where
  "check_string_m L n v = (case lua_tolstring L v of
     None \<Rightarrow> Inl (Raise (MBadArgument n)) | Some s \<Rightarrow> Inr s)"

text \<open>
  \<open>luaL_addlstring(&b, doc, len)\<close>: the bytes of a document; \<open>len\<close> is an \<open>int32_t\<close> that becomes a
  \<open>size_t\<close> (\<open>doc_bytes_at\<close>), or a \<open>uint32_t\<close> (\<open>doc_bytes_u\<close>).
\<close>

definition copy_doc :: "document \<Rightarrow> int \<Rightarrow> (mongo_error, bytes) res" where
  "copy_doc d n = (case d of (m, p) \<Rightarrow>
     if n = 0 then Inr []
     else if n < 0 \<or> int (length m) < int p + n then Inl (UB OutOfBounds)
     else Inr (take (nat n) (drop p m)))"

text \<open>The fixed part of every message: request id, response id, operation code.\<close>

definition query_fields :: "32 word \<Rightarrow> 32 word \<Rightarrow> bytes \<Rightarrow> 32 word \<Rightarrow> 32 word \<Rightarrow> buf \<Rightarrow> (mongo_error, buf) res" where
  "query_fields rid flags name skip number buf =
     rbind (write_int32_m buf rid) (\<lambda>buf.
     rbind (write_int32_m buf 0) (\<lambda>buf.
     rbind (write_int32_m buf OP_QUERY) (\<lambda>buf.
     rbind (write_int32_m buf flags) (\<lambda>buf.
     rbind (write_string_m buf name) (\<lambda>buf.
     rbind (write_int32_m buf skip) (\<lambda>buf.
     write_int32_m buf number))))))"

definition op_query :: "lua_env \<Rightarrow> lval \<Rightarrow> lval \<Rightarrow> lval \<Rightarrow> lval \<Rightarrow> lval \<Rightarrow> document option \<Rightarrow> document option \<Rightarrow>
    (mongo_error, bytes) res" where
  "op_query L a1 a2 a3 a4 a5 query selector =
     rbind (check_int_m L 1 a1) (\<lambda>rid.
     case query of None \<Rightarrow> Inl (Raise RequireQuery) | Some q \<Rightarrow>
     rbind (check_int_m L 2 a2) (\<lambda>flags.
     rbind (check_string_m L 3 a3) (\<lambda>name.
     rbind (check_int_m L 4 a4) (\<lambda>skip.
     rbind (check_int_m L 5 a5) (\<lambda>number.
     rbind (reserve_length_m buffer_create) (\<lambda>(len, buf).
     rbind (query_fields rid flags name skip number buf) (\<lambda>buf.
     rbind (get_length_m q) (\<lambda>ql. let query_len = sint ql in
     rbind (c_int (int (b_size buf) + query_len)) (\<lambda>total.
     rbind (case selector of None \<Rightarrow> Inr (0, total) | Some s \<Rightarrow>
              rbind (get_length_m s) (\<lambda>sl. rbind (c_int (total + sint sl)) (\<lambda>t. Inr (sint sl, t))))
       (\<lambda>(selector_len, total).
     rbind (write_length_m buf (word_of_int total) len) (\<lambda>buf.
     rbind (read_out buf) (\<lambda>head.
     rbind (copy_doc q query_len) (\<lambda>qs.
     rbind (case selector of None \<Rightarrow> Inr [] | Some s \<Rightarrow> copy_doc s selector_len) (\<lambda>ss.
     Inr (head @ qs @ ss)))))))))))))))"

definition kill_fields :: "bytes \<Rightarrow> buf \<Rightarrow> (mongo_error, buf) res" where
  "kill_fields cursor_id buf =
     rbind (write_int32_m buf 0) (\<lambda>buf.
     rbind (write_int32_m buf 0) (\<lambda>buf.
     rbind (write_int32_m buf OP_KILL_CURSORS) (\<lambda>buf.
     rbind (write_int32_m buf 0) (\<lambda>buf.
     rbind (write_int32_m buf 1) (\<lambda>buf.
     write_bytes_m buf cursor_id)))))"

text \<open>The cursor id is what \<open>luaL_tolstring\<close> makes of the argument.\<close>

definition op_kill :: "bytes \<Rightarrow> (mongo_error, bytes) res" where
  "op_kill cursor_id =
     (if length cursor_id \<noteq> 8 then Inl (Raise InvalidCursorId) else
      rbind (reserve_length_m buffer_create) (\<lambda>(len, buf).
      rbind (kill_fields cursor_id buf) (\<lambda>buf.
      rbind (write_length_m buf (of_nat (b_size buf)) len) (\<lambda>buf.
      read_out buf))))"

definition delete_fields :: "bytes \<Rightarrow> 32 word \<Rightarrow> buf \<Rightarrow> (mongo_error, buf) res" where
  "delete_fields name single buf =
     rbind (write_int32_m buf 0) (\<lambda>buf.
     rbind (write_int32_m buf 0) (\<lambda>buf.
     rbind (write_int32_m buf OP_DELETE) (\<lambda>buf.
     rbind (write_int32_m buf 0) (\<lambda>buf.
     rbind (write_string_m buf name) (\<lambda>buf.
     write_int32_m buf single)))))"

definition op_delete :: "lua_env \<Rightarrow> lval \<Rightarrow> lval \<Rightarrow> document option \<Rightarrow> (mongo_error, bytes) res" where
  "op_delete L a1 a2 selector =
     (case selector of None \<Rightarrow> Inl (Raise InvalidParam) | Some s \<Rightarrow>
     rbind (check_string_m L 1 a1) (\<lambda>name.
     rbind (reserve_length_m buffer_create) (\<lambda>(len, buf).
     rbind (delete_fields name (ucast (lua_tointeger L a2)) buf) (\<lambda>buf.
     rbind (get_length_m s) (\<lambda>sl.
     rbind (c_int (int (b_size buf) + sint sl)) (\<lambda>total.
     rbind (write_length_m buf (word_of_int total) len) (\<lambda>buf.
     rbind (read_out buf) (\<lambda>head.
     rbind (copy_doc s (sint sl)) (\<lambda>ss.
     Inr (head @ ss))))))))))"

definition more_fields :: "32 word \<Rightarrow> bytes \<Rightarrow> 32 word \<Rightarrow> bytes \<Rightarrow> buf \<Rightarrow> (mongo_error, buf) res" where
  "more_fields rid name number cursor_id buf =
     rbind (write_int32_m buf rid) (\<lambda>buf.
     rbind (write_int32_m buf 0) (\<lambda>buf.
     rbind (write_int32_m buf OP_GET_MORE) (\<lambda>buf.
     rbind (write_int32_m buf 0) (\<lambda>buf.
     rbind (write_string_m buf name) (\<lambda>buf.
     rbind (write_int32_m buf number) (\<lambda>buf.
     write_bytes_m buf cursor_id))))))"

definition op_get_more :: "lua_env \<Rightarrow> lval \<Rightarrow> lval \<Rightarrow> lval \<Rightarrow> bytes \<Rightarrow> (mongo_error, bytes) res" where
  "op_get_more L a1 a2 a3 cursor_id =
     rbind (check_int_m L 1 a1) (\<lambda>rid.
     rbind (check_string_m L 2 a2) (\<lambda>name.
     rbind (check_int_m L 3 a3) (\<lambda>number.
     if length cursor_id \<noteq> 8 then Inl (Raise InvalidCursorId) else
     rbind (reserve_length_m buffer_create) (\<lambda>(len, buf).
     rbind (more_fields rid name number cursor_id buf) (\<lambda>buf.
     rbind (write_length_m buf (of_nat (b_size buf)) len) (\<lambda>buf.
     read_out buf))))))"

definition update_fields :: "bytes \<Rightarrow> 32 word \<Rightarrow> buf \<Rightarrow> (mongo_error, buf) res" where
  "update_fields name flags buf =
     rbind (write_int32_m buf 0) (\<lambda>buf.
     rbind (write_int32_m buf 0) (\<lambda>buf.
     rbind (write_int32_m buf OP_UPDATE) (\<lambda>buf.
     rbind (write_int32_m buf 0) (\<lambda>buf.
     rbind (write_string_m buf name) (\<lambda>buf.
     write_int32_m buf flags)))))"

definition op_update :: "lua_env \<Rightarrow> lval \<Rightarrow> lval \<Rightarrow> document option \<Rightarrow> document option \<Rightarrow> (mongo_error, bytes) res" where
  "op_update L a1 a2 selector update =
     (case (selector, update) of (Some s, Some u) \<Rightarrow>
       rbind (check_string_m L 1 a1) (\<lambda>name.
       rbind (reserve_length_m buffer_create) (\<lambda>(len, buf).
       rbind (update_fields name (ucast (lua_tointeger L a2)) buf) (\<lambda>buf.
       rbind (get_length_m s) (\<lambda>sl.
       rbind (get_length_m u) (\<lambda>ul.
       rbind (c_int (int (b_size buf) + sint sl)) (\<lambda>t.
       rbind (c_int (t + sint ul)) (\<lambda>total.
       rbind (write_length_m buf (word_of_int total) len) (\<lambda>buf.
       rbind (read_out buf) (\<lambda>head.
       rbind (copy_doc s (sint sl)) (\<lambda>ss.
       rbind (copy_doc u (sint ul)) (\<lambda>us.
       Inr (head @ ss @ us))))))))))))
     | _ \<Rightarrow> Inl (Raise InvalidParam))"

text \<open>
  The documents of an insert: one userdata, a table of userdata (\<open>None\<close> for an entry that is none),
  or something else.
\<close>

datatype insert_arg = OneDocument document | Documents "document option list" | NoDocuments

text \<open>\<open>total += get_length(doc)\<close>: the sum is unsigned, its result narrows to \<open>int\<close>.\<close>

fun documents_length :: "nat \<Rightarrow> int \<Rightarrow> document option list \<Rightarrow> (mongo_error, int) res" where
  "documents_length i acc [] = Inr acc"
| "documents_length i acc (None # ds) = Inl (Raise (InvalidDocumentAt i))"
| "documents_length i acc (Some d # ds) = rbind (get_length_m d) (\<lambda>l.
     documents_length (i + 1) (to_int32 (acc + uint l)) ds)"

definition document_length :: "insert_arg \<Rightarrow> (mongo_error, int) res" where
  "document_length arg = (case arg of
     OneDocument d \<Rightarrow> rbind (get_length_m d) (\<lambda>l. Inr (sint l))
   | Documents ds \<Rightarrow> documents_length 1 0 ds
   | NoDocuments \<Rightarrow> Inl (Raise NeedDocuments))"

fun copy_documents :: "document option list \<Rightarrow> (mongo_error, bytes) res" where
  "copy_documents [] = Inr []"
| "copy_documents (None # ds) = Inl (UB NullDeref)"
| "copy_documents (Some d # ds) = rbind (get_length_m d) (\<lambda>l. rbind (copy_doc d (uint l)) (\<lambda>bs.
     rbind (copy_documents ds) (\<lambda>rest. Inr (bs @ rest))))"

definition insert_fields :: "32 word \<Rightarrow> bytes \<Rightarrow> buf \<Rightarrow> (mongo_error, buf) res" where
  "insert_fields flags name buf =
     rbind (write_int32_m buf 0) (\<lambda>buf.
     rbind (write_int32_m buf 0) (\<lambda>buf.
     rbind (write_int32_m buf OP_INSERT) (\<lambda>buf.
     rbind (write_int32_m buf flags) (\<lambda>buf.
     write_string_m buf name))))"

definition op_insert :: "lua_env \<Rightarrow> lval \<Rightarrow> lval \<Rightarrow> insert_arg \<Rightarrow> (mongo_error, bytes) res" where
  "op_insert L a1 a2 docs =
     rbind (check_string_m L 2 a2) (\<lambda>name.
     rbind (document_length docs) (\<lambda>dsz.
     rbind (reserve_length_m buffer_create) (\<lambda>(len, buf).
     rbind (insert_fields (ucast (lua_tointeger L a1)) name buf) (\<lambda>buf.
     rbind (c_int (int (b_size buf) + dsz)) (\<lambda>total.
     rbind (write_length_m buf (word_of_int total) len) (\<lambda>buf.
     rbind (read_out buf) (\<lambda>head.
     rbind (case docs of
         OneDocument d \<Rightarrow> rbind (get_length_m d) (\<lambda>l. copy_doc d (uint l))
       | Documents ds \<Rightarrow> copy_documents ds
       | NoDocuments \<Rightarrow> Inr []) (\<lambda>ds.
     Inr (head @ ds)))))))))"

section \<open>Replies\<close>

text \<open>
  \<open>reply_length\<close> copies four bytes from a Lua string, whose bytes are followed by one zero byte.
\<close>

definition reply_length :: "bytes \<Rightarrow> (mongo_error, int) res" where
  "reply_length s = (if length s < 3 then Inl (UB OutOfBounds)
     else c_int (sint (of_le32 (take 4 (s @ [0]))) - 4))"

text \<open>
  What \<open>op_reply\<close> returns: \<open>false\<close> alone; \<open>false\<close>, the id and the error document; \<open>false\<close> and the id;
  or \<open>true\<close>, the id, the first document, the cursor and the number of the first document. Documents
  are offsets into the data. The second component is the table of documents (\<open>None\<close>: no table was
  given), which the call fills.
\<close>

datatype reply_result =
    ReplyTooShort
  | QueryFailure "32 word" nat
  | WrongNumber "32 word"
  | Reply "32 word" "nat option" "bytes option" "32 word"

definition reply_field :: "bytes \<Rightarrow> nat \<Rightarrow> 32 word" where
  "reply_field data off = little_endian (of_le32 (take 4 (drop off data)))"

text \<open>
  The loop over the documents of a reply: \<open>sz\<close> bytes are left at offset \<open>doc\<close>. A length of zero
  leaves both unchanged, so the number of rounds is an argument.
\<close>

fun reply_loop :: "nat \<Rightarrow> bytes \<Rightarrow> int \<Rightarrow> int \<Rightarrow> int list \<Rightarrow> (mongo_error, int \<times> int list) res" where
  "reply_loop 0 data doc sz found = Inl (UB Diverges)"
| "reply_loop (Suc fuel) data doc sz found =
     (if sz \<le> 4 then Inr (sz, found) else
      if doc < 0 \<or> int (length data) < doc + 4 then Inl (UB OutOfBounds) else
      let doc_len = sint (of_le32 (take 4 (drop (nat doc) data))) in
      rbind (c_int (sz - doc_len)) (\<lambda>sz. reply_loop fuel data (doc + doc_len) sz (found @ [doc])))"

definition op_reply :: "nat \<Rightarrow> bytes \<Rightarrow> int list option \<Rightarrow> (mongo_error, reply_result \<times> int list option) res" where
  "op_reply fuel data table =
     (if length data < 32 then Inr (ReplyTooShort, table) else
      let rid = reply_field data 4; flags = reply_field data 12 in
      if flags AND 2 \<noteq> 0 then Inr (QueryFailure rid 32, table) else
      let starting_from = reply_field data 24; number = reply_field data 28;
          sz = to_int32 (int (length data) - 32);
          finish = (\<lambda>sz table. if sz \<noteq> 0 then Inl (Raise InvalidResult) else
            Inr (Reply rid (if number = 0 then None else Some 32)
              (if take 8 (drop 16 data) = replicate 8 0 then None else Some (take 8 (drop 16 data)))
              starting_from, table))
      in case table of
        Some old \<Rightarrow>
          rbind (reply_loop fuel data 32 sz []) (\<lambda>(sz, docs).
          rbind (c_int (sint number + 1)) (\<lambda>expected.
          if int (length docs) + 1 \<noteq> expected
          then Inr (WrongNumber rid, Some (docs @ drop (length docs) old))
          else finish sz (Some docs)))
      | None \<Rightarrow>
          if 4 \<le> sz then rbind (get_length_m (data, 32)) (\<lambda>l. finish (to_int32 (sz - uint l)) None)
          else finish sz None)"

section \<open>The layout of messages\<close>

interpretation mongo_buf: grow_buffer "buffer_reserve :: buf \<Rightarrow> int \<Rightarrow> (mongo_error, buf) res"
  by unfold_locales
    (auto simp: buffer_reserve_def reserve_body_no_raise intro: reserve_body_ok dest: reserve_body_partial)

lemma buffer_create_ok: "buf_ok buffer_create" "content buffer_create = []" "b_size buffer_create = 0"
  by (auto simp: buffer_create_def buf_ok_def content_def intro: exI [of _ 7])

named_theorems mwrites "the byte string each writer of the driver appends"

lemma write_int32_m_refines [mwrites]: "buf_ok b \<Longrightarrow> refines (write_int32_m b v) b (Inr (le32 v))"
  using mongo_buf.word_refines [of b "le32 v"] by (simp add: write_int32_m_def)

lemma write_string_m_refines [mwrites]: "buf_ok b \<Longrightarrow> refines (write_string_m b key) b (Inr (key @ [0]))"
  unfolding write_string_m_def by (rule mongo_buf.string_refines)

lemma write_bytes_m_refines [mwrites]: "buf_ok b \<Longrightarrow> refines (write_bytes_m b src) b (Inr src)"
  unfolding write_bytes_m_def by (rule mongo_buf.block_refines)

text \<open>Writers in sequence, as one byte string.\<close>

lemma refines_seq:
  assumes "buf_ok b" and "refines r b (Inr bs)" and "\<And>b'. buf_ok b' \<Longrightarrow> refines (f b') b' (Inr cs)"
  shows "refines (rbind r f) b (Inr (bs @ cs))"
  using refines_then [OF assms(1,2), of f "Inr cs"] assms(3) by simp

lemma query_fields_refines:
  "buf_ok b \<Longrightarrow> refines (query_fields rid flags name skip number b) b
     (Inr (le32 rid @ le32 0 @ le32 OP_QUERY @ le32 flags @ (name @ [0]) @ le32 skip @ le32 number))"
  unfolding query_fields_def by (intro refines_seq mwrites)

lemma kill_fields_refines:
  "buf_ok b \<Longrightarrow> refines (kill_fields cid b) b
     (Inr (le32 0 @ le32 0 @ le32 OP_KILL_CURSORS @ le32 0 @ le32 1 @ cid))"
  unfolding kill_fields_def by (intro refines_seq mwrites)

lemma delete_fields_refines:
  "buf_ok b \<Longrightarrow> refines (delete_fields name single b) b
     (Inr (le32 0 @ le32 0 @ le32 OP_DELETE @ le32 0 @ (name @ [0]) @ le32 single))"
  unfolding delete_fields_def by (intro refines_seq mwrites)

lemma more_fields_refines:
  "buf_ok b \<Longrightarrow> refines (more_fields rid name number cid b) b
     (Inr (le32 rid @ le32 0 @ le32 OP_GET_MORE @ le32 0 @ (name @ [0]) @ le32 number @ cid))"
  unfolding more_fields_def by (intro refines_seq mwrites)

lemma update_fields_refines:
  "buf_ok b \<Longrightarrow> refines (update_fields name flags b) b
     (Inr (le32 0 @ le32 0 @ le32 OP_UPDATE @ le32 0 @ (name @ [0]) @ le32 flags))"
  unfolding update_fields_def by (intro refines_seq mwrites)

lemma insert_fields_refines:
  "buf_ok b \<Longrightarrow> refines (insert_fields flags name b) b
     (Inr (le32 0 @ le32 0 @ le32 OP_INSERT @ le32 flags @ (name @ [0])))"
  unfolding insert_fields_def by (intro refines_seq mwrites)

text \<open>
  The frame of a message around its fields, the length field reserved first and patched last. What
  the length field says is the total the code computes from the size of the buffer.
\<close>

lemma message_head:
  assumes f: "\<And>b. buf_ok b \<Longrightarrow> refines (f b) b (Inr body)" and small: "int (length body) + 4 < buf_limit"
  obtains b1 b2 where "reserve_length_m buffer_create = Inr (0, b1)" and "f b1 = Inr b2"
    and "b_size b2 = 4 + length body"
    and "\<And>v k. rbind (write_length_m b2 v 0) (\<lambda>b. rbind (read_out b) k) =
       (k (le32 v @ body) :: (mongo_error, bytes) res)"
proof -
  let ?b1 = "buffer_create\<lparr>b_size := 4\<rparr>"
  have r: "reserve_length_m buffer_create = Inr (0, ?b1)"
    by (simp add: reserve_length_m_def buffer_reserve_def reserve_body_def buffer_create_def)
  have b1: "buf_ok ?b1" "content ?b1 = replicate 4 None"
    by (auto simp: buffer_create_def buf_ok_def content_def intro: exI [of _ 7])
  have "fits ?b1 (length body)" using small by (simp add: fits_def)
  from refines_ok [OF f [OF b1(1)] this]
  obtain b2 where b2: "f ?b1 = Inr b2" "buf_ok b2" "content b2 = [] @ replicate 4 None @ map Some body"
    using b1(2) by auto
  have size: "b_size b2 = 4 + length body" using length_content [OF b2(2)] b2(3) by simp
  have "rbind (write_length_m b2 v 0) (\<lambda>b. rbind (read_out b) k) = k (le32 v @ body)"
    for v and k :: "bytes \<Rightarrow> (mongo_error, bytes) res"
  proof -
    obtain b3 where b3: "(puts b2 0 (le32 v) :: (mongo_error, buf) res) = Inr b3" "buf_ok b3"
        "content b3 = map Some (le32 v @ body)"
      using puts_patch [OF b2(2,3), of "le32 v", where 'e = mongo_error] by auto
    then have "(read_out b3 :: (mongo_error, bytes) res) = Inr (le32 v @ body)"
      by (intro read_out_Some) (auto simp: buf_ok_def)
    then show ?thesis using b3(1) by (simp add: write_length_m_def)
  qed
  then show ?thesis using that r b2(1) size by blast
qed

text \<open>
  A message is its length and its body. \<open>doc_at d p\<close>: the pointer \<open>d\<close> points to the document \<open>p\<close>,
  whose length field is right.
\<close>

definition message :: "bytes \<Rightarrow> bytes" where
  "message body = le32 (of_nat (length body + 4)) @ body"

definition doc_at :: "document \<Rightarrow> bytes \<Rightarrow> bool" where
  "doc_at d p \<longleftrightarrow> (case d of (m, off) \<Rightarrow> \<exists>pre post. m = pre @ p @ post \<and> length pre = off) \<and>
     4 \<le> length p \<and> int (length p) \<le> INT_MAX \<and> take 4 p = le32 (of_nat (length p))"

lemma length_message [simp]: "length (message body) = length body + 4"
  by (simp add: message_def)

lemma doc_at_length:
  assumes "doc_at d p"
  shows "get_length_m d = Inr (of_nat (length p))" and "sint (of_nat (length p) :: 32 word) = int (length p)"
    and "uint (of_nat (length p) :: 32 word) = int (length p)"
    and "copy_doc d (int (length p)) = Inr p"
proof -
  obtain m off where d: "d = (m, off)" by (cases d)
  then obtain pre post where m: "m = pre @ p @ post" "length pre = off" using assms by (auto simp: doc_at_def)
  have p: "4 \<le> length p" "int (length p) \<le> INT_MAX" "take 4 p = le32 (of_nat (length p))"
    using assms by (auto simp: doc_at_def)
  show "get_length_m d = Inr (of_nat (length p))"
    using d m p(1) by (simp add: get_length_m_def p(3))
  show "sint (of_nat (length p) :: 32 word) = int (length p)" using sint32_of_int [of "int (length p)"] p(2) by simp
  show "uint (of_nat (length p) :: 32 word) = int (length p)"
    using p(2) by (simp add: unsigned_of_nat take_bit_nat_eq_self)
  show "copy_doc d (int (length p)) = Inr p"
    using d m p(1) by (simp add: copy_doc_def)
qed

lemma word_of_total: "word_of_int (int n) = (of_nat n :: 32 word)"
  by simp

lemma op_query_message:
  assumes args: "lua_tointegerx L a1 = Some rid" "lua_tointegerx L a2 = Some flags" "lua_tolstring L a3 = Some name"
      "lua_tointegerx L a4 = Some skip" "lua_tointegerx L a5 = Some number"
    and q: "doc_at q qs" and sel: "case selector of None \<Rightarrow> ss = [] | Some d \<Rightarrow> doc_at d ss"
    and body: "body = le32 (ucast rid) @ le32 0 @ le32 OP_QUERY @ le32 (ucast flags) @ (name @ [0]) @
      le32 (ucast skip) @ le32 (ucast number)"
    and small: "int (length (message (body @ qs @ ss))) < buf_limit"
  shows "op_query L a1 a2 a3 a4 a5 (Some q) selector = Inr (message (body @ qs @ ss))"
proof -
  have "int (length body) + 4 < buf_limit" using small by simp
  from message_head [OF query_fields_refines this [unfolded body]]
  obtain b1 b2 where b: "reserve_length_m buffer_create = Inr (0, b1)"
      "query_fields (ucast rid) (ucast flags) name (ucast skip) (ucast number) b1 = Inr b2"
      "b_size b2 = 4 + length body"
      "\<And>v k. rbind (write_length_m b2 v 0) (\<lambda>b. rbind (read_out b) k) = (k (le32 v @ body) :: (mongo_error, bytes) res)"
    unfolding body by blast
  note ql = doc_at_length [OF q]
  let ?n = "4 + length body + length qs + length ss"
  have n: "int ?n < buf_limit" using small by simp
  have c1: "(c_int (int (b_size b2) + int (length qs)) :: (mongo_error, int) res) = Inr (int (4 + length body + length qs))"
    using n b(3) by simp
  have c2: "(case selector of None \<Rightarrow> Inr (0, int (4 + length body + length qs)) | Some s \<Rightarrow>
      rbind (get_length_m s) (\<lambda>sl. rbind (c_int (int (4 + length body + length qs) + sint sl)) (\<lambda>t. Inr (sint sl, t)))) =
      (Inr (int (length ss), int ?n) :: (mongo_error, int \<times> int) res)"
    using sel n by (auto simp: doc_at_length split: option.splits)
  have c3: "(case selector of None \<Rightarrow> Inr [] | Some s \<Rightarrow> copy_doc s (int (length ss))) = Inr ss"
    using sel by (auto simp: doc_at_length split: option.splits)
  show ?thesis
    unfolding op_query_def check_int_m_def check_string_m_def args option.case rbind.simps b(1,2) prod.case
      ql Let_def c1 c2 b(4) c3
    by (simp add: message_def add.commute add.left_commute)
qed

lemma op_kill_message:
  assumes "length cid = 8"
  shows "op_kill cid = Inr (message (le32 0 @ le32 0 @ le32 OP_KILL_CURSORS @ le32 0 @ le32 1 @ cid))"
proof -
  let ?body = "le32 0 @ le32 0 @ le32 OP_KILL_CURSORS @ le32 0 @ le32 1 @ cid"
  have "int (length ?body) + 4 < buf_limit" using assms by simp
  from message_head [OF kill_fields_refines this]
  obtain b1 b2 where b: "reserve_length_m buffer_create = Inr (0, b1)" "kill_fields cid b1 = Inr b2"
      "b_size b2 = 4 + length ?body"
      "\<And>v k. rbind (write_length_m b2 v 0) (\<lambda>b. rbind (read_out b) k) = (k (le32 v @ ?body) :: (mongo_error, bytes) res)"
    by blast
  then show ?thesis using assms b(4) [of _ Inr] by (simp add: op_kill_def message_def add.commute)
qed

lemma op_get_more_message:
  assumes args: "lua_tointegerx L a1 = Some rid" "lua_tolstring L a2 = Some name" "lua_tointegerx L a3 = Some number"
    and "length cid = 8"
    and body: "body = le32 (ucast rid) @ le32 0 @ le32 OP_GET_MORE @ le32 0 @ (name @ [0]) @ le32 (ucast number) @ cid"
    and small: "int (length (message body)) < buf_limit"
  shows "op_get_more L a1 a2 a3 cid = Inr (message body)"
proof -
  have "int (length body) + 4 < buf_limit" using small by simp
  from message_head [OF more_fields_refines this [unfolded body]]
  obtain b1 b2 where b: "reserve_length_m buffer_create = Inr (0, b1)"
      "more_fields (ucast rid) name (ucast number) cid b1 = Inr b2" "b_size b2 = 4 + length body"
      "\<And>v k. rbind (write_length_m b2 v 0) (\<lambda>b. rbind (read_out b) k) = (k (le32 v @ body) :: (mongo_error, bytes) res)"
    unfolding body by blast
  then show ?thesis using assms(4) args b(4) [of _ Inr]
    by (simp add: op_get_more_def check_int_m_def check_string_m_def message_def add.commute)
qed

lemma op_delete_message:
  assumes args: "lua_tolstring L a1 = Some name" and s: "doc_at s ss"
    and body: "body = le32 0 @ le32 0 @ le32 OP_DELETE @ le32 0 @ (name @ [0]) @ le32 (ucast (lua_tointeger L a2))"
    and small: "int (length (message (body @ ss))) < buf_limit"
  shows "op_delete L a1 a2 (Some s) = Inr (message (body @ ss))"
proof -
  have "int (length body) + 4 < buf_limit" using small by simp
  from message_head [OF delete_fields_refines this [unfolded body]]
  obtain b1 b2 where b: "reserve_length_m buffer_create = Inr (0, b1)"
      "delete_fields name (ucast (lua_tointeger L a2)) b1 = Inr b2" "b_size b2 = 4 + length body"
      "\<And>v k. rbind (write_length_m b2 v 0) (\<lambda>b. rbind (read_out b) k) = (k (le32 v @ body) :: (mongo_error, bytes) res)"
    unfolding body by blast
  have c: "(c_int (int (b_size b2) + int (length ss)) :: (mongo_error, int) res) = Inr (int (4 + length body + length ss))"
    using small b(3) by simp
  show ?thesis
    unfolding op_delete_def check_string_m_def args option.case rbind.simps b(1,2) prod.case doc_at_length [OF s] c b(4)
    by (simp add: message_def add.commute add.left_commute)
qed

lemma op_update_message:
  assumes args: "lua_tolstring L a1 = Some name" and s: "doc_at s ss" and u: "doc_at u us"
    and body: "body = le32 0 @ le32 0 @ le32 OP_UPDATE @ le32 0 @ (name @ [0]) @ le32 (ucast (lua_tointeger L a2))"
    and small: "int (length (message (body @ ss @ us))) < buf_limit"
  shows "op_update L a1 a2 (Some s) (Some u) = Inr (message (body @ ss @ us))"
proof -
  have "int (length body) + 4 < buf_limit" using small by simp
  from message_head [OF update_fields_refines this [unfolded body]]
  obtain b1 b2 where b: "reserve_length_m buffer_create = Inr (0, b1)"
      "update_fields name (ucast (lua_tointeger L a2)) b1 = Inr b2" "b_size b2 = 4 + length body"
      "\<And>v k. rbind (write_length_m b2 v 0) (\<lambda>b. rbind (read_out b) k) = (k (le32 v @ body) :: (mongo_error, bytes) res)"
    unfolding body by blast
  have c: "(c_int (int (b_size b2) + int (length ss)) :: (mongo_error, int) res) = Inr (int (4 + length body + length ss))"
    "(c_int (int (4 + length body + length ss) + int (length us)) :: (mongo_error, int) res) =
      Inr (int (4 + length body + length ss + length us))"
    using small b(3) by simp_all
  show ?thesis
    unfolding op_update_def check_string_m_def args option.case rbind.simps b(1,2) prod.case
      doc_at_length [OF s] doc_at_length [OF u] c b(4)
    by (simp add: message_def add.commute add.left_commute)
qed

text \<open>The documents of an insert, in order.\<close>

lemma documents_length_eq:
  "list_all2 (\<lambda>d p. \<exists>x. d = Some x \<and> doc_at x p) ds ps \<Longrightarrow> 0 \<le> acc \<Longrightarrow> acc + int (length (concat ps)) \<le> INT_MAX \<Longrightarrow>
   documents_length i acc ds = Inr (acc + int (length (concat ps)))"
  by (induction ds ps arbitrary: i acc rule: list_all2_induct)
     (auto simp: doc_at_length algebra_simps)

lemma copy_documents_eq:
  "list_all2 (\<lambda>d p. \<exists>x. d = Some x \<and> doc_at x p) ds ps \<Longrightarrow> copy_documents ds = Inr (concat ps)"
  by (induction ds ps rule: list_all2_induct) (auto simp: doc_at_length)

lemma op_insert_message:
  assumes args: "lua_tolstring L a2 = Some name"
    and docs: "(\<exists>d p. docs = OneDocument d \<and> doc_at d p \<and> ps = [p]) \<or>
      (\<exists>ds. docs = Documents ds \<and> list_all2 (\<lambda>d p. \<exists>x. d = Some x \<and> doc_at x p) ds ps)"
    and body: "body = le32 0 @ le32 0 @ le32 OP_INSERT @ le32 (ucast (lua_tointeger L a1)) @ (name @ [0])"
    and small: "int (length (message (body @ concat ps))) < buf_limit"
  shows "op_insert L a1 a2 docs = Inr (message (body @ concat ps))"
proof -
  have "int (length body) + 4 < buf_limit" using small by simp
  from message_head [OF insert_fields_refines this [unfolded body]]
  obtain b1 b2 where b: "reserve_length_m buffer_create = Inr (0, b1)"
      "insert_fields (ucast (lua_tointeger L a1)) name b1 = Inr b2" "b_size b2 = 4 + length body"
      "\<And>v k. rbind (write_length_m b2 v 0) (\<lambda>b. rbind (read_out b) k) = (k (le32 v @ body) :: (mongo_error, bytes) res)"
    unfolding body by blast
  let ?n = "length (concat ps)"
  have n: "int (4 + length body + ?n) < buf_limit" using small by simp
  have c1: "document_length docs = Inr (int ?n)"
    using docs documents_length_eq [of _ ps 0 1] n by (auto simp: document_length_def doc_at_length)
  have c2: "(c_int (int (b_size b2) + int ?n) :: (mongo_error, int) res) = Inr (int (4 + length body + ?n))"
    using n b(3) by simp
  have c3: "(case docs of OneDocument d \<Rightarrow> rbind (get_length_m d) (\<lambda>l. copy_doc d (uint l))
      | Documents ds \<Rightarrow> copy_documents ds | NoDocuments \<Rightarrow> Inr []) = Inr (concat ps)"
    using docs copy_documents_eq by (auto simp: doc_at_length)
  show ?thesis
    unfolding op_insert_def check_string_m_def args option.case rbind.simps b(1,2) prod.case c1 c2 c3 b(4)
    by (simp add: message_def add.commute add.left_commute)
qed

section \<open>Reading replies\<close>

fun doc_offsets :: "nat \<Rightarrow> bytes list \<Rightarrow> int list" where
  "doc_offsets off [] = []"
| "doc_offsets off (p # ps) = int off # doc_offsets (off + length p) ps"

definition framed :: "bytes \<Rightarrow> bool" where
  "framed p \<longleftrightarrow> 5 \<le> length p \<and> take 4 p = le32 (of_nat (length p))"

lemma length_doc_offsets [simp]: "length (doc_offsets off ps) = length ps"
  by (induction ps arbitrary: off) auto

lemma reply_loop_docs:
  "(\<forall>p \<in> set ps. framed p) \<Longrightarrow> data = pre @ concat ps \<Longrightarrow> int (length data) \<le> INT_MAX \<Longrightarrow> length ps < fuel \<Longrightarrow>
   reply_loop fuel data (int (length pre)) (int (length (concat ps))) found =
     Inr (0, found @ doc_offsets (length pre) ps)"
proof (induction ps arbitrary: pre fuel found)
  case Nil
  then show ?case by (cases fuel) auto
next
  case (Cons p ps)
  obtain f where f: "fuel = Suc f" using Cons.prems(4) by (cases fuel) auto
  have p: "5 \<le> length p" "take 4 p = le32 (of_nat (length p))" using Cons.prems(1) by (auto simp: framed_def)
  have l: "sint (of_nat (length p) :: 32 word) = int (length p)"
    using sint32_of_int [of "int (length p)"] Cons.prems(2,3) by simp
  have "reply_loop f data (int (length (pre @ p))) (int (length (concat ps))) (found @ [int (length pre)]) =
      Inr (0, (found @ [int (length pre)]) @ doc_offsets (length (pre @ p)) ps)"
    by (rule Cons.IH) (use Cons.prems f in auto)
  moreover have "int (length (concat ps)) \<le> INT_MAX" using Cons.prems(2,3) by simp
  ultimately show ?case using Cons.prems(2) p(1) f by (simp add: p(2) l Let_def)
qed

text \<open>A reply message without its length field, as the driver hands it to \<open>op_reply\<close>.\<close>

definition reply_bytes :: "32 word \<Rightarrow> 32 word \<Rightarrow> 32 word \<Rightarrow> 32 word \<Rightarrow> bytes \<Rightarrow> 32 word \<Rightarrow> 32 word \<Rightarrow> bytes list \<Rightarrow> bytes" where
  "reply_bytes req resp opcode flags cursor starting number ps =
     (le32 req @ le32 resp @ le32 opcode @ le32 flags @ cursor @ le32 starting @ le32 number) @ concat ps"

lemma op_reply_docs:
  assumes ps: "\<forall>p \<in> set ps. framed p" and cur: "length cursor = 8"
    and flags: "flags AND 2 = 0" and number: "sint number < INT_MAX"
    and data: "data = reply_bytes req resp opcode flags cursor starting number ps"
    and small: "int (length data) \<le> INT_MAX" and fuel: "length ps < fuel"
  shows "op_reply fuel data (Some old) =
    (if sint number = int (length ps)
     then Inr (Reply resp (if ps = [] then None else Some 32)
       (if cursor = replicate 8 0 then None else Some cursor) starting, Some (doc_offsets 32 ps))
     else Inr (WrongNumber resp, Some (doc_offsets 32 ps @ drop (length ps) old)))"
proof -
  let ?h = "le32 req @ le32 resp @ le32 opcode @ le32 flags @ cursor @ le32 starting @ le32 number"
  have d: "data = ?h @ concat ps" by (simp add: data reply_bytes_def)
  have h: "length ?h = 32" using cur by simp
  have fields: "reply_field data 4 = resp" "reply_field data 12 = flags" "reply_field data 24 = starting"
    "reply_field data 28 = number" "take 8 (drop 16 data) = cursor"
    unfolding d reply_field_def little_endian_def using cur by simp_all
  have sz: "to_int32 (int (length data) - 32) = int (length (concat ps))"
    using small h unfolding d by simp
  have loop: "reply_loop fuel data 32 (int (length (concat ps))) [] = Inr (0, doc_offsets 32 ps)"
    using reply_loop_docs [OF ps d small fuel, of "[]"] h by simp
  have "\<not> length data < 32" using h d by simp
  moreover have "(c_int (sint number + 1) :: (mongo_error, int) res) = Inr (sint number + 1)"
    using number sint32_range(1) [of number] by simp
  moreover have "number = 0 \<longleftrightarrow> ps = []" if "sint number = int (length ps)"
  proof
    assume "ps = []"
    then have "sint number = sint (0 :: 32 word)" using that by simp
    then show "number = 0" by (rule signed_word_eqI)
  qed (use that in simp)
  ultimately show ?thesis
    unfolding op_reply_def Let_def fields sz using flags by (auto simp: loop)
qed

section \<open>The protocol\<close>

text \<open>The empty document, an environment without conversions, and the arguments of the instances below.\<close>

definition empty_doc :: bytes where
  "empty_doc = [5, 0, 0, 0, 0]"

definition no_env :: lua_env where
  "no_env = \<lparr>num_str = (\<lambda>_. []), num_int = (\<lambda>_. None), str_int = (\<lambda>_. None),
     int_num = (\<lambda>_. 0), str_num = (\<lambda>_. None), stack_levels = 200\<rparr>"

lemma empty_doc_at: "length pre = off \<Longrightarrow> doc_at (pre @ empty_doc @ post, off) empty_doc"
  by (auto simp: doc_at_def empty_doc_def le32_def)

lemma empty_doc_at0: "doc_at (empty_doc, 0) empty_doc"
  using empty_doc_at [of "[]" 0 "[]"] by simp

text \<open>
  C18. \<open>op_query\<close> returns a well-formed OP_QUERY message: the length field says the length of the
  whole message, then request id, zero, operation code, flags, the name with its zero byte, skip,
  number, the query document and the selector when there is one. (Messages below 1 GiB.)
\<close>

theorem op_query_layout:
  assumes "lua_tointegerx L a1 = Some rid" and "lua_tointegerx L a2 = Some flags" and "lua_tolstring L a3 = Some name"
    and "lua_tointegerx L a4 = Some skip" and "lua_tointegerx L a5 = Some number"
    and "doc_at q qs" and "case selector of None \<Rightarrow> ss = [] | Some d \<Rightarrow> doc_at d ss"
    and "body = le32 (ucast rid) @ le32 0 @ le32 OP_QUERY @ le32 (ucast flags) @ (name @ [0]) @
      le32 (ucast skip) @ le32 (ucast number)"
    and "int (length (message (body @ qs @ ss))) < buf_limit"
  shows "op_query L a1 a2 a3 a4 a5 (Some q) selector = Inr (message (body @ qs @ ss))"
  by (rule op_query_message [OF assms])

theorem op_query_layout_witness:
  "op_query no_env (LInt 9) (LInt 0) (LStr [97]) (LInt 0) (LInt 1) (Some (empty_doc, 0)) None =
     Inr (le32 35 @ le32 9 @ le32 0 @ le32 OP_QUERY @ le32 0 @ [97, 0] @ le32 0 @ le32 1 @ empty_doc)"
  using op_query_layout [of no_env "LInt 9" 9 "LInt 0" 0 "LStr [97]" "[97]" "LInt 0" 0 "LInt 1" 1
      "(empty_doc, 0)" empty_doc "[]" None, OF _ _ _ _ _ empty_doc_at0 _ refl]
  by (simp add: message_def empty_doc_def)

text \<open>
  C19. \<open>op_insert\<close> returns a well-formed OP_INSERT message for one document and for a table of
  documents: length, zeros, operation code, flags, the name, and the documents in order.
\<close>

theorem op_insert_layout:
  assumes "lua_tolstring L a2 = Some name"
    and "(\<exists>d p. docs = OneDocument d \<and> doc_at d p \<and> ps = [p]) \<or>
      (\<exists>ds. docs = Documents ds \<and> list_all2 (\<lambda>d p. \<exists>x. d = Some x \<and> doc_at x p) ds ps)"
    and "body = le32 0 @ le32 0 @ le32 OP_INSERT @ le32 (ucast (lua_tointeger L a1)) @ (name @ [0])"
    and "int (length (message (body @ concat ps))) < buf_limit"
  shows "op_insert L a1 a2 docs = Inr (message (body @ concat ps))"
  by (rule op_insert_message [OF assms])

theorem op_insert_layout_witness:
  "op_insert no_env (LInt 0) (LStr [97]) (Documents [Some (empty_doc, 0), Some ([1, 1] @ empty_doc, 2)]) =
     Inr (le32 32 @ le32 0 @ le32 0 @ le32 OP_INSERT @ le32 0 @ [97, 0] @ empty_doc @ empty_doc)"
  using op_insert_layout [of no_env "LStr [97]" "[97]" "Documents [Some (empty_doc, 0), Some ([1, 1] @ empty_doc, 2)]"
      "[empty_doc, empty_doc]" _ "LInt 0", OF _ _ refl] empty_doc_at0 empty_doc_at [of "[1, 1]" 2 "[]"]
  by (simp add: message_def) (simp add: empty_doc_def)

text \<open>
  C20. \<open>op_update\<close> returns a well-formed OP_UPDATE message: length, zeros, operation code, zero, the
  name, the flags, the selector and the update document.
\<close>

theorem op_update_layout:
  assumes "lua_tolstring L a1 = Some name" and "doc_at s ss" and "doc_at u us"
    and "body = le32 0 @ le32 0 @ le32 OP_UPDATE @ le32 0 @ (name @ [0]) @ le32 (ucast (lua_tointeger L a2))"
    and "int (length (message (body @ ss @ us))) < buf_limit"
  shows "op_update L a1 a2 (Some s) (Some u) = Inr (message (body @ ss @ us))"
  by (rule op_update_message [OF assms])

theorem op_update_layout_witness:
  "op_update no_env (LStr [97]) (LInt 1) (Some (empty_doc, 0)) (Some (empty_doc, 0)) =
     Inr (le32 36 @ le32 0 @ le32 0 @ le32 OP_UPDATE @ le32 0 @ [97, 0] @ le32 1 @ empty_doc @ empty_doc)"
  using op_update_layout [of no_env "LStr [97]" "[97]", OF _ empty_doc_at0 empty_doc_at0 refl, of "LInt 1"]
  by (simp add: message_def) (simp add: empty_doc_def)

text \<open>
  C21. \<open>op_delete\<close> returns a well-formed OP_DELETE message: length, zeros, operation code, zero, the
  name, the single-remove flag and the selector.
\<close>

theorem op_delete_layout:
  assumes "lua_tolstring L a1 = Some name" and "doc_at s ss"
    and "body = le32 0 @ le32 0 @ le32 OP_DELETE @ le32 0 @ (name @ [0]) @ le32 (ucast (lua_tointeger L a2))"
    and "int (length (message (body @ ss))) < buf_limit"
  shows "op_delete L a1 a2 (Some s) = Inr (message (body @ ss))"
  by (rule op_delete_message [OF assms])

theorem op_delete_layout_witness:
  "op_delete no_env (LStr [97]) (LInt 1) (Some (empty_doc, 0)) =
     Inr (le32 31 @ le32 0 @ le32 0 @ le32 OP_DELETE @ le32 0 @ [97, 0] @ le32 1 @ empty_doc)"
  using op_delete_layout [of no_env "LStr [97]" "[97]", OF _ empty_doc_at0 refl, of "LInt 1"]
  by (simp add: message_def) (simp add: empty_doc_def)

text \<open>
  C22. \<open>op_get_more\<close> and \<open>op_kill\<close> return well-formed messages around the eight bytes of a cursor,
  and refuse a cursor of any other length.
\<close>

theorem cursor_messages_layout:
  assumes "lua_tointegerx L a1 = Some rid" and "lua_tolstring L a2 = Some name" and "lua_tointegerx L a3 = Some number"
    and "body = le32 (ucast rid) @ le32 0 @ le32 OP_GET_MORE @ le32 0 @ (name @ [0]) @ le32 (ucast number) @ cid"
    and "int (length (message body)) < buf_limit"
  shows "op_get_more L a1 a2 a3 cid = (if length cid = 8 then Inr (message body) else Inl (Raise InvalidCursorId)) \<and>
    op_kill cid = (if length cid = 8
      then Inr (message (le32 0 @ le32 0 @ le32 OP_KILL_CURSORS @ le32 0 @ le32 1 @ cid))
      else Inl (Raise InvalidCursorId))"
proof (cases "length cid = 8")
  case True
  then show ?thesis using op_get_more_message [OF assms(1-3) True assms(4,5)] op_kill_message [OF True] by simp
next
  case False
  then show ?thesis using assms(1-3)
    by (simp add: op_get_more_def op_kill_def check_int_m_def check_string_m_def)
qed

theorem cursor_messages_layout_witness:
  "op_kill [1, 2, 3, 4, 5, 6, 7, 8] =
     Inr (le32 32 @ le32 0 @ le32 0 @ le32 OP_KILL_CURSORS @ le32 0 @ le32 1 @ [1, 2, 3, 4, 5, 6, 7, 8])"
  using cursor_messages_layout [of no_env "LInt 1" 1 "LStr [97]" "[97]" "LInt 1" 1, OF _ _ _ refl, of "[1, 2, 3, 4, 5, 6, 7, 8]"]
  by (simp add: message_def)

text \<open>
  C23. \<open>op_reply\<close> on a well-formed reply fills the table with the offsets of all documents of the
  reply, in order, and clears the entries behind them; it returns the id of the request, the first
  document, the cursor (nil when all its bytes are zero) and the starting position. When the number
  of documents differs from the one the header announces, it reports failure.
\<close>

theorem op_reply_parses:
  assumes "\<forall>p \<in> set ps. framed p" and "length cursor = 8" and "flags AND 2 = 0" and "sint number < INT_MAX"
    and "data = reply_bytes req resp opcode flags cursor starting number ps"
    and "int (length data) \<le> INT_MAX" and "length ps < fuel"
  shows "op_reply fuel data (Some old) =
    (if sint number = int (length ps)
     then Inr (Reply resp (if ps = [] then None else Some 32)
       (if cursor = replicate 8 0 then None else Some cursor) starting, Some (doc_offsets 32 ps))
     else Inr (WrongNumber resp, Some (doc_offsets 32 ps @ drop (length ps) old)))"
  by (rule op_reply_docs [OF assms])

theorem op_reply_parses_witness:
  "op_reply 10 (reply_bytes 1 2 1 8 (replicate 8 0) 0 2 [empty_doc, empty_doc]) (Some [1, 2, 3]) =
     Inr (Reply 2 (Some 32) None 0, Some [32, 37])"
proof -
  have "framed empty_doc" by (simp add: framed_def empty_doc_def le32_def)
  then show ?thesis
    using op_reply_parses [of "[empty_doc, empty_doc]" "replicate 8 0" 8 2, OF _ _ _ _ refl, of 1 2 1 0 10 "[1, 2, 3]"]
    by (simp add: reply_bytes_def empty_doc_def)
qed

text \<open>
  A document of length zero in a reply makes the loop of \<open>op_reply\<close> endless: neither the
  position nor the number of bytes left changes, and every round stores one more entry.
\<close>

theorem op_reply_endless_loop:
  "op_reply fuel (replicate 40 0) (Some old) = Inl (UB Diverges)"
proof -
  have "reply_loop n (replicate 40 0) 32 8 found = Inl (UB Diverges)" for n found
    by (induction n arbitrary: found) (simp_all add: numeral_eq_Suc Let_def)
  moreover have "of_le32 (replicate 4 0) = 0" by (simp add: numeral_eq_Suc)
  ultimately show ?thesis by (simp add: op_reply_def reply_field_def little_endian_def Let_def)
qed

text \<open>
  The length the driver reads off the first four bytes of a message is the number of bytes that
  follow, for every message below 2 GiB.
\<close>

theorem reply_length_of_message:
  assumes "int (length (message body)) \<le> INT_MAX"
  shows "reply_length (take 4 (message body)) = Inr (int (length body))"
proof -
  have "sint (of_nat (length body + 4) :: 32 word) = int (length body + 4)"
    using sint32_of_int [of "int (length body + 4)"] assms by simp
  then have "sint (of_le32 (le32 (of_nat (length body + 4)))) - 4 = int (length body)"
    by (simp del: of_nat_add)
  then show ?thesis using assms unfolding reply_length_def message_def
    by (simp del: of_nat_add)
qed

theorem reply_length_of_message_witness: "reply_length (take 4 (message [1, 2, 3])) = Inr 3"
  using reply_length_of_message [of "[1, 2, 3]"] by simp

end
