(* ===== verification/Http_Url.thy ===== *)
theory Http_Url
  imports Lua_Values
begin

text \<open>
  The URL parser of \<open>deps/http-parser/http_parser.c\<close>: \<open>parse_url_char\<close>, \<open>http_parse_host_char\<close>,
  \<open>http_parse_host\<close> and \<open>http_parser_parse_url\<close>, with the character classes they use and the structure
  \<open>http_parser_url\<close> they fill. \<open>strict\<close> is the build option \<open>HTTP_PARSER_STRICT\<close> (levent builds with 0).
  The lemmas show that the parser reads nothing outside the URL, and takes a printed URL apart.
\<close>

section \<open>Characters\<close>

datatype http_error = BadArg nat | ConcatError | AssertionFailed

definition char_byte :: "char \<Rightarrow> byte" where
  "char_byte c = of_char c"

definition LOWER :: "byte \<Rightarrow> byte" where
  "LOWER c = c OR 0x20"

definition IS_ALPHA :: "byte \<Rightarrow> bool" where
  "IS_ALPHA c \<longleftrightarrow> char_byte CHR ''a'' \<le> LOWER c \<and> LOWER c \<le> char_byte CHR ''z''"

definition IS_NUM :: "byte \<Rightarrow> bool" where
  "IS_NUM c \<longleftrightarrow> char_byte CHR ''0'' \<le> c \<and> c \<le> char_byte CHR ''9''"

definition IS_ALPHANUM :: "byte \<Rightarrow> bool" where
  "IS_ALPHANUM c \<longleftrightarrow> IS_ALPHA c \<or> IS_NUM c"

definition IS_HEX :: "byte \<Rightarrow> bool" where
  "IS_HEX c \<longleftrightarrow> IS_NUM c \<or> char_byte CHR ''a'' \<le> LOWER c \<and> LOWER c \<le> char_byte CHR ''f''"

definition IS_MARK :: "byte \<Rightarrow> bool" where
  "IS_MARK c \<longleftrightarrow> c \<in> set (map char_byte ''-_.!~*()'') \<or> c = 39"

definition IS_USERINFO_CHAR :: "byte \<Rightarrow> bool" where
  "IS_USERINFO_CHAR c \<longleftrightarrow> IS_ALPHANUM c \<or> IS_MARK c \<or> c \<in> set (map char_byte ''%;:&=+$,'')"

definition IS_HOST_CHAR :: "bool \<Rightarrow> byte \<Rightarrow> bool" where
  "IS_HOST_CHAR strict c \<longleftrightarrow> IS_ALPHANUM c \<or> c = char_byte CHR ''.'' \<or> c = char_byte CHR ''-'' \<or>
     \<not> strict \<and> c = char_byte CHR ''_''"

text \<open>
  The bitmap of characters that end no part of a URL: tab and form feed only without \<open>strict\<close>, then
  everything from \<open>!\<close> to \<open>~\<close> but \<open>#\<close> and \<open>?\<close>.
\<close>

definition normal_url_char :: "bool \<Rightarrow> byte list" where
  "normal_url_char strict = [0, if strict then 0 else 2 OR 16, 0, 0,
     0 OR 2 OR 4 OR 0 OR 16 OR 32 OR 64 OR 128, 255, 255, 1 OR 2 OR 4 OR 8 OR 16 OR 32 OR 64,
     255, 255, 255, 255, 255, 255, 255, 1 OR 2 OR 4 OR 8 OR 16 OR 32 OR 64] @ replicate 16 0"

definition BIT_AT :: "byte list \<Rightarrow> byte \<Rightarrow> bool" where
  "BIT_AT a i \<longleftrightarrow> (a ! unat (drop_bit 3 i)) AND (push_bit (unat (i AND 7)) 1) \<noteq> 0"

definition IS_URL_CHAR :: "bool \<Rightarrow> byte \<Rightarrow> bool" where
  "IS_URL_CHAR strict c \<longleftrightarrow> BIT_AT (normal_url_char strict) c \<or> \<not> strict \<and> c AND 0x80 \<noteq> 0"

section \<open>States\<close>

datatype state = s_dead
  | s_start_req_or_res | s_res_or_resp_H | s_start_res | s_res_H | s_res_HT | s_res_HTT | s_res_HTTP
  | s_res_first_http_major | s_res_http_major | s_res_first_http_minor | s_res_http_minor
  | s_res_first_status_code | s_res_status_code | s_res_status_start | s_res_status | s_res_line_almost_done
  | s_start_req | s_req_method | s_req_spaces_before_url | s_req_schema | s_req_schema_slash
  | s_req_schema_slash_slash | s_req_server_start | s_req_server | s_req_server_with_at | s_req_path
  | s_req_query_string_start | s_req_query_string | s_req_fragment_start | s_req_fragment
  | s_req_http_start | s_req_http_H | s_req_http_HT | s_req_http_HTT | s_req_http_HTTP
  | s_req_first_http_major | s_req_http_major | s_req_first_http_minor | s_req_http_minor
  | s_req_line_almost_done | s_header_field_start | s_header_field | s_header_value_discard_ws
  | s_header_value_discard_ws_almost_done | s_header_value_discard_lws | s_header_value_start
  | s_header_value | s_header_value_lws | s_header_almost_done | s_chunk_size_start | s_chunk_size
  | s_chunk_parameters | s_chunk_size_almost_done | s_headers_almost_done | s_headers_done
  | s_chunk_data | s_chunk_data_almost_done | s_chunk_data_done | s_body_identity | s_body_identity_eof
  | s_message_done

definition parse_url_char :: "bool \<Rightarrow> state \<Rightarrow> byte \<Rightarrow> state" where
  "parse_url_char strict s ch =
     (if ch = 32 \<or> ch = 13 \<or> ch = 10 then s_dead
      else if strict \<and> (ch = 9 \<or> ch = 12) then s_dead
      else if s = s_req_spaces_before_url then
        (if ch = char_byte CHR ''/'' \<or> ch = char_byte CHR ''*'' then s_req_path
         else if IS_ALPHA ch then s_req_schema else s_dead)
      else if s = s_req_schema then
        (if IS_ALPHA ch then s else if ch = char_byte CHR '':'' then s_req_schema_slash else s_dead)
      else if s = s_req_schema_slash then
        (if ch = char_byte CHR ''/'' then s_req_schema_slash_slash else s_dead)
      else if s = s_req_schema_slash_slash then
        (if ch = char_byte CHR ''/'' then s_req_server_start else s_dead)
      else if s = s_req_server_with_at \<and> ch = char_byte CHR ''@'' then s_dead
      else if s = s_req_server_with_at \<or> s = s_req_server_start \<or> s = s_req_server then
        (if ch = char_byte CHR ''/'' then s_req_path
         else if ch = char_byte CHR ''?'' then s_req_query_string_start
         else if ch = char_byte CHR ''@'' then s_req_server_with_at
         else if IS_USERINFO_CHAR ch \<or> ch = char_byte CHR ''['' \<or> ch = char_byte CHR '']'' then s_req_server
         else s_dead)
      else if s = s_req_path then
        (if IS_URL_CHAR strict ch then s
         else if ch = char_byte CHR ''?'' then s_req_query_string_start
         else if ch = char_byte CHR ''#'' then s_req_fragment_start else s_dead)
      else if s = s_req_query_string_start \<or> s = s_req_query_string then
        (if IS_URL_CHAR strict ch then s_req_query_string
         else if ch = char_byte CHR ''?'' then s_req_query_string
         else if ch = char_byte CHR ''#'' then s_req_fragment_start else s_dead)
      else if s = s_req_fragment_start then
        (if IS_URL_CHAR strict ch then s_req_fragment
         else if ch = char_byte CHR ''?'' then s_req_fragment
         else if ch = char_byte CHR ''#'' then s else s_dead)
      else if s = s_req_fragment then
        (if IS_URL_CHAR strict ch then s
         else if ch = char_byte CHR ''?'' \<or> ch = char_byte CHR ''#'' then s else s_dead)
      else s_dead)"

section \<open>The parts of a URL\<close>

text \<open>
  \<open>struct http_parser_url\<close>: a bit per part that is present, and its offset and length, 16 bits each;
  \<open>None\<close> is a member that has not been written yet.
\<close>

record parser_url =
  field_set :: "16 word"
  port :: "16 word"
  f_off :: "nat \<Rightarrow> 16 word option"
  f_len :: "nat \<Rightarrow> 16 word option"

abbreviation (input) UF_SCHEMA :: nat where "UF_SCHEMA \<equiv> 0"
abbreviation (input) UF_HOST :: nat where "UF_HOST \<equiv> 1"
abbreviation (input) UF_PORT :: nat where "UF_PORT \<equiv> 2"
abbreviation (input) UF_PATH :: nat where "UF_PATH \<equiv> 3"
abbreviation (input) UF_QUERY :: nat where "UF_QUERY \<equiv> 4"
abbreviation (input) UF_FRAGMENT :: nat where "UF_FRAGMENT \<equiv> 5"
abbreviation (input) UF_USERINFO :: nat where "UF_USERINFO \<equiv> 6"
abbreviation (input) UF_MAX :: nat where "UF_MAX \<equiv> 7"

definition blank_url :: parser_url where
  "blank_url = \<lparr>field_set = 0, port = 0, f_off = (\<lambda>_. None), f_len = (\<lambda>_. None)\<rparr>"

text \<open>A part starts at a position, with a length; one more byte belongs to it; its bit is set.\<close>

definition begin_field :: "nat \<Rightarrow> nat \<Rightarrow> 16 word \<Rightarrow> parser_url \<Rightarrow> parser_url" where
  "begin_field uf pos n u = u\<lparr>f_off := (f_off u)(uf := Some (of_nat pos)), f_len := (f_len u)(uf := Some n)\<rparr>"

definition grow_field :: "nat \<Rightarrow> parser_url \<Rightarrow> parser_url" where
  "grow_field uf u = u\<lparr>f_len := (f_len u)(uf := map_option (\<lambda>n. n + 1) (f_len u uf))\<rparr>"

definition mark_field :: "nat \<Rightarrow> parser_url \<Rightarrow> parser_url" where
  "mark_field uf u = u\<lparr>field_set := field_set u OR push_bit uf 1\<rparr>"

definition has_field :: "parser_url \<Rightarrow> nat \<Rightarrow> bool" where
  "has_field u uf \<longleftrightarrow> field_set u AND push_bit uf 1 \<noteq> 0"

section \<open>The host part\<close>

datatype http_host_state = s_http_host_dead | s_http_userinfo_start | s_http_userinfo | s_http_host_start
  | s_http_host_v6_start | s_http_host | s_http_host_v6 | s_http_host_v6_end | s_http_host_port_start
  | s_http_host_port

fun http_parse_host_char :: "bool \<Rightarrow> http_host_state \<Rightarrow> byte \<Rightarrow> http_host_state" where
  "http_parse_host_char strict s_http_userinfo ch = (if ch = char_byte CHR ''@'' then s_http_host_start
     else if IS_USERINFO_CHAR ch then s_http_userinfo else s_http_host_dead)"
| "http_parse_host_char strict s_http_userinfo_start ch = (if ch = char_byte CHR ''@'' then s_http_host_start
     else if IS_USERINFO_CHAR ch then s_http_userinfo else s_http_host_dead)"
| "http_parse_host_char strict s_http_host_start ch = (if ch = char_byte CHR ''['' then s_http_host_v6_start
     else if IS_HOST_CHAR strict ch then s_http_host else s_http_host_dead)"
| "http_parse_host_char strict s_http_host ch = (if IS_HOST_CHAR strict ch then s_http_host
     else if ch = char_byte CHR '':'' then s_http_host_port_start else s_http_host_dead)"
| "http_parse_host_char strict s_http_host_v6_end ch = (if ch = char_byte CHR '':'' then s_http_host_port_start
     else s_http_host_dead)"
| "http_parse_host_char strict s_http_host_v6 ch = (if ch = char_byte CHR '']'' then s_http_host_v6_end
     else if IS_HEX ch \<or> ch = char_byte CHR '':'' \<or> ch = char_byte CHR ''.'' then s_http_host_v6 else s_http_host_dead)"
| "http_parse_host_char strict s_http_host_v6_start ch =
     (if IS_HEX ch \<or> ch = char_byte CHR '':'' \<or> ch = char_byte CHR ''.'' then s_http_host_v6 else s_http_host_dead)"
| "http_parse_host_char strict s_http_host_port ch = (if IS_NUM ch then s_http_host_port else s_http_host_dead)"
| "http_parse_host_char strict s_http_host_port_start ch = (if IS_NUM ch then s_http_host_port else s_http_host_dead)"
| "http_parse_host_char strict s_http_host_dead ch = s_http_host_dead"

text \<open>One round of the loop: from state \<open>s\<close> at position \<open>pos\<close> to the new state.\<close>

definition host_update :: "nat \<Rightarrow> http_host_state \<Rightarrow> http_host_state \<Rightarrow> parser_url \<Rightarrow> parser_url" where
  "host_update pos s s' u =
     (if s' = s_http_host then
        grow_field UF_HOST (if s \<noteq> s_http_host then u\<lparr>f_off := (f_off u)(UF_HOST := Some (of_nat pos))\<rparr> else u)
      else if s' = s_http_host_v6 then
        grow_field UF_HOST (if s \<noteq> s_http_host_v6 then u\<lparr>f_off := (f_off u)(UF_HOST := Some (of_nat pos))\<rparr> else u)
      else if s' = s_http_host_port then
        grow_field UF_PORT (if s \<noteq> s_http_host_port then mark_field UF_PORT (begin_field UF_PORT pos 0 u) else u)
      else if s' = s_http_userinfo then
        grow_field UF_USERINFO (if s \<noteq> s_http_userinfo then mark_field UF_USERINFO (begin_field UF_USERINFO pos 0 u) else u)
      else u)"

fun host_loop :: "bool \<Rightarrow> nat \<Rightarrow> bytes \<Rightarrow> http_host_state \<Rightarrow> parser_url \<Rightarrow> (http_host_state \<times> parser_url) option" where
  "host_loop strict pos [] s u = Some (s, u)"
| "host_loop strict pos (ch # rest) s u = (let s' = http_parse_host_char strict s ch in
     if s' = s_http_host_dead then None else host_loop strict (pos + 1) rest s' (host_update pos s s' u))"

text \<open>\<open>None\<close> is the return value 1. The members of \<open>UF_HOST\<close> are read whether or not they have been written.\<close>

definition http_parse_host :: "bool \<Rightarrow> bytes \<Rightarrow> parser_url \<Rightarrow> bool \<Rightarrow> (http_error, parser_url option) res" where
  "http_parse_host strict buf u found_at = (case (f_off u UF_HOST, f_len u UF_HOST) of
     (Some off, Some len) \<Rightarrow>
       if length buf < unat off + unat len then Inl (UB OutOfBounds) else
       let s = (if found_at then s_http_userinfo_start else s_http_host_start);
           u = u\<lparr>f_len := (f_len u)(UF_HOST := Some 0)\<rparr> in
       Inr (case host_loop strict (unat off) (take (unat len) (drop (unat off) buf)) s u of
         None \<Rightarrow> None
       | Some (s, u) \<Rightarrow> if s \<in> {s_http_host_start, s_http_host_v6_start, s_http_host_v6, s_http_host_port_start,
             s_http_userinfo, s_http_userinfo_start} then None else Some u)
   | _ \<Rightarrow> Inl (UB UninitRead))"

section \<open>The whole URL\<close>

text \<open>What a state means for the parts: an error, a delimiter, or a byte of a part.\<close>

datatype url_step = Stop | Delimiter | Part nat

definition url_step :: "state \<Rightarrow> url_step" where
  "url_step s =
     (if s = s_dead then Stop
      else if s \<in> {s_req_schema_slash, s_req_schema_slash_slash, s_req_server_start, s_req_query_string_start,
        s_req_fragment_start} then Delimiter
      else if s = s_req_schema then Part UF_SCHEMA
      else if s = s_req_server_with_at \<or> s = s_req_server then Part UF_HOST
      else if s = s_req_path then Part UF_PATH
      else if s = s_req_query_string then Part UF_QUERY
      else if s = s_req_fragment then Part UF_FRAGMENT
      else Stop)"

fun url_loop :: "bool \<Rightarrow> nat \<Rightarrow> bytes \<Rightarrow> state \<Rightarrow> nat \<Rightarrow> bool \<Rightarrow> parser_url \<Rightarrow> (bool \<times> parser_url) option" where
  "url_loop strict pos [] s old_uf found_at u = Some (found_at, u)"
| "url_loop strict pos (ch # rest) s old_uf found_at u = (let s = parse_url_char strict s ch in
     case url_step s of
       Stop \<Rightarrow> None
     | Delimiter \<Rightarrow> url_loop strict (pos + 1) rest s old_uf found_at u
     | Part uf \<Rightarrow> (let found_at = (found_at \<or> s = s_req_server_with_at) in
         if uf = old_uf then url_loop strict (pos + 1) rest s old_uf found_at (grow_field uf u)
         else url_loop strict (pos + 1) rest s uf found_at (mark_field uf (begin_field uf pos 1 u))))"

text \<open>\<open>strtoul(s, NULL, 10)\<close> on a 64-bit \<open>unsigned long\<close>.\<close>

definition clamp_ulong :: "nat \<Rightarrow> 64 word" where
  "clamp_ulong n = (if n < 2 ^ 64 then of_nat n else - 1)"

definition strtoul :: "bytes \<Rightarrow> 64 word" where
  "strtoul s = (case dropWhile (\<lambda>b. b = 32 \<or> 9 \<le> b \<and> b \<le> 13) s of
     [] \<Rightarrow> 0
   | b # bs \<Rightarrow> if b = 45 then (if digits_val 0 bs < 2 ^ 64 then - clamp_ulong (digits_val 0 bs) else - 1)
              else if b = 43 then clamp_ulong (digits_val 0 bs)
              else clamp_ulong (digits_val 0 (b # bs)))"

text \<open>
  \<open>None\<close> is a non-zero return value. The structure is a local variable of the caller that has not been
  initialised; a C string ends behind the buffer.
\<close>

definition read_port :: "bytes \<Rightarrow> parser_url \<Rightarrow> (http_error, parser_url option) res" where
  "read_port buf u = (if has_field u UF_PORT then
       (case f_off u UF_PORT of None \<Rightarrow> Inl (UB UninitRead)
        | Some off \<Rightarrow>
            if length buf < unat off then Inl (UB OutOfBounds) else
            let v = strtoul (drop (unat off) buf) in
            Inr (if 0xffff < v then None else Some (u\<lparr>port := ucast v\<rparr>)))
     else Inr (Some u))"

definition http_parser_parse_url :: "bool \<Rightarrow> bytes \<Rightarrow> bool \<Rightarrow> (http_error, parser_url option) res" where
  "http_parser_parse_url strict buf is_connect =
     (case url_loop strict 0 buf (if is_connect then s_req_server_start else s_req_spaces_before_url)
         UF_MAX False blank_url of
        None \<Rightarrow> Inr None
      | Some (found_at, u) \<Rightarrow>
          rbind (if has_field u UF_SCHEMA \<or> has_field u UF_HOST then http_parse_host strict buf u found_at
            else Inr (Some u)) (\<lambda>r. case r of
            None \<Rightarrow> Inr None
          | Some u \<Rightarrow>
              if is_connect \<and> field_set u \<noteq> push_bit UF_HOST 1 OR push_bit UF_PORT 1 then Inr None
              else read_port buf u))"

section \<open>Bits and parts\<close>

lemma has_field_bit: "has_field u uf \<longleftrightarrow> bit (field_set u) uf"
  by (simp add: has_field_def bit_iff_and_push_bit_not_eq_0)

named_theorems url_simps "what the writes to the structure change"

lemma has_field_simps [url_simps]:
  "\<not> has_field blank_url uf"
  "has_field (begin_field uf pos n u) uf' \<longleftrightarrow> has_field u uf'"
  "has_field (grow_field uf u) uf' \<longleftrightarrow> has_field u uf'"
  "uf < 16 \<Longrightarrow> has_field (mark_field uf u) uf' \<longleftrightarrow> uf' = uf \<or> has_field u uf'"
  "has_field (u\<lparr>f_off := a\<rparr>) uf' \<longleftrightarrow> has_field u uf'"
  "has_field (u\<lparr>f_len := a\<rparr>) uf' \<longleftrightarrow> has_field u uf'"
  "has_field (u\<lparr>port := v\<rparr>) uf' \<longleftrightarrow> has_field u uf'"
  by (auto simp: has_field_bit blank_url_def begin_field_def grow_field_def mark_field_def
      bit_or_iff bit_push_bit_iff bit_1_iff bit_exp_iff)

lemma f_off_simps [url_simps]:
  "f_off (begin_field uf pos n u) uf' = (if uf' = uf then Some (of_nat pos) else f_off u uf')"
  "f_off (grow_field uf u) = f_off u" "f_off (mark_field uf u) = f_off u"
  by (simp_all add: begin_field_def grow_field_def mark_field_def)

lemma f_len_simps [url_simps]:
  "f_len (begin_field uf pos n u) uf' = (if uf' = uf then Some n else f_len u uf')"
  "f_len (grow_field uf u) uf' = (if uf' = uf then map_option (\<lambda>n. n + 1) (f_len u uf') else f_len u uf')"
  "f_len (mark_field uf u) = f_len u"
  by (simp_all add: begin_field_def grow_field_def mark_field_def)

section \<open>Every part lies in the URL\<close>

text \<open>
  A part that is present has been given an offset and a length that are, modulo 2^16, those of a
  stretch of the URL before \<open>n\<close>; so the numbers stored lie before \<open>n\<close> as well.
\<close>

definition span :: "parser_url \<Rightarrow> nat \<Rightarrow> nat \<Rightarrow> bool" where
  "span u uf n \<longleftrightarrow> (\<exists>p l. f_off u uf = Some (of_nat p) \<and> f_len u uf = Some (of_nat l) \<and> p + l \<le> n)"

definition spans :: "parser_url \<Rightarrow> nat \<Rightarrow> bool" where
  "spans u n \<longleftrightarrow> (\<forall>uf. has_field u uf \<longrightarrow> span u uf n)"

lemma span_mono: "span u uf n \<Longrightarrow> n \<le> m \<Longrightarrow> span u uf m"
  unfolding span_def by (meson le_trans)

lemma span_begin:
  "p + l \<le> n \<Longrightarrow> span (begin_field uf p (of_nat l) u) uf n"
  "uf' \<noteq> uf \<Longrightarrow> span (begin_field uf p (of_nat l) u) uf' n \<longleftrightarrow> span u uf' n"
  by (auto simp: span_def url_simps)

lemma span_grow:
  assumes "span u uf' n"
  shows "span (grow_field uf u) uf' (n + 1)"
proof -
  obtain p l where *: "f_off u uf' = Some (of_nat p)" "f_len u uf' = Some (of_nat l)" "p + l \<le> n"
    using assms by (auto simp: span_def)
  show ?thesis
    unfolding span_def
    by (rule exI [of _ p], rule exI [of _ "if uf' = uf then l + 1 else l"])
       (use * in \<open>auto simp: url_simps add.commute\<close>)
qed

lemma spans_mono: "spans u n \<Longrightarrow> n \<le> m \<Longrightarrow> spans u m"
  unfolding spans_def by (blast intro: span_mono)

lemma spans_grow: "spans u n \<Longrightarrow> spans (grow_field uf u) (n + 1)"
  unfolding spans_def has_field_simps using span_grow by blast

lemma span_mark: "span (mark_field uf u) uf' n \<longleftrightarrow> span u uf' n"
  by (simp add: span_def url_simps)

lemma spans_begin:
  assumes "spans u n" and "uf < 16" and "p + l \<le> n"
  shows "spans (mark_field uf (begin_field uf p (of_nat l) u)) n"
  unfolding spans_def
proof (intro allI impI)
  fix uf' assume "has_field (mark_field uf (begin_field uf p (of_nat l) u)) uf'"
  then show "span (mark_field uf (begin_field uf p (of_nat l) u)) uf' n"
    using assms by (cases "uf' = uf") (auto simp: span_mark span_begin url_simps spans_def simp del: of_nat_add)
qed

lemma span_stored:
  assumes "span u uf n"
  shows "\<exists>p l. f_off u uf = Some p \<and> f_len u uf = Some l \<and> unat p + unat l \<le> n"
proof -
  obtain p l where *: "f_off u uf = Some (of_nat p)" "f_len u uf = Some (of_nat l)" "p + l \<le> n"
    using assms by (auto simp: span_def)
  have "unat (of_nat p :: 16 word) \<le> p" "unat (of_nat l :: 16 word) \<le> l"
    by (simp_all add: unat_of_nat)
  with * show ?thesis by auto
qed

lemma url_loop_spans:
  "url_loop strict pos cs s old found u = Some (found', u') \<Longrightarrow> spans u pos \<Longrightarrow> spans u' (pos + length cs)"
proof (induction cs arbitrary: pos s old found u)
  case (Cons c cs)
  let ?s = "parse_url_char strict s c"
  have later: "spans u (pos + 1)" using Cons.prems(2) by (rule spans_mono) simp
  show ?case
  proof (cases "url_step ?s")
    case (Part uf)
    have small: "uf < 16" using Part by (auto simp: url_step_def split: if_splits)
    have g: "spans (grow_field uf u) (pos + 1)" using Cons.prems(2) by (rule spans_grow)
    have b: "spans (mark_field uf (begin_field uf pos 1 u)) (pos + 1)"
      using spans_begin [OF later small, of pos 1] by simp
    show ?thesis
    proof (cases "uf = old")
      case True
      then show ?thesis using Cons.IH [of "pos + 1" ?s old _ "grow_field uf u"] Cons.prems(1) Part g
        by (auto simp: Let_def)
    next
      case False
      then show ?thesis using Cons.IH [of "pos + 1" ?s uf _ "mark_field uf (begin_field uf pos 1 u)"] Cons.prems(1) Part b
        by (auto simp: Let_def)
    qed
  qed (use Cons.IH [of "pos + 1" ?s] Cons.prems later in \<open>auto simp: Let_def\<close>)
qed auto

text \<open>
  While the host part is taken apart its members lie before the position reached, the others before
  \<open>n\<close>; the host has length 0 until its first byte has been seen.
\<close>

definition host_limit :: "nat \<Rightarrow> nat \<Rightarrow> nat \<Rightarrow> nat" where
  "host_limit n pos uf = (if uf \<in> {UF_HOST, UF_PORT, UF_USERINFO} then pos else n)"

definition before_host :: "http_host_state \<Rightarrow> bool" where
  "before_host s \<longleftrightarrow> s \<in> {s_http_userinfo_start, s_http_userinfo, s_http_host_start, s_http_host_v6_start}"

definition host_inv :: "nat \<Rightarrow> nat \<Rightarrow> http_host_state \<Rightarrow> parser_url \<Rightarrow> bool" where
  "host_inv n pos s u \<longleftrightarrow> (\<forall>uf. has_field u uf \<longrightarrow> span u uf (host_limit n pos uf)) \<and>
     (before_host s \<longrightarrow> f_len u UF_HOST = Some 0)"

lemma host_char_back: "before_host (http_parse_host_char strict s ch) \<Longrightarrow> before_host s"
  by (cases s) (auto simp: before_host_def split: if_splits)

lemma host_char_enter:
  "http_parse_host_char strict s ch = s_http_host \<Longrightarrow> s \<noteq> s_http_host \<Longrightarrow> before_host s"
  "http_parse_host_char strict s ch = s_http_host_v6 \<Longrightarrow> s \<noteq> s_http_host_v6 \<Longrightarrow> before_host s"
  by (cases s; auto simp: before_host_def split: if_splits)+

lemma span_shift:
  "span u uf n \<Longrightarrow> host_limit m pos uf = n \<Longrightarrow> span u uf (host_limit m (pos + 1) uf)"
  by (rule span_mono) (auto simp: host_limit_def)

lemma span_move:
  assumes "f_len u uf = Some 0"
  shows "span (u\<lparr>f_off := (f_off u)(uf := Some (of_nat pos))\<rparr>) uf pos"
  using assms unfolding span_def by (intro exI [of _ pos] exI [of _ 0]) simp

lemma span_other:
  "uf' \<noteq> uf \<Longrightarrow> span (u\<lparr>f_off := (f_off u)(uf := x)\<rparr>) uf' n \<longleftrightarrow> span u uf' n"
  "uf' \<noteq> uf \<Longrightarrow> span (grow_field uf u) uf' n \<longleftrightarrow> span u uf' n"
  by (simp_all add: span_def url_simps)

lemma counted_part:
  assumes "f = UF_PORT \<or> f = UF_USERINFO" and old: "\<And>uf. has_field u uf \<Longrightarrow> span u uf (host_limit n pos uf)"
    and "v = (if c then mark_field f (begin_field f pos 0 u) else u)" and h: "has_field (grow_field f v) uf"
  shows "span (grow_field f v) uf (host_limit n (pos + 1) uf)"
proof (cases "uf = f")
  case True
  have "span (mark_field f (begin_field f pos 0 u)) f pos"
    using span_begin(1) [of pos 0 pos f u] by (simp add: span_mark)
  moreover have "host_limit n (pos + 1) f = pos + 1" "host_limit n pos f = pos"
    using assms(1) by (auto simp: host_limit_def)
  ultimately show ?thesis
    using True h old [of f] span_grow [of v f pos] assms(3) by (auto simp: url_simps)
next
  case False
  then have u: "has_field u uf" using h assms(1,3) by (auto simp: url_simps split: if_splits)
  then show ?thesis
    using False assms(3) span_begin(2) [of uf f pos 0 u] span_shift [OF old [OF u] refl]
    by (simp add: span_other span_mark)
qed

lemma host_update_inv:
  assumes "host_inv n pos s u" and s': "s' = http_parse_host_char strict s ch"
  shows "host_inv n (pos + 1) s' (host_update pos s s' u)"
proof -
  let ?v = "host_update pos s s' u"
  have zero: "before_host s \<Longrightarrow> f_len u UF_HOST = Some 0" using assms(1) by (simp add: host_inv_def)
  have len: "before_host s' \<Longrightarrow> f_len ?v UF_HOST = Some 0"
    using host_char_back [of strict s ch] zero
    by (auto simp: s' [symmetric] host_update_def url_simps before_host_def)
  have old: "span u uf (host_limit n pos uf)" if "has_field u uf" for uf
    using assms(1) that by (simp add: host_inv_def)
  have enter: "s' = s_http_host \<Longrightarrow> s \<noteq> s_http_host \<Longrightarrow> f_len u UF_HOST = Some 0"
    "s' = s_http_host_v6 \<Longrightarrow> s \<noteq> s_http_host_v6 \<Longrightarrow> f_len u UF_HOST = Some 0"
    using host_char_enter [of strict s ch] zero unfolding s' by blast+
  have "span ?v uf (host_limit n (pos + 1) uf)" if h: "has_field ?v uf" for uf
  proof (cases "s' \<in> {s_http_host, s_http_host_v6}")
    case True
    then have u: "has_field u uf" using h by (auto simp: host_update_def url_simps split: if_splits)
    show ?thesis
    proof (cases "uf = UF_HOST")
      case host: True
      then have "span u UF_HOST pos" using old [OF u] by (simp add: host_limit_def)
      then show ?thesis using True host enter span_grow [OF span_move] span_grow
        by (auto simp: host_update_def host_limit_def simp del: One_nat_def)
    next
      case False
      then show ?thesis using True span_shift [OF old [OF u] refl]
        by (auto simp: host_update_def span_other)
    qed
  next
    case False
    then have "s' = s_http_host_port \<or> s' = s_http_userinfo \<or> ?v = u" by (simp add: host_update_def)
    then consider "s' = s_http_host_port" | "s' = s_http_userinfo" | "?v = u" by blast
    then show ?thesis
    proof cases
      case 3
      then show ?thesis using span_shift [OF old refl] h by simp
    qed (use counted_part [where f = UF_PORT and u = u and n = n and pos = pos and uf = uf]
      counted_part [where f = UF_USERINFO and u = u and n = n and pos = pos and uf = uf] old h
      in \<open>auto simp: host_update_def simp del: One_nat_def\<close>)
  qed
  then show ?thesis using len by (simp add: host_inv_def)
qed


lemma host_loop_inv:
  "host_loop strict pos cs s u = Some (s', u') \<Longrightarrow> host_inv n pos s u \<Longrightarrow> host_inv n (pos + length cs) s' u'"
proof (induction cs arbitrary: pos s u)
  case (Cons c cs)
  let ?s = "http_parse_host_char strict s c"
  have "host_loop strict (pos + 1) cs ?s (host_update pos s ?s u) = Some (s', u')"
    using Cons.prems(1) by (auto simp: Let_def split: if_splits)
  from Cons.IH [OF this host_update_inv [OF Cons.prems(2) refl]] show ?case by simp
qed simp

lemma url_loop_fields:
  "url_loop strict pos cs s old found u = Some (found', u') \<Longrightarrow> has_field u' uf \<Longrightarrow>
   has_field u uf \<or> uf \<in> {UF_SCHEMA, UF_HOST, UF_PATH, UF_QUERY, UF_FRAGMENT}"
proof (induction cs arbitrary: pos s old found u)
  case (Cons c cs)
  let ?s = "parse_url_char strict s c"
  show ?case
  proof (cases "url_step ?s")
    case (Part f)
    have small: "f \<in> {UF_SCHEMA, UF_HOST, UF_PATH, UF_QUERY, UF_FRAGMENT}"
      using Part by (auto simp: url_step_def split: if_splits)
    then have "f < 16" by auto
    then show ?thesis
      using Cons.IH [of "pos + 1" ?s old "found \<or> ?s = s_req_server_with_at" "grow_field f u"]
        Cons.IH [of "pos + 1" ?s f "found \<or> ?s = s_req_server_with_at" "mark_field f (begin_field f pos 1 u)"]
        Cons.prems Part small by (simp add: Let_def url_simps split: if_splits) blast
  qed (use Cons.IH [of "pos + 1" ?s] Cons.prems in \<open>auto simp: Let_def\<close>)
qed simp

lemma host_inv_spans: "host_inv n pos s u \<Longrightarrow> pos \<le> n \<Longrightarrow> spans u n"
  unfolding host_inv_def spans_def host_limit_def by (metis (full_types) span_mono order_refl)

text \<open>What the host parser does to a URL whose parts lie in the buffer; only an unset host is a problem.\<close>

lemma http_parse_host_spans:
  assumes "spans u (length buf)" and host: "has_field u UF_HOST"
    and new: "\<not> has_field u UF_PORT" "\<not> has_field u UF_USERINFO"
  shows "\<exists>r. http_parse_host strict buf u found = Inr r \<and> (\<forall>v. r = Some v \<longrightarrow> spans v (length buf))"
proof -
  obtain off len where o: "f_off u UF_HOST = Some off" and l: "f_len u UF_HOST = Some len"
      and in_buf: "unat off + unat len \<le> length buf"
    using span_stored [of u UF_HOST "length buf"] assms unfolding spans_def by blast
  let ?u = "u\<lparr>f_len := (f_len u)(UF_HOST := Some 0)\<rparr>"
  let ?s = "if found then s_http_userinfo_start else s_http_host_start"
  let ?cs = "take (unat len) (drop (unat off) buf)"
  have "span ?u uf (host_limit (length buf) (unat off) uf)" if "has_field u uf" for uf
  proof (cases "uf = UF_HOST")
    case True
    then show ?thesis using o unfolding span_def host_limit_def
      by (intro exI [of _ "unat off"] exI [of _ 0]) (simp del: One_nat_def)
  next
    case False
    then have "span u uf (length buf)" using assms(1) that(1) by (simp add: spans_def)
    moreover have "host_limit (length buf) (unat off) uf = length buf"
      using False new that by (auto simp: host_limit_def)
    ultimately show ?thesis using False by (simp add: span_def)
  qed
  then have inv: "host_inv (length buf) (unat off) ?s ?u"
    by (simp add: host_inv_def url_simps)
  have "host_inv (length buf) (unat off + length ?cs) s' v" if "host_loop strict (unat off) ?cs ?s ?u = Some (s', v)" for s' v
    using host_loop_inv [OF that inv] .
  then have "spans v (length buf)" if "host_loop strict (unat off) ?cs ?s ?u = Some (s', v)" for s' v
    using host_inv_spans [of "length buf" "unat off + length ?cs" s' v] that in_buf by simp
  then show ?thesis
    using o l in_buf by (auto simp: http_parse_host_def Let_def split: option.splits)
qed


text \<open>
  The parser reads the URL and nothing else, and what it reports lies in the URL; a URL with a scheme
  and no host is the exception.
\<close>

definition schema_without_host :: "bool \<Rightarrow> bytes \<Rightarrow> bool" where
  "schema_without_host strict buf \<longleftrightarrow> (\<exists>found u.
     url_loop strict 0 buf s_req_spaces_before_url UF_MAX False blank_url = Some (found, u) \<and>
     has_field u UF_SCHEMA \<and> \<not> has_field u UF_HOST)"

definition parsed_ok :: "bytes \<Rightarrow> (http_error, parser_url option) res \<Rightarrow> bool" where
  "parsed_ok buf r \<longleftrightarrow> (\<exists>v. r = Inr v \<and> (\<forall>u. v = Some u \<longrightarrow> spans u (length buf)))"

lemma read_port_ok: "spans u (length buf) \<Longrightarrow> parsed_ok buf (read_port buf u)"
  using span_stored [of u UF_PORT "length buf"]
  by (auto simp: parsed_ok_def read_port_def spans_def span_def Let_def url_simps)

lemma url_char_schema: "parse_url_char strict s ch = s_req_schema \<Longrightarrow> s \<in> {s_req_spaces_before_url, s_req_schema}"
  by (rule ccontr) (simp add: parse_url_char_def split: if_split_asm)

lemma url_char_started: "parse_url_char strict s ch = s_req_spaces_before_url \<Longrightarrow> False"
  by (simp add: parse_url_char_def split: if_split_asm)

lemma loop_no_schema:
  "url_loop strict pos cs s old found u = Some (found', u') \<Longrightarrow> s \<notin> {s_req_spaces_before_url, s_req_schema} \<Longrightarrow>
   has_field u' UF_SCHEMA \<Longrightarrow> has_field u UF_SCHEMA"
proof (induction cs arbitrary: pos s old found u)
  case (Cons c cs)
  let ?s = "parse_url_char strict s c"
  have s: "?s \<notin> {s_req_spaces_before_url, s_req_schema}"
    using Cons.prems(2) url_char_schema [of strict s c] url_char_started [of strict s c] by auto
  show ?case
  proof (cases "url_step ?s")
    case (Part f)
    then have "f < 16" "f \<noteq> UF_SCHEMA" using s by (auto simp: url_step_def split: if_splits)
    then show ?thesis
      using Cons.IH [of "pos + 1" ?s old "found \<or> ?s = s_req_server_with_at" "grow_field f u"]
        Cons.IH [of "pos + 1" ?s f "found \<or> ?s = s_req_server_with_at" "mark_field f (begin_field f pos 1 u)"]
        Cons.prems Part s by (simp add: Let_def url_simps split: if_splits)
  qed (use Cons.IH [of "pos + 1" ?s] Cons.prems s in \<open>auto simp: Let_def\<close>)
qed simp

lemma parse_url_ok:
  assumes "is_connect \<or> \<not> schema_without_host strict buf"
  shows "parsed_ok buf (http_parser_parse_url strict buf is_connect)"
proof (cases "url_loop strict 0 buf (if is_connect then s_req_server_start else s_req_spaces_before_url)
    UF_MAX False blank_url")
  case None
  then show ?thesis by (simp add: http_parser_parse_url_def parsed_ok_def)
next
  case (Some r)
  obtain found u where r: "r = (found, u)" by (cases r)
  have "spans blank_url 0" by (simp add: spans_def url_simps)
  from url_loop_spans [OF Some [unfolded r] this] have spans: "spans u (length buf)" by simp
  have new: "\<not> has_field u UF_PORT" "\<not> has_field u UF_USERINFO"
    using url_loop_fields [OF Some [unfolded r], of UF_PORT] url_loop_fields [OF Some [unfolded r], of UF_USERINFO]
    by (auto simp: url_simps)
  have host: "has_field u UF_HOST" if "has_field u UF_SCHEMA"
  proof (cases is_connect)
    case True
    then show ?thesis using loop_no_schema [OF Some [unfolded r]] that by (simp add: url_simps)
  next
    case False
    then show ?thesis using assms Some that unfolding schema_without_host_def r by auto
  qed
  have "parsed_ok buf (if has_field u UF_SCHEMA \<or> has_field u UF_HOST then http_parse_host strict buf u found
      else Inr (Some u))"
    using http_parse_host_spans [OF spans _ new] host spans by (auto simp: parsed_ok_def)
  then obtain v where v: "(if has_field u UF_SCHEMA \<or> has_field u UF_HOST then http_parse_host strict buf u found
      else Inr (Some u)) = Inr v" "\<And>w. v = Some w \<Longrightarrow> spans w (length buf)"
    unfolding parsed_ok_def by blast
  show ?thesis
    using read_port_ok [OF v(2)] unfolding http_parser_parse_url_def Some r option.case prod.case v(1) rbind.simps
    by (cases v) (auto simp: parsed_ok_def)
qed

lemma url_loop_has:
  "url_loop strict pos cs s old found u = Some (found', u') \<Longrightarrow> has_field u uf \<Longrightarrow> has_field u' uf"
proof (induction cs arbitrary: pos s old found u)
  case (Cons c cs)
  let ?s = "parse_url_char strict s c"
  show ?case
  proof (cases "url_step ?s")
    case (Part f)
    then have "f < 16" by (auto simp: url_step_def split: if_splits)
    then show ?thesis
      using Cons.IH [of "pos + 1" ?s old "found \<or> ?s = s_req_server_with_at" "grow_field f u"]
        Cons.IH [of "pos + 1" ?s f "found \<or> ?s = s_req_server_with_at" "mark_field f (begin_field f pos 1 u)"]
        Cons.prems Part by (auto simp: Let_def url_simps split: if_splits)
  qed (use Cons.IH [of "pos + 1" ?s] Cons.prems in \<open>auto simp: Let_def\<close>)
qed simp

lemma url_loop_unset:
  "url_loop strict pos cs s old found u = Some (found', u') \<Longrightarrow> f_off u uf = None \<Longrightarrow>
   \<not> has_field u' uf \<Longrightarrow> f_off u' uf = None"
proof (induction cs arbitrary: pos s old found u)
  case (Cons c cs)
  let ?s = "parse_url_char strict s c"
  show ?case
  proof (cases "url_step ?s")
    case (Part f)
    then have "f < 16" by (auto simp: url_step_def split: if_splits)
    then have "f = old \<or> uf \<noteq> f"
      using Cons.prems Part url_loop_has [of strict "pos + 1" cs ?s f "found \<or> ?s = s_req_server_with_at"
        "mark_field f (begin_field f pos 1 u)" found' u' f] by (auto simp: Let_def url_simps)
    then show ?thesis
      using Cons.IH [of "pos + 1" ?s old "found \<or> ?s = s_req_server_with_at" "grow_field f u"]
        Cons.IH [of "pos + 1" ?s f "found \<or> ?s = s_req_server_with_at" "mark_field f (begin_field f pos 1 u)"]
        Cons.prems Part by (auto simp: Let_def url_simps split: if_splits)
  qed (use Cons.IH [of "pos + 1" ?s] Cons.prems in \<open>auto simp: Let_def\<close>)
qed simp

lemma parse_url_uninit:
  assumes "schema_without_host strict buf"
  shows "http_parser_parse_url strict buf False = Inl (UB UninitRead)"
proof -
  obtain found u where l: "url_loop strict 0 buf s_req_spaces_before_url UF_MAX False blank_url = Some (found, u)"
      and "has_field u UF_SCHEMA" "\<not> has_field u UF_HOST"
    using assms by (auto simp: schema_without_host_def)
  moreover have "f_off u UF_HOST = None"
    using url_loop_unset [OF l, of UF_HOST] calculation by (auto simp: blank_url_def)
  ultimately show ?thesis by (simp add: http_parser_parse_url_def http_parse_host_def)
qed

end
