(* ===== verification/Http_Url_Text.thy ===== *)
theory Http_Url_Text
  imports Http_Url
begin

text \<open>
  The URL parser of \<open>Http_Url\<close> against a printer: a URL as a record of its parts, its text, and the
  proof that \<open>http_parser_parse_url\<close> finds exactly these parts in the text; then two kinds of URL it
  mistreats (a scheme with an empty host, and texts beyond 65535 bytes).
\<close>

section \<open>Printing a URL and taking it apart\<close>

text \<open>The parts of an absolute URL with a host name, and its text.\<close>

record url_parts =
  w_schema :: bytes
  w_userinfo :: "bytes option"
  w_host :: bytes
  w_port :: "nat option"
  w_path :: bytes
  w_query :: "bytes option"
  w_fragment :: "bytes option"

definition after :: "char \<Rightarrow> bytes option \<Rightarrow> bytes" where
  "after c x = (case x of None \<Rightarrow> [] | Some bs \<Rightarrow> char_byte c # bs)"

definition authority :: "url_parts \<Rightarrow> bytes" where
  "authority w = (case w_userinfo w of None \<Rightarrow> [] | Some bs \<Rightarrow> bs @ [char_byte CHR ''@'']) @ w_host w @
     after CHR '':'' (map_option utoa (w_port w))"

definition url_text :: "url_parts \<Rightarrow> bytes" where
  "url_text w = w_schema w @ map char_byte ''://'' @ authority w @ w_path w @
     after CHR ''?'' (w_query w) @ after CHR ''#'' (w_fragment w)"

definition url_byte :: "bool \<Rightarrow> byte \<Rightarrow> bool" where
  "url_byte strict c \<longleftrightarrow> IS_URL_CHAR strict c \<and> c \<notin> {32, 13, 10} \<and> (strict \<longrightarrow> c \<notin> {9, 12})"

definition query_byte :: "bool \<Rightarrow> byte \<Rightarrow> bool" where
  "query_byte strict c \<longleftrightarrow> url_byte strict c \<or> c = char_byte CHR ''?''"

text \<open>No part that is given is empty, the path starts with a slash, and the fragment with no \<open>#\<close>.\<close>

definition parts_ok :: "bool \<Rightarrow> url_parts \<Rightarrow> bool" where
  "parts_ok strict w \<longleftrightarrow>
     w_schema w \<noteq> [] \<and> (\<forall>c \<in> set (w_schema w). IS_ALPHA c) \<and>
     (\<forall>bs. w_userinfo w = Some bs \<longrightarrow> bs \<noteq> [] \<and> (\<forall>c \<in> set bs. IS_USERINFO_CHAR c)) \<and>
     w_host w \<noteq> [] \<and> (\<forall>c \<in> set (w_host w). IS_HOST_CHAR strict c) \<and>
     (\<forall>n. w_port w = Some n \<longrightarrow> n < 65536) \<and>
     (\<exists>bs. w_path w = char_byte CHR ''/'' # bs \<and> (\<forall>c \<in> set bs. url_byte strict c)) \<and>
     (\<forall>bs. w_query w = Some bs \<longrightarrow> bs \<noteq> [] \<and> (\<forall>c \<in> set bs. query_byte strict c)) \<and>
     (\<forall>bs. w_fragment w = Some bs \<longrightarrow> bs \<noteq> [] \<and> query_byte strict (hd bs) \<and>
        (\<forall>c \<in> set (tl bs). query_byte strict c \<or> c = char_byte CHR ''#''))"

lemma char_codes: "char_byte CHR ''a'' = 97" "char_byte CHR ''z'' = 122" "char_byte CHR ''f'' = 102"
  "char_byte CHR ''0'' = 48" "char_byte CHR ''9'' = 57" "char_byte CHR ''/'' = 47" "char_byte CHR ''*'' = 42"
  "char_byte CHR '':'' = 58" "char_byte CHR ''?'' = 63" "char_byte CHR ''@'' = 64" "char_byte CHR ''['' = 91"
  "char_byte CHR '']'' = 93" "char_byte CHR ''#'' = 35" "char_byte CHR ''.'' = 46" "char_byte CHR ''-'' = 45"
  "char_byte CHR ''_'' = 95" "char_byte CHR ''!'' = 33" "char_byte CHR ''~'' = 126" "char_byte CHR ''('' = 40"
  "char_byte CHR '')'' = 41" "char_byte CHR ''%'' = 37" "char_byte CHR '';'' = 59" "char_byte CHR ''&'' = 38"
  "char_byte CHR ''='' = 61" "char_byte CHR ''+'' = 43" "char_byte CHR ''$'' = 36" "char_byte CHR '','' = 44"
  by (simp_all add: char_byte_def)

named_theorems char_facts "which character classes exclude which characters"

lemma alpha_char [char_facts]: "IS_ALPHA c \<Longrightarrow> c \<noteq> 47 \<and> c \<noteq> 42 \<and> c \<noteq> 58 \<and> c \<noteq> 32 \<and> c \<noteq> 13 \<and> c \<noteq> 10 \<and> c \<noteq> 9 \<and> c \<noteq> 12"
  by (auto simp: IS_ALPHA_def LOWER_def char_codes)

lemma host_char_userinfo: "IS_HOST_CHAR strict c \<Longrightarrow> IS_USERINFO_CHAR c"
  by (auto simp: IS_HOST_CHAR_def IS_USERINFO_CHAR_def IS_MARK_def char_codes)

lemma host_char [char_facts]: "IS_HOST_CHAR strict c \<Longrightarrow> c \<noteq> 58 \<and> c \<noteq> 64 \<and> c \<noteq> 91"
  by (auto simp: IS_HOST_CHAR_def IS_ALPHANUM_def IS_NUM_def IS_ALPHA_def LOWER_def char_codes)

lemma userinfo_char [char_facts]: "IS_USERINFO_CHAR c \<Longrightarrow>
    c \<noteq> 64 \<and> c \<noteq> 47 \<and> c \<noteq> 63 \<and> c \<noteq> 32 \<and> c \<noteq> 13 \<and> c \<noteq> 10 \<and> c \<noteq> 9 \<and> c \<noteq> 12"
  by (auto simp: IS_USERINFO_CHAR_def IS_MARK_def IS_ALPHANUM_def IS_NUM_def IS_ALPHA_def LOWER_def char_codes)

lemma url_delimiters: "\<not> IS_URL_CHAR strict 63" "\<not> IS_URL_CHAR strict 35"
  by (simp_all add: IS_URL_CHAR_def BIT_AT_def normal_url_char_def)

lemma digit_num: "is_digit c \<longleftrightarrow> IS_NUM c"
  by (simp add: is_digit_def IS_NUM_def char_codes)

lemma num_userinfo: "IS_NUM c \<Longrightarrow> IS_USERINFO_CHAR c"
  by (simp add: IS_USERINFO_CHAR_def IS_ALPHANUM_def)

section \<open>Runs of the two loops\<close>

text \<open>A part that has been marked, with its position and length: what the first loop makes of a run of bytes.\<close>

abbreviation (input) part :: "nat \<Rightarrow> nat \<Rightarrow> nat \<Rightarrow> parser_url \<Rightarrow> parser_url" where
  "part uf p n u \<equiv> mark_field uf (begin_field uf p (of_nat n) u)"

lemma grow_part: "grow_field uf (part uf p n u) = part uf p (n + 1) u"
  by (simp add: grow_field_def begin_field_def mark_field_def add.commute)

lemma url_first:
  assumes "parse_url_char strict s c = s'" and "url_step s' = Part uf" and "uf \<noteq> old"
  shows "url_loop strict pos (c # rest) s old found u =
    url_loop strict (pos + 1) rest s' uf (found \<or> s' = s_req_server_with_at) (part uf pos 1 u)"
  using assms by (simp add: Let_def)

lemma url_next:
  assumes "parse_url_char strict s c = s'" and "url_step s' = Part uf"
  shows "url_loop strict pos (c # rest) s uf found (part uf p n u) =
    url_loop strict (pos + 1) rest s' uf (found \<or> s' = s_req_server_with_at) (part uf p (n + 1) u)"
  using assms by (simp add: Let_def grow_part del: of_nat_add)

lemma url_delimiter:
  assumes "parse_url_char strict s c = s'" and "url_step s' = Delimiter"
  shows "url_loop strict pos (c # rest) s old found u = url_loop strict (pos + 1) rest s' old found u"
  using assms by (simp add: Let_def)

lemma url_run:
  assumes "\<And>c. c \<in> set cs \<Longrightarrow> parse_url_char strict s c = s" and "url_step s = Part uf" and "s \<noteq> s_req_server_with_at"
  shows "url_loop strict pos (cs @ rest) s uf found (part uf p n u) =
    url_loop strict (pos + length cs) rest s uf found (part uf p (n + length cs) u)"
  using assms(1)
proof (induction cs arbitrary: pos n)
  case (Cons c cs)
  then have "url_loop strict pos ((c # cs) @ rest) s uf found (part uf p n u) =
      url_loop strict (pos + 1) (cs @ rest) s uf found (part uf p (n + 1) u)"
    using url_next [OF _ assms(2), of strict s c pos "cs @ rest" found p n u] assms(3) by simp
  then show ?case using Cons.IH [of "pos + 1" "n + 1"] Cons.prems by simp
qed simp

lemma url_word:
  assumes "parse_url_char strict s0 c = s" and "\<And>c. c \<in> set cs \<Longrightarrow> parse_url_char strict s c = s"
    and "url_step s = Part uf" and "s \<noteq> s_req_server_with_at" and "uf \<noteq> old"
  shows "url_loop strict pos (c # cs @ rest) s0 old found u =
    url_loop strict (pos + length (c # cs)) rest s uf found (part uf pos (length (c # cs)) u)"
  using url_first [OF assms(1,3,5), of pos "cs @ rest" found u] url_run [OF assms(2,3,4), of cs "pos + 1" rest found pos 1 u] assms(4)
  by simp

lemma url_steps:
  "IS_ALPHA c \<Longrightarrow> parse_url_char strict s_req_spaces_before_url c = s_req_schema"
  "IS_ALPHA c \<Longrightarrow> parse_url_char strict s_req_schema c = s_req_schema"
  "parse_url_char strict s_req_schema 58 = s_req_schema_slash"
  "parse_url_char strict s_req_schema_slash 47 = s_req_schema_slash_slash"
  "parse_url_char strict s_req_schema_slash_slash 47 = s_req_server_start"
  "IS_USERINFO_CHAR c \<Longrightarrow> parse_url_char strict s_req_server_start c = s_req_server"
  "IS_USERINFO_CHAR c \<Longrightarrow> parse_url_char strict s_req_server c = s_req_server"
  "IS_USERINFO_CHAR c \<Longrightarrow> parse_url_char strict s_req_server_with_at c = s_req_server"
  "parse_url_char strict s_req_server 64 = s_req_server_with_at"
  "parse_url_char strict s_req_server 47 = s_req_path"
  "url_byte strict c \<Longrightarrow> parse_url_char strict s_req_path c = s_req_path"
  "parse_url_char strict s_req_path 63 = s_req_query_string_start"
  "parse_url_char strict s_req_path 35 = s_req_fragment_start"
  "query_byte strict c \<Longrightarrow> parse_url_char strict s_req_query_string_start c = s_req_query_string"
  "query_byte strict c \<Longrightarrow> parse_url_char strict s_req_query_string c = s_req_query_string"
  "parse_url_char strict s_req_query_string 35 = s_req_fragment_start"
  "query_byte strict c \<Longrightarrow> parse_url_char strict s_req_fragment_start c = s_req_fragment"
  "query_byte strict c \<or> c = 35 \<Longrightarrow> parse_url_char strict s_req_fragment c = s_req_fragment"
  by (use alpha_char [of c] alpha_char [of 58] userinfo_char [of c] url_delimiters [of strict] in
    \<open>auto simp: parse_url_char_def char_codes url_byte_def query_byte_def\<close>)

lemma url_step_simps [simp]:
  "url_step s_req_schema = Part UF_SCHEMA" "url_step s_req_schema_slash = Delimiter"
  "url_step s_req_schema_slash_slash = Delimiter" "url_step s_req_server_start = Delimiter"
  "url_step s_req_server = Part UF_HOST" "url_step s_req_server_with_at = Part UF_HOST"
  "url_step s_req_path = Part UF_PATH" "url_step s_req_query_string_start = Delimiter"
  "url_step s_req_query_string = Part UF_QUERY" "url_step s_req_fragment_start = Delimiter"
  "url_step s_req_fragment = Part UF_FRAGMENT"
  by (simp_all add: url_step_def)

lemma url_loop_schema:
  assumes "cs \<noteq> []" and "\<forall>c \<in> set cs. IS_ALPHA c"
  shows "url_loop strict 0 (cs @ map char_byte ''://'' @ rest) s_req_spaces_before_url UF_MAX found u =
    url_loop strict (length cs + 3) rest s_req_server_start UF_SCHEMA found (part UF_SCHEMA 0 (length cs) u)"
proof -
  obtain c ds where cs: "cs = c # ds" using assms(1) by (cases cs) auto
  have "url_loop strict 0 (cs @ 58 # 47 # 47 # rest) s_req_spaces_before_url UF_MAX found u =
      url_loop strict (length cs) (58 # 47 # 47 # rest) s_req_schema UF_SCHEMA found (part UF_SCHEMA 0 (length cs) u)"
    using url_word [of strict s_req_spaces_before_url c s_req_schema ds UF_SCHEMA UF_MAX 0 "58 # 47 # 47 # rest" found u]
      assms(2) by (simp add: cs url_steps del: One_nat_def)
  also have "\<dots> = url_loop strict (length cs + 3) rest s_req_server_start UF_SCHEMA found (part UF_SCHEMA 0 (length cs) u)"
    by (simp only: url_delimiter [OF url_steps(3)] url_delimiter [OF url_steps(4)] url_delimiter [OF url_steps(5)]
      url_step_simps) (simp add: numeral_3_eq_3)
  finally show ?thesis by (simp add: char_codes)
qed

text \<open>A run of bytes that a user name, a host and a port are made of.\<close>

lemma url_loop_server:
  assumes "cs \<noteq> []" and "\<forall>c \<in> set cs. IS_USERINFO_CHAR c"
  shows "old \<noteq> UF_HOST \<Longrightarrow> url_loop strict pos (cs @ rest) s_req_server_start old found u =
      url_loop strict (pos + length cs) rest s_req_server UF_HOST found (part UF_HOST pos (length cs) u)"
    and "url_loop strict pos (64 # cs @ rest) s_req_server UF_HOST found (part UF_HOST p n u) =
      url_loop strict (pos + 1 + length cs) rest s_req_server UF_HOST True (part UF_HOST p (n + 1 + length cs) u)"
proof -
  obtain c ds where cs: "cs = c # ds" using assms(1) by (cases cs) auto
  show "old \<noteq> UF_HOST \<Longrightarrow> url_loop strict pos (cs @ rest) s_req_server_start old found u =
      url_loop strict (pos + length cs) rest s_req_server UF_HOST found (part UF_HOST pos (length cs) u)"
    using url_word [of strict s_req_server_start c s_req_server ds UF_HOST old pos rest found u] assms(2)
    by (simp add: cs url_steps del: One_nat_def)
  have "url_loop strict pos (64 # cs @ rest) s_req_server UF_HOST found (part UF_HOST p n u) =
      url_loop strict (pos + 1) (c # ds @ rest) s_req_server_with_at UF_HOST True (part UF_HOST p (n + 1) u)"
    using url_next [OF url_steps(9), where uf = UF_HOST] by (simp add: cs del: url_loop.simps One_nat_def)
  also have "\<dots> = url_loop strict (pos + 2) (ds @ rest) s_req_server UF_HOST True (part UF_HOST p (n + 2) u)"
    using url_next [OF url_steps(8), of c UF_HOST strict "pos + 1" "ds @ rest" True p "n + 1" u] assms(2)
    by (simp add: cs numeral_2_eq_2 del: url_loop.simps of_nat_add)
  also have "\<dots> = url_loop strict (pos + 2 + length ds) rest s_req_server UF_HOST True (part UF_HOST p (n + 2 + length ds) u)"
    by (rule url_run) (use assms(2) in \<open>auto simp: cs url_steps\<close>)
  finally show "url_loop strict pos (64 # cs @ rest) s_req_server UF_HOST found (part UF_HOST p n u) =
      url_loop strict (pos + 1 + length cs) rest s_req_server UF_HOST True (part UF_HOST p (n + 1 + length cs) u)"
    by (simp add: cs)
qed

lemma host_port_chars:
  assumes "parts_ok strict w"
  shows "w_host w @ after CHR '':'' (map_option utoa (w_port w)) \<noteq> []"
    and "\<forall>c \<in> set (w_host w @ after CHR '':'' (map_option utoa (w_port w))). IS_USERINFO_CHAR c"
  using assms host_char_userinfo utoa_digits digit_num num_userinfo
  by (auto simp: parts_ok_def after_def IS_USERINFO_CHAR_def char_codes split: option.splits) (metis IS_ALPHANUM_def)+

lemma url_loop_authority:
  assumes ok: "parts_ok strict w" and "old \<noteq> UF_HOST"
  shows "url_loop strict pos (authority w @ rest) s_req_server_start old False u =
    url_loop strict (pos + length (authority w)) rest s_req_server UF_HOST (w_userinfo w \<noteq> None)
      (part UF_HOST pos (length (authority w)) u)"
proof (cases "w_userinfo w")
  case None
  then show ?thesis
    using url_loop_server(1) [OF host_port_chars [OF ok] assms(2), of strict pos rest False u]
    by (simp add: authority_def)
next
  case (Some us)
  then have us: "us \<noteq> []" "\<forall>c \<in> set us. IS_USERINFO_CHAR c" using ok by (auto simp: parts_ok_def)
  let ?hp = "w_host w @ after CHR '':'' (map_option utoa (w_port w))"
  have a: "authority w = us @ 64 # ?hp" by (simp add: authority_def Some char_codes)
  have "url_loop strict pos (authority w @ rest) s_req_server_start old False u =
      url_loop strict (pos + length us) (64 # ?hp @ rest) s_req_server UF_HOST False (part UF_HOST pos (length us) u)"
    using url_loop_server(1) [OF us assms(2), of strict pos "64 # ?hp @ rest" False u] unfolding a by simp
  also have "\<dots> = url_loop strict (pos + length us + 1 + length ?hp) rest s_req_server UF_HOST True
      (part UF_HOST pos (length us + 1 + length ?hp) u)"
    by (rule url_loop_server(2) [OF host_port_chars [OF ok]])
  finally show ?thesis unfolding a Some by (simp add: add.assoc)
qed

definition optional :: "nat \<Rightarrow> nat \<Rightarrow> bytes option \<Rightarrow> parser_url \<Rightarrow> parser_url" where
  "optional uf pos x u = (case x of None \<Rightarrow> u | Some bs \<Rightarrow> part uf (pos + 1) (length bs) u)"

lemma url_loop_fragment:
  assumes ok: "parts_ok strict w" and s: "s = s_req_path \<or> s = s_req_query_string" and "old \<noteq> UF_FRAGMENT"
  shows "url_loop strict pos (after CHR ''#'' (w_fragment w)) s old found u =
    Some (found, optional UF_FRAGMENT pos (w_fragment w) u)"
proof (cases "w_fragment w")
  case None
  then show ?thesis by (simp add: after_def optional_def)
next
  case (Some bs)
  then obtain c cs where bs: "bs = c # cs" and c: "query_byte strict c" "\<forall>c \<in> set cs. query_byte strict c \<or> c = 35"
    using ok by (cases bs) (auto simp: parts_ok_def char_codes)
  have "parse_url_char strict s 35 = s_req_fragment_start" using s url_steps(13,16) by auto
  from url_delimiter [OF this] have "url_loop strict pos (35 # c # cs) s old found u =
      url_loop strict (pos + 1) (c # cs @ []) s_req_fragment_start old found u"
    by (simp del: url_loop.simps)
  also have "\<dots> = url_loop strict (pos + 1 + length (c # cs)) [] s_req_fragment UF_FRAGMENT found
      (part UF_FRAGMENT (pos + 1) (length (c # cs)) u)"
    by (rule url_word) (use assms(3) c url_steps(17,18) in \<open>auto\<close>)
  finally show ?thesis by (simp add: Some bs after_def optional_def char_codes)
qed

lemma url_loop_query:
  assumes ok: "parts_ok strict w" and "old \<noteq> UF_QUERY" "old \<noteq> UF_FRAGMENT"
  shows "url_loop strict pos (after CHR ''?'' (w_query w) @ after CHR ''#'' (w_fragment w)) s_req_path old found u =
    Some (found, optional UF_FRAGMENT (pos + length (after CHR ''?'' (w_query w))) (w_fragment w)
      (optional UF_QUERY pos (w_query w) u))"
proof (cases "w_query w")
  case None
  then show ?thesis using url_loop_fragment [OF ok _ assms(3)] by (simp add: after_def optional_def)
next
  case (Some bs)
  let ?rest = "after CHR ''#'' (w_fragment w)"
  obtain c cs where bs: "bs = c # cs" and c: "query_byte strict c" "\<forall>c \<in> set cs. query_byte strict c"
    using ok Some by (cases bs) (auto simp: parts_ok_def)
  from url_delimiter [OF url_steps(12)] have "url_loop strict pos (63 # c # cs @ ?rest) s_req_path old found u =
      url_loop strict (pos + 1) (c # cs @ ?rest) s_req_query_string_start old found u"
    by (simp del: url_loop.simps)
  also have "\<dots> = url_loop strict (pos + 1 + length (c # cs)) ?rest s_req_query_string UF_QUERY found
      (part UF_QUERY (pos + 1) (length (c # cs)) u)"
    by (rule url_word) (use assms(2) c url_steps(14,15) in \<open>auto\<close>)
  finally show ?thesis
    using url_loop_fragment [OF ok, of s_req_query_string UF_QUERY]
    by (simp add: Some bs after_def optional_def char_codes)
qed

lemma url_loop_tail:
  assumes ok: "parts_ok strict w"
  shows "url_loop strict pos (w_path w @ after CHR ''?'' (w_query w) @ after CHR ''#'' (w_fragment w))
      s_req_server UF_HOST found u =
    Some (found, optional UF_FRAGMENT (pos + length (w_path w @ after CHR ''?'' (w_query w))) (w_fragment w)
      (optional UF_QUERY (pos + length (w_path w)) (w_query w) (part UF_PATH pos (length (w_path w)) u)))"
proof -
  obtain bs where path: "w_path w = 47 # bs" and bs: "\<forall>c \<in> set bs. url_byte strict c"
    using ok by (auto simp: parts_ok_def char_codes)
  have "url_loop strict pos (47 # bs @ after CHR ''?'' (w_query w) @ after CHR ''#'' (w_fragment w)) s_req_server UF_HOST found u =
      url_loop strict (pos + length (47 # bs)) (after CHR ''?'' (w_query w) @ after CHR ''#'' (w_fragment w)) s_req_path UF_PATH found
      (part UF_PATH pos (length (47 # bs)) u)"
    by (rule url_word) (use bs url_steps(10,11) in auto)
  then show ?thesis using url_loop_query [OF ok, of UF_PATH] by (simp add: path add.assoc del: url_loop.simps)
qed

definition parsed_parts :: "url_parts \<Rightarrow> parser_url" where
  "parsed_parts w = (let a = length (w_schema w) + 3; p = a + length (authority w) in
     optional UF_FRAGMENT (p + length (w_path w @ after CHR ''?'' (w_query w))) (w_fragment w)
      (optional UF_QUERY (p + length (w_path w)) (w_query w) (part UF_PATH p (length (w_path w))
        (part UF_HOST a (length (authority w)) (part UF_SCHEMA 0 (length (w_schema w)) blank_url)))))"

lemma url_loop_text:
  assumes ok: "parts_ok strict w"
  shows "url_loop strict 0 (url_text w) s_req_spaces_before_url UF_MAX False blank_url =
    Some (w_userinfo w \<noteq> None, parsed_parts w)"
proof -
  have "w_schema w \<noteq> []" "\<forall>c \<in> set (w_schema w). IS_ALPHA c" using ok by (auto simp: parts_ok_def)
  from url_loop_schema [OF this, of strict _ False blank_url]
  have "url_loop strict 0 (url_text w) s_req_spaces_before_url UF_MAX False blank_url =
      url_loop strict (length (w_schema w) + 3) (authority w @ w_path w @ after CHR ''?'' (w_query w) @
        after CHR ''#'' (w_fragment w)) s_req_server_start UF_SCHEMA False
        (part UF_SCHEMA 0 (length (w_schema w)) blank_url)"
    unfolding url_text_def by blast
  also have "\<dots> = url_loop strict (length (w_schema w) + 3 + length (authority w)) (w_path w @
        after CHR ''?'' (w_query w) @ after CHR ''#'' (w_fragment w)) s_req_server UF_HOST (w_userinfo w \<noteq> None)
        (part UF_HOST (length (w_schema w) + 3) (length (authority w)) (part UF_SCHEMA 0 (length (w_schema w)) blank_url))"
    by (rule url_loop_authority [OF ok]) simp
  finally show ?thesis unfolding url_loop_tail [OF ok] parsed_parts_def Let_def .
qed

section \<open>The host part of a printed URL\<close>

lemma host_steps:
  "IS_USERINFO_CHAR c \<Longrightarrow> http_parse_host_char strict s_http_userinfo_start c = s_http_userinfo"
  "IS_USERINFO_CHAR c \<Longrightarrow> http_parse_host_char strict s_http_userinfo c = s_http_userinfo"
  "http_parse_host_char strict s_http_userinfo 64 = s_http_host_start"
  "IS_HOST_CHAR strict c \<Longrightarrow> http_parse_host_char strict s_http_host_start c = s_http_host"
  "IS_HOST_CHAR strict c \<Longrightarrow> http_parse_host_char strict s_http_host c = s_http_host"
  "http_parse_host_char strict s_http_host 58 = s_http_host_port_start"
  "IS_NUM c \<Longrightarrow> http_parse_host_char strict s_http_host_port_start c = s_http_host_port"
  "IS_NUM c \<Longrightarrow> http_parse_host_char strict s_http_host_port c = s_http_host_port"
  using userinfo_char [of c] host_char [of strict c] host_char [of strict 58] by (auto simp: char_codes)

lemma host_run_counted:
  assumes "s = s_http_userinfo \<and> uf = UF_USERINFO \<or> s = s_http_host_port \<and> uf = UF_PORT"
    and "\<And>c. c \<in> set cs \<Longrightarrow> http_parse_host_char strict s c = s"
  shows "host_loop strict pos (cs @ rest) s (part uf p n u) =
    host_loop strict (pos + length cs) rest s (part uf p (n + length cs) u)"
  using assms(2)
proof (induction cs arbitrary: pos n)
  case (Cons c cs)
  then have "host_loop strict pos ((c # cs) @ rest) s (part uf p n u) =
      host_loop strict (pos + 1) (cs @ rest) s (part uf p (n + 1) u)"
    using assms(1) by (auto simp: Let_def host_update_def grow_part simp del: of_nat_add)
  then show ?case using Cons.IH [of "pos + 1" "n + 1"] Cons.prems by simp
qed simp

lemma host_word_counted:
  assumes "s = s_http_userinfo \<and> uf = UF_USERINFO \<or> s = s_http_host_port \<and> uf = UF_PORT" and "s0 \<noteq> s"
    and "http_parse_host_char strict s0 c = s" and "\<And>c. c \<in> set cs \<Longrightarrow> http_parse_host_char strict s c = s"
  shows "host_loop strict pos (c # cs @ rest) s0 u =
    host_loop strict (pos + length (c # cs)) rest s (part uf pos (length (c # cs)) u)"
proof -
  have "host_loop strict pos (c # cs @ rest) s0 u = host_loop strict (pos + 1) (cs @ rest) s (part uf pos 1 u)"
    using assms(1-3) grow_part [of uf pos 0 u] by (auto simp: Let_def host_update_def)
  then show ?thesis using host_run_counted [OF assms(1,4), of cs "pos + 1" rest pos 1 u] by simp
qed

lemma grow_host: "grow_field UF_HOST (begin_field UF_HOST p (of_nat n) u) = begin_field UF_HOST p (of_nat (n + 1)) u"
  by (simp add: grow_field_def begin_field_def add.commute)

lemma host_run:
  assumes "\<And>c. c \<in> set cs \<Longrightarrow> IS_HOST_CHAR strict c"
  shows "host_loop strict pos (cs @ rest) s_http_host (begin_field UF_HOST p (of_nat n) u) =
    host_loop strict (pos + length cs) rest s_http_host (begin_field UF_HOST p (of_nat (n + length cs)) u)"
  using assms
proof (induction cs arbitrary: pos n)
  case (Cons c cs)
  then have "host_loop strict pos ((c # cs) @ rest) s_http_host (begin_field UF_HOST p (of_nat n) u) =
      host_loop strict (pos + 1) (cs @ rest) s_http_host (begin_field UF_HOST p (of_nat (n + 1)) u)"
    using grow_host [of p n u] by (simp add: host_steps host_update_def del: of_nat_add http_parse_host_char.simps)
  then show ?case using Cons.IH [of "pos + 1" "n + 1"] Cons.prems by simp
qed simp

lemma host_word:
  assumes "cs \<noteq> []" and "\<forall>c \<in> set cs. IS_HOST_CHAR strict c" and zero: "f_len u UF_HOST = Some 0"
  shows "host_loop strict pos (cs @ rest) s_http_host_start u =
    host_loop strict (pos + length cs) rest s_http_host (begin_field UF_HOST pos (of_nat (length cs)) u)"
proof -
  obtain c ds where cs: "cs = c # ds" using assms(1) by (cases cs) auto
  have "grow_field UF_HOST (u\<lparr>f_off := (f_off u)(UF_HOST := Some (of_nat pos))\<rparr>) = begin_field UF_HOST pos (of_nat 1) u"
    using zero by (simp add: grow_field_def begin_field_def)
  then have "host_loop strict pos (c # ds @ rest) s_http_host_start u =
      host_loop strict (pos + 1) (ds @ rest) s_http_host (begin_field UF_HOST pos (of_nat 1) u)"
    using assms(2) by (simp add: cs host_steps host_update_def del: http_parse_host_char.simps)
  then show ?thesis using host_run [of ds strict "pos + 1" rest pos 1 u] assms(2) by (simp add: cs)
qed

text \<open>What the second loop does to the structure.\<close>

definition host_parts :: "nat \<Rightarrow> url_parts \<Rightarrow> parser_url \<Rightarrow> parser_url" where
  "host_parts a w u =
     (let h = a + (case w_userinfo w of None \<Rightarrow> 0 | Some us \<Rightarrow> length us + 1);
          v = (case w_userinfo w of None \<Rightarrow> u | Some us \<Rightarrow> part UF_USERINFO a (length us) u)
      in optional UF_PORT (h + length (w_host w)) (map_option utoa (w_port w))
        (begin_field UF_HOST h (of_nat (length (w_host w))) v))"

lemma host_loop_port:
  assumes ok: "parts_ok strict w"
  shows "\<exists>s. host_loop strict pos (after CHR '':'' (map_option utoa (w_port w))) s_http_host u =
      Some (s, optional UF_PORT pos (map_option utoa (w_port w)) u) \<and> (s = s_http_host \<or> s = s_http_host_port)"
proof (cases "w_port w")
  case None
  then show ?thesis by (simp add: after_def optional_def)
next
  case (Some n)
  obtain c cs where n: "utoa n = c # cs" by (cases "utoa n") auto
  have d: "IS_NUM x" if "x \<in> set (c # cs)" for x using utoa_digits [of x n] that by (simp add: n digit_num)
  have "host_loop strict pos (58 # c # cs) s_http_host u = host_loop strict (pos + 1) (c # cs @ []) s_http_host_port_start u"
    by (simp add: host_steps host_update_def del: http_parse_host_char.simps host_loop.simps(2))
       (simp add: host_steps host_update_def del: http_parse_host_char.simps)
  also have "\<dots> = host_loop strict (pos + 1 + length (c # cs)) [] s_http_host_port
      (part UF_PORT (pos + 1) (length (c # cs)) u)"
    by (rule host_word_counted) (use d host_steps(7,8) in auto)
  finally show ?thesis by (simp add: Some n after_def optional_def char_codes)
qed

lemma host_loop_authority:
  assumes ok: "parts_ok strict w" and zero: "f_len u UF_HOST = Some 0"
  shows "\<exists>s. host_loop strict a (authority w) (if w_userinfo w \<noteq> None then s_http_userinfo_start else s_http_host_start) u =
      Some (s, host_parts a w u) \<and> (s = s_http_host \<or> s = s_http_host_port)"
proof -
  let ?port = "after CHR '':'' (map_option utoa (w_port w))"
  have host: "w_host w \<noteq> []" "\<forall>c \<in> set (w_host w). IS_HOST_CHAR strict c" using ok by (auto simp: parts_ok_def)
  show ?thesis
  proof (cases "w_userinfo w")
    case None
    then show ?thesis
      using host_word [OF host zero, of a ?port] host_loop_port [OF ok, of "a + length (w_host w)"]
      by (simp add: authority_def host_parts_def Let_def)
  next
    case (Some us)
    then obtain c cs where us: "us = c # cs" and c: "\<forall>x \<in> set (c # cs). IS_USERINFO_CHAR x"
      using ok by (cases us) (auto simp: parts_ok_def)
    let ?u = "part UF_USERINFO a (length us) u"
    have "host_loop strict a (c # cs @ 64 # w_host w @ ?port) s_http_userinfo_start u =
        host_loop strict (a + length (c # cs)) (64 # w_host w @ ?port) s_http_userinfo
          (part UF_USERINFO a (length (c # cs)) u)"
      by (rule host_word_counted) (use c host_steps(1,2) in auto)
    also have "\<dots> = host_loop strict (a + length us + 1) (w_host w @ ?port) s_http_host_start ?u"
      by (simp add: us host_steps host_update_def del: http_parse_host_char.simps)
    also have "\<dots> = host_loop strict (a + length us + 1 + length (w_host w)) ?port s_http_host
        (begin_field UF_HOST (a + length us + 1) (of_nat (length (w_host w))) ?u)"
      by (rule host_word [OF host]) (use zero in \<open>simp add: url_simps\<close>)
    finally show ?thesis
      using host_loop_port [OF ok, of "a + length us + 1 + length (w_host w)"
        "begin_field UF_HOST (a + length us + 1) (of_nat (length (w_host w))) ?u"]
      by (simp add: Some us authority_def host_parts_def Let_def char_codes add.assoc)
  qed
qed

lemma optional_simps [url_simps]:
  "uf < 16 \<Longrightarrow> has_field (optional uf pos x u) uf' \<longleftrightarrow> uf' = uf \<and> x \<noteq> None \<or> has_field u uf'"
  "f_off (optional uf pos x u) uf' = (if uf' = uf \<and> x \<noteq> None then Some (of_nat (pos + 1)) else f_off u uf')"
  "f_len (optional uf pos x u) uf' = (if uf' = uf \<and> x \<noteq> None then Some (of_nat (length (the x))) else f_len u uf')"
  by (cases x; auto simp: optional_def url_simps)+

lemma parsed_parts_host:
  "f_off (parsed_parts w) UF_HOST = Some (of_nat (length (w_schema w) + 3))"
  "f_len (parsed_parts w) UF_HOST = Some (of_nat (length (authority w)))"
  by (simp_all add: parsed_parts_def Let_def url_simps)

lemma small_word: "n < 65536 \<Longrightarrow> unat (of_nat n :: 16 word) = n"
  by (simp add: unat_of_nat)

lemma http_parse_host_text:
  assumes ok: "parts_ok strict w" and len: "length (url_text w) < 65536"
  shows "http_parse_host strict (url_text w) (parsed_parts w) (w_userinfo w \<noteq> None) =
    Inr (Some (host_parts (length (w_schema w) + 3) w
      ((parsed_parts w)\<lparr>f_len := (f_len (parsed_parts w))(UF_HOST := Some 0)\<rparr>)))"
proof -
  let ?a = "length (w_schema w) + 3"
  let ?u = "(parsed_parts w)\<lparr>f_len := (f_len (parsed_parts w))(UF_HOST := Some 0)\<rparr>"
  have a: "unat (of_nat ?a :: 16 word) = ?a" "unat (of_nat (length (authority w)) :: 16 word) = length (authority w)"
    by (rule small_word, use len in \<open>simp add: url_text_def\<close>)+
  have seg: "take (length (authority w)) (drop ?a (url_text w)) = authority w"
    by (simp add: url_text_def)
  have fits: "\<not> length (url_text w) < ?a + length (authority w)" by (simp add: url_text_def)
  obtain s where s: "host_loop strict ?a (authority w)
      (if w_userinfo w \<noteq> None then s_http_userinfo_start else s_http_host_start) ?u =
      Some (s, host_parts ?a w ?u)" "s = s_http_host \<or> s = s_http_host_port"
    using host_loop_authority [OF ok, of ?u ?a] by auto
  show ?thesis
    unfolding http_parse_host_def parsed_parts_host prod.case option.case a seg Let_def s(1)
    using fits s(2) by auto
qed

text \<open>The bytes of a part that is present.\<close>

definition url_part :: "parser_url \<Rightarrow> bytes \<Rightarrow> nat \<Rightarrow> bytes option" where
  "url_part u buf uf = (if has_field u uf then
     (case (f_off u uf, f_len u uf) of (Some off, Some len) \<Rightarrow> Some (take (unat len) (drop (unat off) buf)) | _ \<Rightarrow> None)
   else None)"

lemma url_part_at:
  assumes "has_field u uf" and "f_off u uf = Some (of_nat p)" and "f_len u uf = Some (of_nat (length bs))"
    and "buf = pre @ bs @ post" and "p = length pre" and "length buf < 65536"
  shows "url_part u buf uf = Some bs"
proof -
  have "unat (of_nat p :: 16 word) = p" "unat (of_nat (length bs) :: 16 word) = length bs"
    by (rule small_word, use assms(4-6) in simp)+
  then show ?thesis using assms by (simp add: url_part_def)
qed

lemma url_part_absent: "\<not> has_field u uf \<Longrightarrow> url_part u buf uf = None"
  by (simp add: url_part_def)

lemma strtoul_utoa:
  assumes "n < 2 ^ 64" and "rest = [] \<or> \<not> is_digit (hd rest)"
  shows "strtoul (utoa n @ rest) = of_nat n"
proof -
  obtain b bs where u: "utoa n = b # bs" by (cases "utoa n") auto
  then have "is_digit b" using utoa_digits [of b n] by auto
  then have "\<not> (b = 32 \<or> 9 \<le> b \<and> b \<le> 13)" "b \<noteq> 45" "b \<noteq> 43"
    by (auto simp: is_digit_def word_le_nat_alt)
  then have "strtoul (utoa n @ rest) = clamp_ulong (digits_val 0 (utoa n @ rest))"
    unfolding strtoul_def u by (auto simp del: digits_val.simps)
  also have "digits_val 0 (utoa n @ rest) = digits_val (digits_val 0 (utoa n)) rest"
    using utoa_digits by (simp add: digits_val_append)
  also have "\<dots> = n" using assms(2) by (cases rest) (auto simp: digits_val_utoa)
  finally show ?thesis using assms(1) by (simp add: clamp_ulong_def)
qed

text \<open>The structure the parser ends with, but for the converted port.\<close>

definition text_parts :: "url_parts \<Rightarrow> parser_url" where
  "text_parts w = host_parts (length (w_schema w) + 3) w
     ((parsed_parts w)\<lparr>f_len := (f_len (parsed_parts w))(UF_HOST := Some 0)\<rparr>)"

lemma text_parts_has:
  "has_field (text_parts w) uf \<longleftrightarrow> uf \<in> {UF_SCHEMA, UF_HOST, UF_PATH} \<or> uf = UF_PORT \<and> w_port w \<noteq> None \<or>
     uf = UF_QUERY \<and> w_query w \<noteq> None \<or> uf = UF_FRAGMENT \<and> w_fragment w \<noteq> None \<or>
     uf = UF_USERINFO \<and> w_userinfo w \<noteq> None"
  by (cases "w_userinfo w") (auto simp: text_parts_def host_parts_def parsed_parts_def Let_def url_simps)

lemma text_parts_values:
  assumes len: "length (url_text w) < 65536"
  shows "url_part (text_parts w) (url_text w) UF_SCHEMA = Some (w_schema w)"
    and "url_part (text_parts w) (url_text w) UF_HOST = Some (w_host w)"
    and "url_part (text_parts w) (url_text w) UF_PATH = Some (w_path w)"
    and "url_part (text_parts w) (url_text w) UF_QUERY = w_query w"
    and "url_part (text_parts w) (url_text w) UF_FRAGMENT = w_fragment w"
    and "url_part (text_parts w) (url_text w) UF_USERINFO = w_userinfo w"
proof -
  let ?u = "text_parts w"
  note defs = text_parts_def host_parts_def parsed_parts_def Let_def url_simps
  have at: "url_part ?u (url_text w) uf = Some bs"
    if "f_off ?u uf = Some (of_nat (length pre))" "f_len ?u uf = Some (of_nat (length bs))" "has_field ?u uf"
      "url_text w = pre @ bs @ post" for uf pre bs post
    using url_part_at [OF that(3,1,2,4) refl len] .
  show "url_part ?u (url_text w) UF_SCHEMA = Some (w_schema w)"
    by (rule at [of _ "[]"]) (auto simp: text_parts_has url_text_def, (auto simp: defs split: option.split)+)
  show "url_part ?u (url_text w) UF_HOST = Some (w_host w)"
    by (rule at [of _ "w_schema w @ map char_byte ''://'' @
        (case w_userinfo w of None \<Rightarrow> [] | Some bs \<Rightarrow> bs @ [char_byte CHR ''@''])"])
       (auto simp: text_parts_has url_text_def authority_def, (auto simp: defs split: option.split)+)
  show "url_part ?u (url_text w) UF_PATH = Some (w_path w)"
    by (rule at [of _ "w_schema w @ map char_byte ''://'' @ authority w"])
       (auto simp: text_parts_has url_text_def, (auto simp: defs split: option.split)+)
  show "url_part ?u (url_text w) UF_QUERY = w_query w"
  proof (cases "w_query w")
    case (Some bs)
    show ?thesis unfolding Some
      by (rule at [of _ "w_schema w @ map char_byte ''://'' @ authority w @ w_path w @ [char_byte CHR ''?'']"])
         (auto simp: text_parts_has url_text_def after_def Some, (auto simp: defs Some split: option.split)+)
  qed (simp add: url_part_absent text_parts_has)
  show "url_part ?u (url_text w) UF_FRAGMENT = w_fragment w"
  proof (cases "w_fragment w")
    case (Some bs)
    show ?thesis unfolding Some
      by (rule at [of _ "w_schema w @ map char_byte ''://'' @ authority w @ w_path w @
          after CHR ''?'' (w_query w) @ [char_byte CHR ''#'']"])
         (auto simp: text_parts_has url_text_def after_def Some, (auto simp: defs after_def Some split: option.split)+)
  qed (simp add: url_part_absent text_parts_has)
  show "url_part ?u (url_text w) UF_USERINFO = w_userinfo w"
  proof (cases "w_userinfo w")
    case (Some bs)
    show ?thesis unfolding Some
      by (rule at [of _ "w_schema w @ map char_byte ''://''"])
         (auto simp: text_parts_has url_text_def authority_def Some, (auto simp: defs Some split: option.split)+)
  qed (simp add: url_part_absent text_parts_has)
qed


lemma parse_url_text:
  assumes ok: "parts_ok strict w" and len: "length (url_text w) < 65536"
  shows "http_parser_parse_url strict (url_text w) False =
    Inr (Some ((text_parts w)\<lparr>port := (case w_port w of None \<Rightarrow> 0 | Some n \<Rightarrow> of_nat n)\<rparr>))"
proof -
  have "has_field (parsed_parts w) UF_HOST" by (simp add: parsed_parts_def Let_def url_simps)
  then have "http_parser_parse_url strict (url_text w) False = read_port (url_text w) (text_parts w)"
    using http_parse_host_text [OF ok len]
    by (simp add: http_parser_parse_url_def url_loop_text [OF ok] text_parts_def)
  also have "\<dots> = Inr (Some ((text_parts w)\<lparr>port := (case w_port w of None \<Rightarrow> 0 | Some n \<Rightarrow> of_nat n)\<rparr>))"
  proof (cases "w_port w")
    case None
    have "port (text_parts w) = 0"
      by (simp add: text_parts_def host_parts_def parsed_parts_def optional_def begin_field_def mark_field_def
        blank_url_def Let_def None split: option.split)
    then have "(text_parts w)\<lparr>port := 0\<rparr> = text_parts w" by simp
    moreover have "\<not> has_field (text_parts w) UF_PORT" by (simp add: text_parts_has None)
    ultimately show ?thesis by (simp add: read_port_def None)
  next
    case (Some n)
    then have n: "n < 65536" using ok by (auto simp: parts_ok_def)
    let ?pre = "w_schema w @ map char_byte ''://'' @
      (case w_userinfo w of None \<Rightarrow> [] | Some bs \<Rightarrow> bs @ [char_byte CHR ''@'']) @ w_host w @ [char_byte CHR '':'']"
    let ?rest = "w_path w @ after CHR ''?'' (w_query w) @ after CHR ''#'' (w_fragment w)"
    have whole: "url_text w = ?pre @ utoa n @ ?rest"
      by (simp add: url_text_def authority_def after_def Some split: option.split)
    have off: "f_off (text_parts w) UF_PORT = Some (of_nat (length ?pre))"
      by (auto simp: text_parts_def host_parts_def parsed_parts_def Let_def url_simps Some split: option.split)
    have pos: "unat (of_nat (length ?pre) :: 16 word) = length ?pre"
      by (rule small_word) (use len whole in simp)
    have rest: "\<not> is_digit (hd ?rest)"
      using ok by (auto simp: parts_ok_def char_codes is_digit_def)
    have tail: "drop (length ?pre) (url_text w) = utoa n @ ?rest"
      unfolding whole by (rule append_eq_conv_conj [THEN iffD1, OF refl, THEN conjunct2, symmetric])
    have v: "strtoul (utoa n @ ?rest) = of_nat n"
      using rest n by (intro strtoul_utoa) auto
    have small: "\<not> (0xffff :: 64 word) < of_nat n" using n by (simp add: word_less_nat_alt unat_of_nat)
    have "unat (of_nat n :: 64 word) = n" using n by (simp add: unat_of_nat)
    then have "(ucast (of_nat n :: 64 word) :: 16 word) = of_nat n" by (metis of_nat_unat)
    moreover have "has_field (text_parts w) UF_PORT" by (simp add: text_parts_has Some)
    moreover have "\<not> length (url_text w) < length ?pre" unfolding whole by simp
    ultimately show ?thesis
      unfolding read_port_def off option.case pos tail v Let_def Some using small by simp
  qed
  finally show ?thesis .
qed

section \<open>URLs the parser mistreats\<close>

text \<open>A scheme followed by an empty host, as in \<open>http:///toto\<close>.\<close>

lemma empty_host_unset:
  assumes "cs \<noteq> []" and "\<forall>c \<in> set cs. IS_ALPHA c" and "\<forall>c \<in> set bs. url_byte strict c"
  shows "schema_without_host strict (cs @ map char_byte ''://'' @ 47 # bs)"
proof -
  have "parse_url_char strict s_req_server_start 47 = s_req_path"
    by (simp add: parse_url_char_def char_codes)
  then have "url_loop strict (length cs + 3) (47 # bs @ []) s_req_server_start UF_SCHEMA False (part UF_SCHEMA 0 (length cs) blank_url) =
      url_loop strict (length cs + 3 + length (47 # bs)) [] s_req_path UF_PATH False
        (part UF_PATH (length cs + 3) (length (47 # bs)) (part UF_SCHEMA 0 (length cs) blank_url))"
    by (rule url_word) (use assms(3) url_steps(11) in auto)
  then show ?thesis
    using url_loop_schema [OF assms(1,2), of strict "47 # bs" False blank_url]
    by (auto simp: schema_without_host_def url_simps)
qed

text \<open>A path alone: its length is kept in 16 bits.\<close>

lemma parse_url_path:
  assumes "\<forall>c \<in> set bs. url_byte strict c"
  shows "http_parser_parse_url strict (47 # bs) False = Inr (Some (part UF_PATH 0 (length (47 # bs)) blank_url))"
proof -
  have "parse_url_char strict s_req_spaces_before_url 47 = s_req_path"
    by (simp add: parse_url_char_def char_codes)
  then have "url_loop strict 0 (47 # bs @ []) s_req_spaces_before_url UF_MAX False blank_url =
      url_loop strict (0 + length (47 # bs)) [] s_req_path UF_PATH False (part UF_PATH 0 (length (47 # bs)) blank_url)"
    by (rule url_word) (use assms url_steps(11) in auto)
  then show ?thesis
    by (simp add: http_parser_parse_url_def read_port_def url_simps del: url_loop.simps(2))
qed

end
