(* ===== verification/Http_Binding.thy ===== *)
theory Http_Binding
  imports Http_Url_Text
begin

text \<open>
  The HTTP binding \<open>src/lua-http-parser.c\<close>: the callbacks that assemble a message in a Lua table
  while the parser runs, and \<open>parse_url\<close> on top of the URL parser of \<open>Http_Url\<close>. The callbacks are
  studied here on sequences of events; \<open>Http_Message\<close> runs them from the message parser.
\<close>

section \<open>The message table\<close>

text \<open>
  The table on top of the Lua stack during \<open>execute\<close>: its sequence part holds the pieces of headers
  collected so far (fields at odd, values at even positions), the rest are the \<open>FIELD_*\<close> keys; \<open>None\<close>
  is a key that is not set.
\<close>

record http_msg =
  m_pieces :: "bytes list"
  m_is_request :: "bool option"
  m_method :: "bytes option"
  m_request_url :: "bytes option"
  m_status :: "bytes option"
  m_status_code :: "nat option"
  m_headers :: "(bytes \<rightharpoonup> bytes) option"
  m_body :: "bytes option"
  m_keepalive :: "bool option"
  m_upgrade :: "bool option"
  m_http_major :: "nat option"
  m_http_minor :: "nat option"
  m_complete :: "bool option"

definition empty_msg :: http_msg where
  "empty_msg = \<lparr>m_pieces = [], m_is_request = None, m_method = None, m_request_url = None, m_status = None,
     m_status_code = None, m_headers = None, m_body = None, m_keepalive = None, m_upgrade = None,
     m_http_major = None, m_http_minor = None, m_complete = None\<rparr>"

text \<open>The fields of \<open>http_parser\<close> the callbacks read.\<close>

record parser_info =
  p_http_major :: nat
  p_http_minor :: nat
  p_method :: bytes
  p_status_code :: nat
  p_upgrade :: bool
  p_keep_alive :: bool

section \<open>Callbacks\<close>

definition on_message_begin :: "http_msg \<Rightarrow> http_msg" where
  "on_message_begin t = t\<lparr>m_complete := Some False\<rparr>"

text \<open>A field that arrives in several pieces: the first sets it, the others are concatenated.\<close>

fun concat_field :: "bytes option \<Rightarrow> bytes \<Rightarrow> bytes option" where
  "concat_field None at = Some at"
| "concat_field (Some s) at = Some (s @ at)"

definition on_url :: "bytes \<Rightarrow> http_msg \<Rightarrow> http_msg" where
  "on_url at t = t\<lparr>m_request_url := concat_field (m_request_url t) at, m_is_request := Some True\<rparr>"

definition on_status :: "bytes \<Rightarrow> http_msg \<Rightarrow> http_msg" where
  "on_status at t = t\<lparr>m_status := concat_field (m_status t) at\<rparr>"

text \<open>\<open>t[#t] = t[#t] .. at\<close>\<close>

definition concat_last :: "bytes list \<Rightarrow> bytes \<Rightarrow> bytes list" where
  "concat_last ps at = butlast ps @ [last ps @ at]"

definition on_header_field :: "bytes \<Rightarrow> http_msg \<Rightarrow> http_msg" where
  "on_header_field at t =
     (if length (m_pieces t) mod 2 = 0 then t\<lparr>m_pieces := m_pieces t @ [at]\<rparr>
      else t\<lparr>m_pieces := concat_last (m_pieces t) at\<rparr>)"

text \<open>
  A value with nothing before it (which no parser produces) would index the table at 0 and raise a
  Lua error in the concatenation; the callback for it is \<open>None\<close>.
\<close>

definition on_header_value :: "bytes \<Rightarrow> http_msg \<Rightarrow> http_msg option" where
  "on_header_value at t =
     (if length (m_pieces t) mod 2 \<noteq> 0 then Some (t\<lparr>m_pieces := m_pieces t @ [at]\<rparr>)
      else if m_pieces t = [] then None
      else Some (t\<lparr>m_pieces := concat_last (m_pieces t) at\<rparr>))"

definition on_headers_complete :: "parser_info \<Rightarrow> http_msg \<Rightarrow> http_msg" where
  "on_headers_complete p t =
     (let t = t\<lparr>m_http_major := Some (p_http_major p), m_http_minor := Some (p_http_minor p)\<rparr> in
      if m_is_request t = Some True then t\<lparr>m_method := Some (p_method p)\<rparr>
      else t\<lparr>m_status_code := Some (p_status_code p)\<rparr>)"

definition on_body :: "bytes \<Rightarrow> http_msg \<Rightarrow> http_msg" where
  "on_body at t = t\<lparr>m_body := concat_field (m_body t) at\<rparr>"

text \<open>The loop that moves the pieces, two by two, to the table of headers.\<close>

fun compose_headers :: "bytes list \<Rightarrow> (bytes \<rightharpoonup> bytes) \<Rightarrow> (bytes \<rightharpoonup> bytes)" where
  "compose_headers (f # v # ps) hs = compose_headers ps (hs(f \<mapsto> v))"
| "compose_headers _ hs = hs"

text \<open>
  The result tells whether the callback paused the parser. With a field that has no value the
  callback gives up: the message stays incomplete.
\<close>

definition on_message_complete :: "parser_info \<Rightarrow> http_msg \<Rightarrow> http_msg \<times> bool" where
  "on_message_complete p t =
     (if length (m_pieces t) mod 2 \<noteq> 0 then (t, False) else
      let hs = (case m_headers t of None \<Rightarrow> Map.empty | Some hs \<Rightarrow> hs);
          t = t\<lparr>m_headers := Some (compose_headers (m_pieces t) hs), m_pieces := []\<rparr>;
          t = (if p_upgrade p then t\<lparr>m_upgrade := Some True\<rparr> else t)
      in (t\<lparr>m_keepalive := Some (p_keep_alive p), m_complete := Some True\<rparr>, True))"

section \<open>Sequences of callbacks\<close>

datatype http_event =
    MessageBegin
  | Url bytes
  | Status bytes
  | HeaderField bytes
  | HeaderValue bytes
  | HeadersComplete parser_info
  | Body bytes
  | MessageComplete parser_info

fun dispatch :: "http_event \<Rightarrow> http_msg \<Rightarrow> http_msg option" where
  "dispatch MessageBegin t = Some (on_message_begin t)"
| "dispatch (Url at) t = Some (on_url at t)"
| "dispatch (Status at) t = Some (on_status at t)"
| "dispatch (HeaderField at) t = Some (on_header_field at t)"
| "dispatch (HeaderValue at) t = on_header_value at t"
| "dispatch (HeadersComplete p) t = Some (on_headers_complete p t)"
| "dispatch (Body at) t = Some (on_body at t)"
| "dispatch (MessageComplete p) t = Some (fst (on_message_complete p t))"

fun run_events :: "http_event list \<Rightarrow> http_msg \<Rightarrow> http_msg option" where
  "run_events [] t = Some t"
| "run_events (e # es) t = (case dispatch e t of None \<Rightarrow> None | Some t \<Rightarrow> run_events es t)"

section \<open>URLs\<close>

definition set_url_field :: "string \<Rightarrow> nat \<Rightarrow> parser_url \<Rightarrow> bytes \<Rightarrow> (string \<rightharpoonup> lval) \<Rightarrow>
    (http_error, string \<rightharpoonup> lval) res" where
  "set_url_field name uf u buf t =
     (if has_field u uf then
        (case (f_off u uf, f_len u uf) of
           (Some off, Some len) \<Rightarrow>
             if unat off + unat len \<le> length buf
             then Inr (t(name \<mapsto> LStr (take (unat len) (drop (unat off) buf))))
             else Inl (UB OutOfBounds)
         | _ \<Rightarrow> Inl (UB UninitRead))
      else Inr t)"

text \<open>\<open>connect\<close> is the second argument, if there is one; the result is the table, or no value.\<close>

definition lparse_url :: "bool \<Rightarrow> lua_env \<Rightarrow> lval \<Rightarrow> lval option \<Rightarrow>
    (http_error, (string \<rightharpoonup> lval) option) res" where
  "lparse_url strict L v connect = (case lua_tolstring L v of
     None \<Rightarrow> Inl (Raise (BadArg 1))
   | Some buf \<Rightarrow>
       let is_connect = (case connect of None \<Rightarrow> False | Some c \<Rightarrow> lua_toboolean c) in
       rbind (http_parser_parse_url strict buf is_connect) (\<lambda>r. case r of
         None \<Rightarrow> Inr None
       | Some u \<Rightarrow>
           rbind (set_url_field ''schema'' UF_SCHEMA u buf Map.empty) (\<lambda>t.
           rbind (set_url_field ''host'' UF_HOST u buf t) (\<lambda>t.
           rbind (set_url_field ''request_path'' UF_PATH u buf t) (\<lambda>t.
           rbind (set_url_field ''query_string'' UF_QUERY u buf t) (\<lambda>t.
           rbind (set_url_field ''fragment'' UF_FRAGMENT u buf t) (\<lambda>t.
           rbind (set_url_field ''userinfo'' UF_USERINFO u buf t) (\<lambda>t.
           Inr (Some (if port u \<noteq> 0 then t(''port'' \<mapsto> LInt (ucast (port u))) else t))))))))))"

section \<open>Version\<close>

definition ascii :: "string \<Rightarrow> bytes" where
  "ascii s = map of_char s"

definition lversion :: "64 word \<Rightarrow> bytes" where
  "lversion version = ascii ''http_parser v'' @ utoa (unat (drop_bit 16 version AND 255)) @ ascii ''.'' @
     utoa (unat (drop_bit 8 version AND 255)) @ ascii ''.'' @ utoa (unat (version AND 255))"

section \<open>Assembling a message from pieces\<close>

lemma run_events_append:
  "run_events (es @ fs) t = (case run_events es t of None \<Rightarrow> None | Some t \<Rightarrow> run_events fs t)"
  by (induction es t rule: run_events.induct) (auto split: option.splits)

lemma foldl_concat_Some: "foldl concat_field (Some s) xs = Some (s @ concat xs)"
  by (induction xs arbitrary: s) auto

lemma foldl_concat: "foldl concat_field None xs = (if xs = [] then None else Some (concat xs))"
  by (cases xs) (simp_all add: foldl_concat_Some)

lemma run_urls:
  "run_events (map Url us) t = Some (t\<lparr>m_request_url := foldl concat_field (m_request_url t) us,
     m_is_request := if us = [] then m_is_request t else Some True\<rparr>)"
  by (induction us arbitrary: t) (simp_all add: on_url_def)

lemma run_statuses:
  "run_events (map Status ss) t = Some (t\<lparr>m_status := foldl concat_field (m_status t) ss\<rparr>)"
  by (induction ss arbitrary: t) (simp_all add: on_status_def)

lemma run_bodies:
  "run_events (map Body bs) t = Some (t\<lparr>m_body := foldl concat_field (m_body t) bs\<rparr>)"
  by (induction bs arbitrary: t) (simp_all add: on_body_def)

lemma run_more_field:
  "length ps mod 2 = 0 \<Longrightarrow> m_pieces t = ps @ [f] \<Longrightarrow>
   run_events (map HeaderField fs) t = Some (t\<lparr>m_pieces := ps @ [f @ concat fs]\<rparr>)"
proof (induction fs arbitrary: f t)
  case (Cons g fs)
  have "length (ps @ [f]) mod 2 \<noteq> 0" using Cons.prems(1) by (simp add: mod_Suc)
  then have "dispatch (HeaderField g) t = Some (t\<lparr>m_pieces := ps @ [f @ g]\<rparr>)"
    using Cons.prems(2) by (simp add: on_header_field_def concat_last_def)
  then show ?case using Cons.IH [of "t\<lparr>m_pieces := ps @ [f @ g]\<rparr>" "f @ g"] Cons.prems(1) by simp
qed simp

lemma run_more_value:
  "length ps mod 2 = 1 \<Longrightarrow> m_pieces t = ps @ [v] \<Longrightarrow>
   run_events (map HeaderValue vs) t = Some (t\<lparr>m_pieces := ps @ [v @ concat vs]\<rparr>)"
proof (induction vs arbitrary: v t)
  case (Cons w vs)
  have "length (ps @ [v]) mod 2 = 0" using Cons.prems(1) by (simp add: mod_Suc)
  then have "dispatch (HeaderValue w) t = Some (t\<lparr>m_pieces := ps @ [v @ w]\<rparr>)"
    using Cons.prems(2) by (simp add: on_header_value_def concat_last_def)
  then show ?case using Cons.IH [of "t\<lparr>m_pieces := ps @ [v @ w]\<rparr>" "v @ w"] Cons.prems(1) by simp
qed simp

text \<open>The callbacks of one header whose name and value arrive in the given pieces.\<close>

definition header_events :: "bytes list \<times> bytes list \<Rightarrow> http_event list" where
  "header_events h = (case h of (fs, vs) \<Rightarrow> map HeaderField fs @ map HeaderValue vs)"

lemma run_header:
  assumes "length (m_pieces t) mod 2 = 0" and "fs \<noteq> []" and "vs \<noteq> []"
  shows "run_events (header_events (fs, vs)) t = Some (t\<lparr>m_pieces := m_pieces t @ [concat fs, concat vs]\<rparr>)"
proof -
  obtain f fs' v vs' where fv: "fs = f # fs'" "vs = v # vs'" using assms(2,3) by (cases fs; cases vs) auto
  let ?t1 = "t\<lparr>m_pieces := m_pieces t @ [f]\<rparr>"
  let ?t2 = "t\<lparr>m_pieces := m_pieces t @ [f @ concat fs']\<rparr>"
  let ?t3 = "t\<lparr>m_pieces := (m_pieces t @ [f @ concat fs']) @ [v]\<rparr>"
  have odd: "length (m_pieces t @ [f @ concat fs']) mod 2 = 1" using assms(1) by (simp add: mod_Suc)
  have "run_events (map HeaderField fs) t = Some ?t2"
    using run_more_field [OF assms(1), of ?t1 f fs'] assms(1) by (simp add: fv on_header_field_def)
  moreover have "dispatch (HeaderValue v) ?t2 = Some ?t3" using odd by (simp add: on_header_value_def)
  then have "run_events (map HeaderValue vs) ?t2 = Some (t\<lparr>m_pieces := m_pieces t @ [concat fs, concat vs]\<rparr>)"
    using run_more_value [OF odd, of ?t3 v vs'] by (simp add: fv)
  ultimately show ?thesis by (simp add: header_events_def run_events_append)
qed

lemma run_headers:
  "(\<forall>(fs, vs) \<in> set hs. fs \<noteq> [] \<and> vs \<noteq> []) \<Longrightarrow> length (m_pieces t) mod 2 = 0 \<Longrightarrow>
   run_events (concat (map header_events hs)) t =
     Some (t\<lparr>m_pieces := m_pieces t @ concat (map (\<lambda>(fs, vs). [concat fs, concat vs]) hs)\<rparr>)"
proof (induction hs arbitrary: t)
  case (Cons h hs)
  obtain fs vs where h: "h = (fs, vs)" by (cases h)
  let ?t = "t\<lparr>m_pieces := m_pieces t @ [concat fs, concat vs]\<rparr>"
  have "run_events (header_events h) t = Some ?t" using run_header Cons.prems h by auto
  moreover have "length (m_pieces ?t) mod 2 = 0" using Cons.prems(2) by simp
  ultimately show ?case using Cons.IH [of ?t] Cons.prems(1) h by (simp add: run_events_append)
qed simp

lemma compose_headers_map:
  "compose_headers (concat (map (\<lambda>(f, v). [f, v]) hs)) m = m ++ map_of (rev hs)"
  by (induction hs arbitrary: m) auto

text \<open>A whole message: the pieces of its URL or status, its headers and its body.\<close>

definition message_events :: "bytes list \<Rightarrow> bytes list \<Rightarrow> (bytes list \<times> bytes list) list \<Rightarrow> parser_info \<Rightarrow>
    bytes list \<Rightarrow> parser_info \<Rightarrow> http_event list" where
  "message_events us ss hs p bs q = [MessageBegin] @ map Url us @ map Status ss @ concat (map header_events hs) @
     [HeadersComplete p] @ map Body bs @ [MessageComplete q]"

definition joined :: "bytes list \<Rightarrow> bytes option" where
  "joined xs = (if xs = [] then None else Some (concat xs))"

definition assembled :: "bytes list \<Rightarrow> bytes list \<Rightarrow> (bytes list \<times> bytes list) list \<Rightarrow> parser_info \<Rightarrow>
    bytes list \<Rightarrow> parser_info \<Rightarrow> http_msg" where
  "assembled us ss hs p bs q = \<lparr>m_pieces = [], m_is_request = (if us = [] then None else Some True),
     m_method = (if us = [] then None else Some (p_method p)), m_request_url = joined us, m_status = joined ss,
     m_status_code = (if us = [] then Some (p_status_code p) else None),
     m_headers = Some (map_of (rev (map (\<lambda>(fs, vs). (concat fs, concat vs)) hs))),
     m_body = joined bs, m_keepalive = Some (p_keep_alive q), m_upgrade = (if p_upgrade q then Some True else None),
     m_http_major = Some (p_http_major p), m_http_minor = Some (p_http_minor p), m_complete = Some True\<rparr>"

lemma pieces_even: "length (concat (map (\<lambda>(fs, vs). [concat fs, concat vs]) hs)) mod 2 = 0"
  by (induction hs) auto

lemma message_assembled:
  assumes "\<forall>(fs, vs) \<in> set hs. fs \<noteq> [] \<and> vs \<noteq> []"
  shows "run_events (message_events us ss hs p bs q) empty_msg = Some (assembled us ss hs p bs q)"
proof -
  let ?ps = "concat (map (\<lambda>(fs, vs). [concat fs, concat vs]) hs)"
  have "concat (map (\<lambda>(f, v). [f, v]) (map (\<lambda>(fs, vs). (concat fs, concat vs)) hs)) = ?ps"
    by (induction hs) auto
  then have hdr: "compose_headers ?ps Map.empty = map_of (rev (map (\<lambda>(fs, vs). (concat fs, concat vs)) hs))"
    using compose_headers_map [of "map (\<lambda>(fs, vs). (concat fs, concat vs)) hs" Map.empty] by simp
  show ?thesis
    using assms pieces_even [of hs]
    by (simp add: message_events_def run_events_append run_urls run_statuses run_headers run_bodies foldl_concat
        on_message_begin_def on_headers_complete_def on_message_complete_def empty_msg_def Let_def hdr
        assembled_def joined_def)
qed

section \<open>The contract of the binding\<close>

text \<open>
  C24. The message a table holds after the callbacks of a message does not depend on how the parser
  cut the URL, the status, the names and values of headers and the body into pieces: each part is the
  concatenation of its pieces, every header is under its name (the last one when a name is repeated),
  nothing is left in the sequence part, and the message is marked complete.
\<close>

theorem http_message_assembled:
  assumes "\<forall>(fs, vs) \<in> set hs. fs \<noteq> [] \<and> vs \<noteq> []"
  shows "run_events (message_events us ss hs p bs q) empty_msg = Some (assembled us ss hs p bs q)"
  by (rule message_assembled [OF assms])

definition demo_info :: parser_info where
  "demo_info = \<lparr>p_http_major = 1, p_http_minor = 1, p_method = ascii ''GET'', p_status_code = 0,
     p_upgrade = False, p_keep_alive = True\<rparr>"

theorem http_message_assembled_witness:
  "\<exists>t. run_events (message_events [ascii ''/a'', ascii ''b''] [] [([ascii ''Ho'', ascii ''st''], [ascii ''x''])]
      demo_info [] demo_info) empty_msg = Some t \<and>
    m_request_url t = Some (ascii ''/ab'') \<and> the (m_headers t) (ascii ''Host'') = Some (ascii ''x'')"
  using http_message_assembled [of "[([ascii ''Ho'', ascii ''st''], [ascii ''x''])]" "[ascii ''/a'', ascii ''b'']" "[]"
      demo_info "[]" demo_info]
  by (simp add: assembled_def joined_def ascii_def)

section \<open>Parts of a URL in the table\<close>

lemma set_url_field_ok:
  assumes "has_field u uf \<Longrightarrow> span u uf (length buf)"
  shows "set_url_field name uf u buf t =
    Inr (case url_part u buf uf of None \<Rightarrow> t | Some bs \<Rightarrow> t(name \<mapsto> LStr bs))"
proof (cases "has_field u uf")
  case True
  then obtain p l where "f_off u uf = Some p" "f_len u uf = Some l" "unat p + unat l \<le> length buf"
    using span_stored [of u uf "length buf"] assms by blast
  then show ?thesis using True by (simp add: set_url_field_def url_part_def)
qed (simp add: set_url_field_def url_part_def)

definition url_table :: "parser_url \<Rightarrow> bytes \<Rightarrow> string \<rightharpoonup> lval" where
  "url_table u buf = (\<lambda>name.
     if name = ''schema'' then map_option LStr (url_part u buf UF_SCHEMA)
     else if name = ''host'' then map_option LStr (url_part u buf UF_HOST)
     else if name = ''request_path'' then map_option LStr (url_part u buf UF_PATH)
     else if name = ''query_string'' then map_option LStr (url_part u buf UF_QUERY)
     else if name = ''fragment'' then map_option LStr (url_part u buf UF_FRAGMENT)
     else if name = ''userinfo'' then map_option LStr (url_part u buf UF_USERINFO)
     else if name = ''port'' \<and> port u \<noteq> 0 then Some (LInt (ucast (port u)))
     else None)"

lemma lparse_url_ok:
  assumes "http_parser_parse_url strict buf (connect \<noteq> None \<and> lua_toboolean (the connect)) = Inr (Some u)"
    and "spans u (length buf)"
  shows "lparse_url strict L (LStr buf) connect = Inr (Some (url_table u buf))"
proof -
  have s: "has_field u uf \<Longrightarrow> span u uf (length buf)" for uf using assms(2) by (simp add: spans_def)
  have p: "http_parser_parse_url strict buf (case connect of None \<Rightarrow> False | Some c \<Rightarrow> lua_toboolean c) = Inr (Some u)"
    using assms(1) by (cases connect) auto
  show ?thesis
    unfolding lparse_url_def lua_tolstring.simps option.case Let_def p rbind.simps
    by (simp add: set_url_field_ok [OF s]) (auto simp: url_table_def fun_eq_iff split: option.split)
qed


lemma lparse_url_of_text:
  assumes "parts_ok strict w" and "length (url_text w) < 65536"
  shows "\<exists>t. lparse_url strict L (LStr (url_text w)) None = Inr (Some t) \<and>
    t ''schema'' = Some (LStr (w_schema w)) \<and> t ''userinfo'' = map_option LStr (w_userinfo w) \<and>
    t ''host'' = Some (LStr (w_host w)) \<and>
    t ''port'' = (case w_port w of None \<Rightarrow> None | Some n \<Rightarrow> if n = 0 then None else Some (LInt (of_nat n))) \<and>
    t ''request_path'' = Some (LStr (w_path w)) \<and> t ''query_string'' = map_option LStr (w_query w) \<and>
    t ''fragment'' = map_option LStr (w_fragment w)"
proof -
  let ?u = "(text_parts w)\<lparr>port := (case w_port w of None \<Rightarrow> 0 | Some n \<Rightarrow> of_nat n)\<rparr>"
  have parse: "http_parser_parse_url strict (url_text w) False = Inr (Some ?u)"
    by (rule parse_url_text [OF assms])
  moreover have "parsed_ok (url_text w) (http_parser_parse_url strict (url_text w) False)"
    using parse_url_ok [of False strict "url_text w"] parse_url_uninit [of strict "url_text w"] parse by fastforce
  ultimately have "spans ?u (length (url_text w))" by (simp add: parsed_ok_def)
  then have table: "lparse_url strict L (LStr (url_text w)) None = Inr (Some (url_table ?u (url_text w)))"
    using lparse_url_ok [of strict "url_text w" None] parse by simp
  have part: "url_part ?u buf uf = url_part (text_parts w) buf uf" for buf uf
    by (simp add: url_part_def url_simps)
  have num: "ucast (of_nat n :: 16 word) = (of_nat n :: 64 word) \<and> (of_nat n = (0 :: 16 word) \<longleftrightarrow> n = 0)"
    if "w_port w = Some n" for n
  proof -
    have "unat (of_nat n :: 16 word) = n" using assms(1) that by (intro small_word) (simp add: parts_ok_def)
    then show ?thesis by (metis of_nat_unat unat_eq_zero of_nat_0)
  qed
  show ?thesis
    using text_parts_values [OF assms(2)] num
    by (intro exI [of _ "url_table ?u (url_text w)"])
       (auto simp: table url_table_def part split: option.split)
qed

lemma lparse_url_cases:
  "if (connect = None \<or> \<not> lua_toboolean (the connect)) \<and> schema_without_host strict buf
   then lparse_url strict L (LStr buf) connect = Inl (UB UninitRead)
   else \<exists>t. lparse_url strict L (LStr buf) connect = Inr t"
proof -
  let ?c = "connect \<noteq> None \<and> lua_toboolean (the connect)"
  have c: "(case connect of None \<Rightarrow> False | Some c \<Rightarrow> lua_toboolean c) = ?c" by (cases connect) auto
  show ?thesis
  proof (cases "?c \<or> \<not> schema_without_host strict buf")
    case True
    then have ok: "parsed_ok buf (http_parser_parse_url strict buf ?c)" by (intro parse_url_ok) auto
    then obtain v where v: "http_parser_parse_url strict buf ?c = Inr v" "\<And>u. v = Some u \<Longrightarrow> spans u (length buf)"
      unfolding parsed_ok_def by blast
    have "\<exists>t. lparse_url strict L (LStr buf) connect = Inr t"
    proof (cases v)
      case None
      then show ?thesis using v(1) by (auto simp: lparse_url_def c)
    next
      case (Some u)
      then show ?thesis using lparse_url_ok [of strict buf connect u L] v by auto
    qed
    then show ?thesis using True by auto
  next
    case False
    then show ?thesis using parse_url_uninit [of strict buf] by (auto simp: lparse_url_def c)
  qed
qed

lemma lparse_url_path:
  assumes "\<forall>c \<in> set bs. url_byte strict c"
  shows "\<exists>t. lparse_url strict L (LStr (char_byte CHR ''/'' # bs)) None = Inr (Some t) \<and>
    t ''request_path'' = Some (LStr (take ((length bs + 1) mod 65536) (char_byte CHR ''/'' # bs)))"
proof -
  let ?u = "mark_field UF_PATH (begin_field UF_PATH 0 (of_nat (length (47 # bs))) blank_url)"
  have parse: "http_parser_parse_url strict (47 # bs) False = Inr (Some ?u)" by (rule parse_url_path [OF assms])
  moreover have "parsed_ok (47 # bs) (http_parser_parse_url strict (47 # bs) False)"
    using parse_url_ok [of False strict "47 # bs"] parse_url_uninit [of strict "47 # bs"] parse by fastforce
  ultimately have "spans ?u (length (47 # bs))" by (simp add: parsed_ok_def)
  then have "lparse_url strict L (LStr (47 # bs)) None = Inr (Some (url_table ?u (47 # bs)))"
    using lparse_url_ok [of strict "47 # bs" None] parse by simp
  moreover have "unat (of_nat (length (47 # bs)) :: 16 word) = (length bs + 1) mod 65536"
    by (simp only: unat_of_nat) simp
  ultimately show ?thesis
    by (auto simp: url_table_def url_part_def url_simps char_codes simp del: of_nat_add of_nat_Suc)
qed

section \<open>Properties of \<open>parse_url\<close>\<close>

text \<open>
  C25. \<open>parse_url\<close> takes printed URLs apart: for a scheme, an optional user, a host name, an optional
  port, a path, an optional query and an optional fragment, put together as
  \<open>scheme://user@host:port/path?query#fragment\<close> (at most 65535 bytes), the table it returns has
  exactly these parts, and the port as a number when it is not 0.
\<close>

theorem parse_url_of_text:
  assumes "parts_ok strict w" and "length (url_text w) < 65536"
  shows "\<exists>t. lparse_url strict L (LStr (url_text w)) None = Inr (Some t) \<and>
    t ''schema'' = Some (LStr (w_schema w)) \<and> t ''userinfo'' = map_option LStr (w_userinfo w) \<and>
    t ''host'' = Some (LStr (w_host w)) \<and>
    t ''port'' = (case w_port w of None \<Rightarrow> None | Some n \<Rightarrow> if n = 0 then None else Some (LInt (of_nat n))) \<and>
    t ''request_path'' = Some (LStr (w_path w)) \<and> t ''query_string'' = map_option LStr (w_query w) \<and>
    t ''fragment'' = map_option LStr (w_fragment w)"
  by (rule lparse_url_of_text [OF assms])

text \<open>The URL \<open>ab://u@h:80/x?y#z\<close>\<close>

definition demo_url :: url_parts where
  "demo_url = \<lparr>w_schema = [97, 98], w_userinfo = Some [117], w_host = [104], w_port = Some 80, w_path = [47, 120],
     w_query = Some [121], w_fragment = Some [122]\<rparr>"

lemma demo_url_ok: "parts_ok strict demo_url"
  by (simp add: parts_ok_def demo_url_def IS_ALPHA_def LOWER_def IS_USERINFO_CHAR_def IS_ALPHANUM_def IS_HOST_CHAR_def
    query_byte_def url_byte_def IS_URL_CHAR_def BIT_AT_def normal_url_char_def char_codes)

theorem parse_url_of_text_witness:
  "\<exists>t. lparse_url False plain_env (LStr [97, 98, 58, 47, 47, 117, 64, 104, 58, 56, 48, 47, 120, 63, 121, 35, 122]) None =
    Inr (Some t) \<and> t ''host'' = Some (LStr [104]) \<and> t ''port'' = Some (LInt 80) \<and> t ''fragment'' = Some (LStr [122])"
proof -
  have "url_text demo_url = [97, 98, 58, 47, 47, 117, 64, 104, 58, 56, 48, 47, 120, 63, 121, 35, 122]"
    by (simp add: url_text_def authority_def after_def demo_url_def char_codes utoa.simps)
  then show ?thesis
    using parse_url_of_text [OF demo_url_ok, of False plain_env] by (auto simp: demo_url_def)
qed

text \<open>
  C26. \<open>parse_url\<close> is memory safe on every string but for one kind of URL: it never leaves the string
  (even when offsets and lengths wrap around at 2^16), and it reads uninitialised memory exactly when
  a scheme has been found and no host, outside \<open>CONNECT\<close> mode.
\<close>

theorem parse_url_memory_safe:
  "(if (case connect of None \<Rightarrow> True | Some v \<Rightarrow> \<not> lua_toboolean v) \<and> schema_without_host strict buf
    then lparse_url strict L (LStr buf) connect = Inl (UB UninitRead)
    else \<exists>t. lparse_url strict L (LStr buf) connect = Inr t)"
  using lparse_url_cases [of connect strict buf L] by (cases connect) auto

text \<open>
  C27. The comment in the parser says that parsing \<open>http:///toto\<close> fails. It does not: for every scheme
  followed by \<open>://\<close> and a path, the host parser runs on an offset and a length never written.
\<close>

theorem empty_host_reads_uninitialised:
  assumes "cs \<noteq> []" and "\<forall>c \<in> set cs. IS_ALPHA c" and "\<forall>c \<in> set bs. url_byte strict c"
  shows "lparse_url strict L (LStr (cs @ map char_byte ''://'' @ char_byte CHR ''/'' # bs)) None = Inl (UB UninitRead)"
  using parse_url_uninit [OF empty_host_unset [OF assms]] by (simp add: lparse_url_def char_codes)

theorem empty_host_reads_uninitialised_witness:
  "lparse_url False plain_env (LStr [104, 58, 47, 47, 47, 116]) None = Inl (UB UninitRead)"
  using empty_host_reads_uninitialised [of "[104]" "[116]" False plain_env]
  by (simp add: IS_ALPHA_def LOWER_def url_byte_def IS_URL_CHAR_def BIT_AT_def normal_url_char_def char_codes)

text \<open>
  Parts of 65536 bytes and more are cut: the path returned for a URL that is a path only is its
  prefix of length modulo 2^16.
\<close>

theorem long_path_truncated:
  assumes "\<forall>c \<in> set bs. url_byte strict c"
  shows "\<exists>t. lparse_url strict L (LStr (char_byte CHR ''/'' # bs)) None = Inr (Some t) \<and>
    t ''request_path'' = Some (LStr (take ((length bs + 1) mod 65536) (char_byte CHR ''/'' # bs)))"
  by (rule lparse_url_path [OF assms])


theorem long_path_truncated_witness:
  "\<exists>t. lparse_url False plain_env (LStr (char_byte CHR ''/'' # replicate 65536 97)) None = Inr (Some t) \<and>
    t ''request_path'' = Some (LStr [char_byte CHR ''/''])"
proof -
  have "\<forall>c \<in> set (replicate 65536 97). url_byte False c"
    by (simp add: url_byte_def IS_URL_CHAR_def BIT_AT_def normal_url_char_def)
  from long_path_truncated [OF this, of plain_env] show ?thesis by simp
qed

end
