(* ===== verification/Http_Parser.thy ===== *)
theory Http_Parser
  imports Http_Url
begin

unbundle bit_operations_syntax

text \<open>
  The message parser of \<open>deps/http-parser/http_parser.c\<close>: the structure \<open>http_parser\<close>, the macros that run
  callbacks, and \<open>http_parser_execute\<close>, one definition per group of states of its switch. The bit fields and
  counters are natural numbers with their wrap-around written out; a failing \<open>assert\<close> is an error, reading
  outside the data or a table is undefined behaviour.
\<close>

section \<open>The parser\<close>

datatype header_states = h_general | h_C | h_CO | h_CON
  | h_matching_connection | h_matching_proxy_connection | h_matching_content_length
  | h_matching_transfer_encoding | h_matching_upgrade
  | h_connection | h_content_length | h_transfer_encoding | h_upgrade
  | h_matching_transfer_encoding_chunked | h_matching_connection_token_start
  | h_matching_connection_keep_alive | h_matching_connection_close | h_matching_connection_upgrade
  | h_matching_connection_token
  | h_transfer_encoding_chunked | h_connection_keep_alive | h_connection_close | h_connection_upgrade

datatype http_method = HTTP_DELETE | HTTP_GET | HTTP_HEAD | HTTP_POST | HTTP_PUT | HTTP_CONNECT
  | HTTP_OPTIONS | HTTP_TRACE | HTTP_COPY | HTTP_LOCK | HTTP_MKCOL | HTTP_MOVE | HTTP_PROPFIND
  | HTTP_PROPPATCH | HTTP_SEARCH | HTTP_UNLOCK | HTTP_REPORT | HTTP_MKACTIVITY | HTTP_CHECKOUT
  | HTTP_MERGE | HTTP_MSEARCH | HTTP_NOTIFY | HTTP_SUBSCRIBE | HTTP_UNSUBSCRIBE | HTTP_PATCH
  | HTTP_PURGE | HTTP_MKCALENDAR

fun method_strings :: "http_method \<Rightarrow> string" where
  "method_strings HTTP_DELETE = ''DELETE''"
| "method_strings HTTP_GET = ''GET''"
| "method_strings HTTP_HEAD = ''HEAD''"
| "method_strings HTTP_POST = ''POST''"
| "method_strings HTTP_PUT = ''PUT''"
| "method_strings HTTP_CONNECT = ''CONNECT''"
| "method_strings HTTP_OPTIONS = ''OPTIONS''"
| "method_strings HTTP_TRACE = ''TRACE''"
| "method_strings HTTP_COPY = ''COPY''"
| "method_strings HTTP_LOCK = ''LOCK''"
| "method_strings HTTP_MKCOL = ''MKCOL''"
| "method_strings HTTP_MOVE = ''MOVE''"
| "method_strings HTTP_PROPFIND = ''PROPFIND''"
| "method_strings HTTP_PROPPATCH = ''PROPPATCH''"
| "method_strings HTTP_SEARCH = ''SEARCH''"
| "method_strings HTTP_UNLOCK = ''UNLOCK''"
| "method_strings HTTP_REPORT = ''REPORT''"
| "method_strings HTTP_MKACTIVITY = ''MKACTIVITY''"
| "method_strings HTTP_CHECKOUT = ''CHECKOUT''"
| "method_strings HTTP_MERGE = ''MERGE''"
| "method_strings HTTP_MSEARCH = ''M-SEARCH''"
| "method_strings HTTP_NOTIFY = ''NOTIFY''"
| "method_strings HTTP_SUBSCRIBE = ''SUBSCRIBE''"
| "method_strings HTTP_UNSUBSCRIBE = ''UNSUBSCRIBE''"
| "method_strings HTTP_PATCH = ''PATCH''"
| "method_strings HTTP_PURGE = ''PURGE''"
| "method_strings HTTP_MKCALENDAR = ''MKCALENDAR''"

datatype http_parser_type = HTTP_REQUEST | HTTP_RESPONSE | HTTP_BOTH

datatype http_errno = HPE_OK
  | HPE_CB_message_begin | HPE_CB_url | HPE_CB_header_field | HPE_CB_header_value
  | HPE_CB_headers_complete | HPE_CB_body | HPE_CB_message_complete | HPE_CB_status
  | HPE_CB_chunk_header | HPE_CB_chunk_complete
  | HPE_INVALID_EOF_STATE | HPE_HEADER_OVERFLOW | HPE_CLOSED_CONNECTION | HPE_INVALID_VERSION
  | HPE_INVALID_STATUS | HPE_INVALID_METHOD | HPE_INVALID_URL | HPE_INVALID_HOST | HPE_INVALID_PORT
  | HPE_INVALID_PATH | HPE_INVALID_QUERY_STRING | HPE_INVALID_FRAGMENT | HPE_LF_EXPECTED
  | HPE_INVALID_HEADER_TOKEN | HPE_INVALID_CONTENT_LENGTH | HPE_INVALID_CHUNK_SIZE
  | HPE_INVALID_CONSTANT | HPE_INVALID_INTERNAL_STATE | HPE_STRICT | HPE_PAUSED | HPE_UNKNOWN

datatype flag = F_CHUNKED | F_CONNECTION_KEEP_ALIVE | F_CONNECTION_CLOSE | F_CONNECTION_UPGRADE
  | F_TRAILING | F_UPGRADE | F_SKIPBODY

text \<open>The flags are a set of bits, that is a predicate; \<open>index\<close> has 8 bits, \<open>nread\<close> 32, \<open>content_length\<close> 64.\<close>

record http_parser =
  parser_type :: http_parser_type
  flags :: "flag \<Rightarrow> bool"
  pstate :: state
  header_state :: header_states
  index :: nat
  nread :: nat
  content_length :: nat
  http_major :: nat
  http_minor :: nat
  status_code :: nat
  "method" :: http_method
  http_errno :: http_errno
  upgrade :: bool

abbreviation (input) ULLONG_MAX :: nat where "ULLONG_MAX \<equiv> 18446744073709551615"
abbreviation (input) HTTP_MAX_HEADER_SIZE :: nat where "HTTP_MAX_HEADER_SIZE \<equiv> 80 * 1024"
abbreviation (input) CR :: byte where "CR \<equiv> 13"
abbreviation (input) LF :: byte where "LF \<equiv> 10"

definition http_parser_init :: "http_parser_type \<Rightarrow> http_parser" where
  "http_parser_init t = \<lparr>parser_type = t, flags = (\<lambda>_. False),
     pstate = (if t = HTTP_REQUEST then s_start_req else if t = HTTP_RESPONSE then s_start_res else s_start_req_or_res),
     header_state = h_general, index = 0, nread = 0, content_length = 0, http_major = 0, http_minor = 0,
     status_code = 0, method = HTTP_DELETE, http_errno = HPE_OK, upgrade = False\<rparr>"

text \<open>\<open>None\<close>: the parser is in an error state and asserts are enabled.\<close>

definition http_parser_pause :: "bool \<Rightarrow> http_parser \<Rightarrow> http_parser option" where
  "http_parser_pause paused px =
     (if http_errno px = HPE_OK \<or> http_errno px = HPE_PAUSED
      then Some (px\<lparr>http_errno := if paused then HPE_PAUSED else HPE_OK\<rparr>) else None)"

definition http_message_needs_eof :: "http_parser \<Rightarrow> bool" where
  "http_message_needs_eof px =
     (if parser_type px = HTTP_REQUEST then False
      else if status_code px div 100 = 1 \<or> status_code px = 204 \<or> status_code px = 304 \<or> flags px F_SKIPBODY then False
      else if flags px F_CHUNKED \<or> content_length px \<noteq> ULLONG_MAX then False
      else True)"

definition http_should_keep_alive :: "http_parser \<Rightarrow> bool" where
  "http_should_keep_alive px =
     (if http_major px > 0 \<and> http_minor px > 0
      then (if flags px F_CONNECTION_CLOSE then False else \<not> http_message_needs_eof px)
      else if \<not> flags px F_CONNECTION_KEEP_ALIVE then False else \<not> http_message_needs_eof px)"

definition http_body_is_final :: "http_parser \<Rightarrow> bool" where
  "http_body_is_final px \<longleftrightarrow> pstate px = s_message_done"

definition start_state :: "http_parser \<Rightarrow> state" where
  "start_state px = (if parser_type px = HTTP_REQUEST then s_start_req else s_start_res)"

definition NEW_MESSAGE :: "bool \<Rightarrow> http_parser \<Rightarrow> state" where
  "NEW_MESSAGE strict px = (if strict then if http_should_keep_alive px then start_state px else s_dead else start_state px)"

text \<open>The table of token characters, in lower case; 0 for the others.\<close>

definition tokens :: "byte \<Rightarrow> byte" where
  "tokens c =
     (if c \<in> set (map char_byte ''!#$%&*+-.^_`|~'') \<or> c = 39 \<or> IS_NUM c \<or> 97 \<le> c \<and> c \<le> 122 then c
      else if 65 \<le> c \<and> c \<le> 90 then c + 32 else 0)"

definition TOKEN :: "bool \<Rightarrow> byte \<Rightarrow> byte" where
  "TOKEN strict c = (if \<not> strict \<and> c = 32 then 32 else tokens c)"

text \<open>
  The table of hexadecimal digits, with \<open>None\<close> for -1. Its 256 entries have 128 initialisers, so that the
  entries of the bytes from 128 on are 0.
\<close>

definition unhex :: "byte \<Rightarrow> nat option" where
  "unhex c = (if IS_NUM c then Some (unat c - 48)
     else if 97 \<le> c \<and> c \<le> 102 then Some (unat c - 87)
     else if 65 \<le> c \<and> c \<le> 70 then Some (unat c - 55)
     else if 128 \<le> c then Some 0 else None)"

text \<open>\<open>enum state\<close> is ordered: the states up to \<open>s_headers_done\<close> belong to the head of a message.\<close>

definition PARSING_HEADER :: "state \<Rightarrow> bool" where
  "PARSING_HEADER s \<longleftrightarrow> s \<notin> {s_chunk_data, s_chunk_data_almost_done, s_chunk_data_done,
     s_body_identity, s_body_identity_eof, s_message_done}"

section \<open>Callbacks\<close>

datatype http_cb = cb_message_begin | cb_url bytes | cb_status bytes | cb_header_field bytes
  | cb_header_value bytes | cb_headers_complete | cb_body bytes | cb_message_complete
  | cb_chunk_header | cb_chunk_complete

text \<open>
  What a callback does: its return value, whether it pauses the parser, and what it does to the data of the
  user. It reads the parser but, as those of the binding, changes it only by pausing it. A callback that is
  not set does nothing and returns 0.
\<close>

type_synonym 'u callbacks = "http_cb \<Rightarrow> http_parser \<Rightarrow> 'u \<Rightarrow> int \<times> bool \<times> 'u"

datatype mark = M_header_field | M_header_value | M_url | M_body | M_status

text \<open>
  The local variables of \<open>http_parser_execute\<close>: pointers into the data are offsets, \<open>None\<close> is a null mark.
\<close>

record 'u exec =
  px :: http_parser
  p_state :: state
  p :: nat
  ch :: byte
  marks :: "mark \<Rightarrow> nat option"
  user :: 'u

text \<open>
  How a case of the switch ends: \<open>break\<close>, \<open>goto reexecute\<close>, \<open>goto error\<close>, or a return. The parser raises no
  errors of its own but failing assertions.
\<close>

datatype flow = Break | Reexecute | Error | Return nat

type_synonym parser_error = http_error

type_synonym 'u outcome = "(parser_error, flow \<times> 'u exec) res"

definition upd :: "(http_parser \<Rightarrow> http_parser) \<Rightarrow> 'u exec \<Rightarrow> 'u exec" where
  "upd f s = s\<lparr>px := f (px s)\<rparr>"

definition UPDATE_STATE :: "state \<Rightarrow> 'u exec \<Rightarrow> 'u exec" where
  "UPDATE_STATE v s = s\<lparr>p_state := v\<rparr>"

definition SET_ERRNO :: "http_errno \<Rightarrow> 'u exec \<Rightarrow> 'u exec" where
  "SET_ERRNO e s = upd (\<lambda>px. px\<lparr>http_errno := e\<rparr>) s"

definition set_flag :: "flag \<Rightarrow> 'u exec \<Rightarrow> 'u exec" where
  "set_flag f s = upd (\<lambda>px. px\<lparr>flags := (flags px)(f := True)\<rparr>) s"

definition set_header_state :: "header_states \<Rightarrow> 'u exec \<Rightarrow> 'u exec" where
  "set_header_state h s = upd (\<lambda>px. px\<lparr>header_state := h\<rparr>) s"

definition set_index :: "nat \<Rightarrow> 'u exec \<Rightarrow> 'u exec" where
  "set_index i s = upd (\<lambda>px. px\<lparr>index := i mod 256\<rparr>) s"

definition goto_error :: "http_errno \<Rightarrow> 'u exec \<Rightarrow> 'u outcome" where
  "goto_error e s = Inr (Error, SET_ERRNO e s)"

definition check :: "bool \<Rightarrow> 'u outcome \<Rightarrow> 'u outcome" where
  "check b r = (if b then r else Inl (Raise AssertionFailed))"

definition MARK :: "mark \<Rightarrow> 'u exec \<Rightarrow> 'u exec" where
  "MARK m s = (if marks s m = None then s\<lparr>marks := (marks s)(m := Some (p s))\<rparr> else s)"

definition COUNT_HEADER_SIZE :: "nat \<Rightarrow> 'u exec \<Rightarrow> ('u exec \<Rightarrow> 'u outcome) \<Rightarrow> 'u outcome" where
  "COUNT_HEADER_SIZE v s k =
     (let s = upd (\<lambda>px. px\<lparr>nread := (nread px + v) mod 2 ^ 32\<rparr>) s in
      if nread (px s) > HTTP_MAX_HEADER_SIZE then goto_error HPE_HEADER_OVERFLOW s else k s)"

definition STRICT_CHECK :: "bool \<Rightarrow> bool \<Rightarrow> 'u exec \<Rightarrow> ('u exec \<Rightarrow> 'u outcome) \<Rightarrow> 'u outcome" where
  "STRICT_CHECK strict cond s k = (if strict \<and> cond then goto_error HPE_STRICT s else k s)"

fun callback_errno :: "http_cb \<Rightarrow> http_errno" where
  "callback_errno cb_message_begin = HPE_CB_message_begin"
| "callback_errno (cb_url at) = HPE_CB_url"
| "callback_errno (cb_status at) = HPE_CB_status"
| "callback_errno (cb_header_field at) = HPE_CB_header_field"
| "callback_errno (cb_header_value at) = HPE_CB_header_value"
| "callback_errno cb_headers_complete = HPE_CB_headers_complete"
| "callback_errno (cb_body at) = HPE_CB_body"
| "callback_errno cb_message_complete = HPE_CB_message_complete"
| "callback_errno cb_chunk_header = HPE_CB_chunk_header"
| "callback_errno cb_chunk_complete = HPE_CB_chunk_complete"

text \<open>A call: the parser sees the state, a pause sets the error number.\<close>

definition invoke_cb :: "'u callbacks \<Rightarrow> http_cb \<Rightarrow> 'u exec \<Rightarrow> int \<times> 'u exec" where
  "invoke_cb cb c s =
     (let s = upd (\<lambda>px. px\<lparr>pstate := p_state s\<rparr>) s; (r, paused, u) = cb c (px s) (user s) in
      (r, (if paused then SET_ERRNO HPE_PAUSED s else s)\<lparr>user := u\<rparr>))"

definition CALLBACK_NOTIFY_ER :: "'u callbacks \<Rightarrow> http_cb \<Rightarrow> nat \<Rightarrow> 'u exec \<Rightarrow> ('u exec \<Rightarrow> 'u outcome) \<Rightarrow> 'u outcome" where
  "CALLBACK_NOTIFY_ER cb c er s k = check (http_errno (px s) = HPE_OK)
     (let (r, s) = invoke_cb cb c s; s = (if r \<noteq> 0 then SET_ERRNO (callback_errno c) s else s) in
      if http_errno (px s) \<noteq> HPE_OK then Inr (Return er, s) else k s)"

definition CALLBACK_NOTIFY :: "'u callbacks \<Rightarrow> http_cb \<Rightarrow> 'u exec \<Rightarrow> ('u exec \<Rightarrow> 'u outcome) \<Rightarrow> 'u outcome" where
  "CALLBACK_NOTIFY cb c s k = CALLBACK_NOTIFY_ER cb c (p s + 1) s k"

definition CALLBACK_NOTIFY_NOADVANCE :: "'u callbacks \<Rightarrow> http_cb \<Rightarrow> 'u exec \<Rightarrow> ('u exec \<Rightarrow> 'u outcome) \<Rightarrow> 'u outcome" where
  "CALLBACK_NOTIFY_NOADVANCE cb c s k = CALLBACK_NOTIFY_ER cb c (p s) s k"

fun data_cb :: "mark \<Rightarrow> bytes \<Rightarrow> http_cb" where
  "data_cb M_header_field at = cb_header_field at"
| "data_cb M_header_value at = cb_header_value at"
| "data_cb M_url at = cb_url at"
| "data_cb M_body at = cb_body at"
| "data_cb M_status at = cb_status at"

text \<open>The bytes from the mark up to \<open>e\<close>; \<open>er\<close> is what the parser returns when the callback fails.\<close>

definition CALLBACK_DATA_ER :: "'u callbacks \<Rightarrow> bytes \<Rightarrow> mark \<Rightarrow> nat \<Rightarrow> nat \<Rightarrow> 'u exec \<Rightarrow> ('u exec \<Rightarrow> 'u outcome) \<Rightarrow> 'u outcome" where
  "CALLBACK_DATA_ER cb data m e er s k = check (http_errno (px s) = HPE_OK)
     (case marks s m of None \<Rightarrow> k s
      | Some i \<Rightarrow> if e < i \<or> length data < e then Inl (UB OutOfBounds) else
          CALLBACK_NOTIFY_ER cb (data_cb m (take (e - i) (drop i data))) er s
            (\<lambda>s. k (s\<lparr>marks := (marks s)(m := None)\<rparr>)))"

definition CALLBACK_DATA :: "'u callbacks \<Rightarrow> bytes \<Rightarrow> mark \<Rightarrow> 'u exec \<Rightarrow> ('u exec \<Rightarrow> 'u outcome) \<Rightarrow> 'u outcome" where
  "CALLBACK_DATA cb data m s k = CALLBACK_DATA_ER cb data m (p s) (p s + 1) s k"

definition CALLBACK_DATA_NOADVANCE :: "'u callbacks \<Rightarrow> bytes \<Rightarrow> mark \<Rightarrow> 'u exec \<Rightarrow> ('u exec \<Rightarrow> 'u outcome) \<Rightarrow> 'u outcome" where
  "CALLBACK_DATA_NOADVANCE cb data m s k = CALLBACK_DATA_ER cb data m (p s) (p s) s k"

definition BREAK :: "'u exec \<Rightarrow> 'u outcome" where
  "BREAK s = Inr (Break, s)"

definition REEXECUTE :: "'u exec \<Rightarrow> 'u outcome" where
  "REEXECUTE s = Inr (Reexecute, s)"

definition RETURN :: "nat \<Rightarrow> 'u exec \<Rightarrow> 'u outcome" where
  "RETURN v s = Inr (Return v, upd (\<lambda>px. px\<lparr>pstate := p_state s\<rparr>) s)"

end
