(* ===== verification/Http_Exec.thy ===== *)
theory Http_Exec
  imports Http_Parser
begin

text \<open>
  \<open>http_parser_execute\<close>: the cases of its switch, by part of the message, and the loop around them.
\<close>

section \<open>Request lines\<close>

definition chr :: "char \<Rightarrow> byte" where
  "chr c = char_byte c"

definition new_parser_fields :: "http_parser \<Rightarrow> http_parser" where
  "new_parser_fields q = q\<lparr>flags := (\<lambda>_. False), content_length := ULLONG_MAX\<rparr>"

text \<open>The method a first letter stands for.\<close>

definition first_method :: "byte \<Rightarrow> http_method option" where
  "first_method c =
     (if c = chr CHR ''C'' then Some HTTP_CONNECT
      else if c = chr CHR ''D'' then Some HTTP_DELETE
      else if c = chr CHR ''G'' then Some HTTP_GET
      else if c = chr CHR ''H'' then Some HTTP_HEAD
      else if c = chr CHR ''L'' then Some HTTP_LOCK
      else if c = chr CHR ''M'' then Some HTTP_MKCOL
      else if c = chr CHR ''N'' then Some HTTP_NOTIFY
      else if c = chr CHR ''O'' then Some HTTP_OPTIONS
      else if c = chr CHR ''P'' then Some HTTP_POST
      else if c = chr CHR ''R'' then Some HTTP_REPORT
      else if c = chr CHR ''S'' then Some HTTP_SUBSCRIBE
      else if c = chr CHR ''T'' then Some HTTP_TRACE
      else if c = chr CHR ''U'' then Some HTTP_UNLOCK
      else None)"

text \<open>What the method becomes when a letter differs from its name; \<open>None\<close> is an invalid method.\<close>

definition other_method :: "http_method \<Rightarrow> nat \<Rightarrow> byte \<Rightarrow> http_method option" where
  "other_method m i c =
     (if m = HTTP_CONNECT then
        (if i = 1 \<and> c = chr CHR ''H'' then Some HTTP_CHECKOUT
         else if i = 2 \<and> c = chr CHR ''P'' then Some HTTP_COPY else None)
      else if m = HTTP_MKCOL then
        (if i = 1 \<and> c = chr CHR ''O'' then Some HTTP_MOVE
         else if i = 1 \<and> c = chr CHR ''E'' then Some HTTP_MERGE
         else if i = 1 \<and> c = chr CHR ''-'' then Some HTTP_MSEARCH
         else if i = 2 \<and> c = chr CHR ''A'' then Some HTTP_MKACTIVITY
         else if i = 3 \<and> c = chr CHR ''A'' then Some HTTP_MKCALENDAR else None)
      else if m = HTTP_SUBSCRIBE then
        (if i = 1 \<and> c = chr CHR ''E'' then Some HTTP_SEARCH else None)
      else if i = 1 \<and> m = HTTP_POST then
        (if c = chr CHR ''R'' then Some HTTP_PROPFIND
         else if c = chr CHR ''U'' then Some HTTP_PUT
         else if c = chr CHR ''A'' then Some HTTP_PATCH else None)
      else if i = 2 then
        (if m = HTTP_PUT then if c = chr CHR ''R'' then Some HTTP_PURGE else None
         else if m = HTTP_UNLOCK then if c = chr CHR ''S'' then Some HTTP_UNSUBSCRIBE else None
         else None)
      else if i = 4 \<and> m = HTTP_PROPFIND \<and> c = chr CHR ''P'' then Some HTTP_PROPPATCH
      else None)"

text \<open>The byte of a name at an index: zero at its end, out of bounds beyond.\<close>

definition matcher_at :: "string \<Rightarrow> nat \<Rightarrow> byte option" where
  "matcher_at s i = (if i < length s then Some (chr (s ! i)) else if i = length s then Some 0 else None)"

definition exec_start_req :: "'u callbacks \<Rightarrow> 'u exec \<Rightarrow> 'u outcome" where
  "exec_start_req cb s =
     (if ch s = CR \<or> ch s = LF then BREAK s else
      let s = upd new_parser_fields s in
      if \<not> IS_ALPHA (ch s) then goto_error HPE_INVALID_METHOD s else
      let s = upd (\<lambda>px. px\<lparr>method := HTTP_DELETE, index := 1\<rparr>) s in
      case first_method (ch s) of
        None \<Rightarrow> goto_error HPE_INVALID_METHOD s
      | Some m \<Rightarrow> CALLBACK_NOTIFY cb cb_message_begin
          (UPDATE_STATE s_req_method (upd (\<lambda>px. px\<lparr>method := m\<rparr>) s)) BREAK)"

definition exec_req_method :: "'u exec \<Rightarrow> 'u outcome" where
  "exec_req_method s =
     (if ch s = 0 then goto_error HPE_INVALID_METHOD s else
      let m = method (px s); i = index (px s); next = (\<lambda>s. BREAK (set_index (i + 1) s)) in
      case matcher_at (method_strings m) i of
        None \<Rightarrow> Inl (UB OutOfBounds)
      | Some c \<Rightarrow>
          if ch s = 32 \<and> c = 0 then next (UPDATE_STATE s_req_spaces_before_url s)
          else if ch s = c then next s
          else case other_method m i (ch s) of
              None \<Rightarrow> goto_error HPE_INVALID_METHOD s
            | Some m \<Rightarrow> next (upd (\<lambda>px. px\<lparr>method := m\<rparr>) s))"

text \<open>A byte of a URL.\<close>

definition url_char :: "bool \<Rightarrow> 'u exec \<Rightarrow> 'u outcome" where
  "url_char strict s = (let s = UPDATE_STATE (parse_url_char strict (p_state s) (ch s)) s in
     if p_state s = s_dead then goto_error HPE_INVALID_URL s else BREAK s)"

definition exec_url :: "bool \<Rightarrow> 'u callbacks \<Rightarrow> bytes \<Rightarrow> 'u exec \<Rightarrow> 'u outcome" where
  "exec_url strict cb data s =
     (if p_state s = s_req_spaces_before_url then
        if ch s = 32 then BREAK s else
        let s = MARK M_url s;
            s = (if method (px s) = HTTP_CONNECT then UPDATE_STATE s_req_server_start s else s)
        in url_char strict s
      else if p_state s \<in> {s_req_schema, s_req_schema_slash, s_req_schema_slash_slash, s_req_server_start} then
        if ch s = 32 \<or> ch s = CR \<or> ch s = LF then goto_error HPE_INVALID_URL s else url_char strict s
      else
        if ch s = 32 then CALLBACK_DATA cb data M_url (UPDATE_STATE s_req_http_start s) BREAK
        else if ch s = CR \<or> ch s = LF then
          CALLBACK_DATA cb data M_url
            (UPDATE_STATE (if ch s = CR then s_req_line_almost_done else s_header_field_start)
              (upd (\<lambda>px. px\<lparr>http_major := 0, http_minor := 9\<rparr>) s)) BREAK
        else url_char strict s)"

text \<open>Digits of a version or status: \<open>bits\<close> wide fields, limited to 999.\<close>

definition digit :: "byte \<Rightarrow> nat" where
  "digit c = unat c - 48"

definition exec_req_version :: "bool \<Rightarrow> 'u exec \<Rightarrow> 'u outcome" where
  "exec_req_version strict s = (case p_state s of
     s_req_http_start \<Rightarrow>
       if ch s = chr CHR ''H'' then BREAK (UPDATE_STATE s_req_http_H s)
       else if ch s = 32 then BREAK s else goto_error HPE_INVALID_CONSTANT s
   | s_req_http_H \<Rightarrow> STRICT_CHECK strict (ch s \<noteq> chr CHR ''T'') s (\<lambda>s. BREAK (UPDATE_STATE s_req_http_HT s))
   | s_req_http_HT \<Rightarrow> STRICT_CHECK strict (ch s \<noteq> chr CHR ''T'') s (\<lambda>s. BREAK (UPDATE_STATE s_req_http_HTT s))
   | s_req_http_HTT \<Rightarrow> STRICT_CHECK strict (ch s \<noteq> chr CHR ''P'') s (\<lambda>s. BREAK (UPDATE_STATE s_req_http_HTTP s))
   | s_req_http_HTTP \<Rightarrow> STRICT_CHECK strict (ch s \<noteq> chr CHR ''/'') s (\<lambda>s. BREAK (UPDATE_STATE s_req_first_http_major s))
   | s_req_first_http_major \<Rightarrow>
       if \<not> IS_NUM (ch s) \<or> ch s = chr CHR ''0'' then goto_error HPE_INVALID_VERSION s
       else BREAK (UPDATE_STATE s_req_http_major (upd (\<lambda>px. px\<lparr>http_major := digit (ch s)\<rparr>) s))
   | s_req_http_major \<Rightarrow>
       if ch s = chr CHR ''.'' then BREAK (UPDATE_STATE s_req_first_http_minor s)
       else if \<not> IS_NUM (ch s) then goto_error HPE_INVALID_VERSION s
       else let s = upd (\<lambda>px. px\<lparr>http_major := (http_major px * 10 + digit (ch s)) mod 2 ^ 16\<rparr>) s in
         if http_major (px s) > 999 then goto_error HPE_INVALID_VERSION s else BREAK s
   | s_req_first_http_minor \<Rightarrow>
       if \<not> IS_NUM (ch s) then goto_error HPE_INVALID_VERSION s
       else BREAK (UPDATE_STATE s_req_http_minor (upd (\<lambda>px. px\<lparr>http_minor := digit (ch s)\<rparr>) s))
   | s_req_http_minor \<Rightarrow>
       if ch s = CR then BREAK (UPDATE_STATE s_req_line_almost_done s)
       else if ch s = LF then BREAK (UPDATE_STATE s_header_field_start s)
       else if \<not> IS_NUM (ch s) then goto_error HPE_INVALID_VERSION s
       else let s = upd (\<lambda>px. px\<lparr>http_minor := (http_minor px * 10 + digit (ch s)) mod 2 ^ 16\<rparr>) s in
         if http_minor (px s) > 999 then goto_error HPE_INVALID_VERSION s else BREAK s
   | _ \<Rightarrow>
       if ch s \<noteq> LF then goto_error HPE_LF_EXPECTED s else BREAK (UPDATE_STATE s_header_field_start s))"

section \<open>Status lines\<close>

definition exec_start_req_or_res :: "'u callbacks \<Rightarrow> 'u exec \<Rightarrow> 'u outcome" where
  "exec_start_req_or_res cb s =
     (if ch s = CR \<or> ch s = LF then BREAK s else
      let s = upd new_parser_fields s in
      if ch s = chr CHR ''H'' then CALLBACK_NOTIFY cb cb_message_begin (UPDATE_STATE s_res_or_resp_H s) BREAK
      else REEXECUTE (UPDATE_STATE s_start_req (upd (\<lambda>px. px\<lparr>parser_type := HTTP_REQUEST\<rparr>) s)))"

definition exec_res_or_resp_H :: "'u exec \<Rightarrow> 'u outcome" where
  "exec_res_or_resp_H s =
     (if ch s = chr CHR ''T'' then
        BREAK (UPDATE_STATE s_res_HT (upd (\<lambda>px. px\<lparr>parser_type := HTTP_RESPONSE\<rparr>) s))
      else if ch s \<noteq> chr CHR ''E'' then goto_error HPE_INVALID_CONSTANT s
      else BREAK (UPDATE_STATE s_req_method
        (upd (\<lambda>px. px\<lparr>parser_type := HTTP_REQUEST, method := HTTP_HEAD, index := 2\<rparr>) s)))"

definition exec_start_res :: "'u callbacks \<Rightarrow> 'u exec \<Rightarrow> 'u outcome" where
  "exec_start_res cb s =
     (let s = upd new_parser_fields s in
      if ch s = chr CHR ''H'' then CALLBACK_NOTIFY cb cb_message_begin (UPDATE_STATE s_res_H s) BREAK
      else if ch s = CR \<or> ch s = LF then CALLBACK_NOTIFY cb cb_message_begin s BREAK
      else goto_error HPE_INVALID_CONSTANT s)"

definition exec_res_version :: "bool \<Rightarrow> 'u exec \<Rightarrow> 'u outcome" where
  "exec_res_version strict s = (case p_state s of
     s_res_H \<Rightarrow> STRICT_CHECK strict (ch s \<noteq> chr CHR ''T'') s (\<lambda>s. BREAK (UPDATE_STATE s_res_HT s))
   | s_res_HT \<Rightarrow> STRICT_CHECK strict (ch s \<noteq> chr CHR ''T'') s (\<lambda>s. BREAK (UPDATE_STATE s_res_HTT s))
   | s_res_HTT \<Rightarrow> STRICT_CHECK strict (ch s \<noteq> chr CHR ''P'') s (\<lambda>s. BREAK (UPDATE_STATE s_res_HTTP s))
   | s_res_HTTP \<Rightarrow> STRICT_CHECK strict (ch s \<noteq> chr CHR ''/'') s (\<lambda>s. BREAK (UPDATE_STATE s_res_first_http_major s))
   | s_res_first_http_major \<Rightarrow>
       if \<not> IS_NUM (ch s) then goto_error HPE_INVALID_VERSION s
       else BREAK (UPDATE_STATE s_res_http_major (upd (\<lambda>px. px\<lparr>http_major := digit (ch s)\<rparr>) s))
   | s_res_http_major \<Rightarrow>
       if ch s = chr CHR ''.'' then BREAK (UPDATE_STATE s_res_first_http_minor s)
       else if \<not> IS_NUM (ch s) then goto_error HPE_INVALID_VERSION s
       else let s = upd (\<lambda>px. px\<lparr>http_major := (http_major px * 10 + digit (ch s)) mod 2 ^ 16\<rparr>) s in
         if http_major (px s) > 999 then goto_error HPE_INVALID_VERSION s else BREAK s
   | s_res_first_http_minor \<Rightarrow>
       if \<not> IS_NUM (ch s) then goto_error HPE_INVALID_VERSION s
       else BREAK (UPDATE_STATE s_res_http_minor (upd (\<lambda>px. px\<lparr>http_minor := digit (ch s)\<rparr>) s))
   | _ \<Rightarrow>
       if ch s = 32 then BREAK (UPDATE_STATE s_res_first_status_code s)
       else if \<not> IS_NUM (ch s) then goto_error HPE_INVALID_VERSION s
       else let s = upd (\<lambda>px. px\<lparr>http_minor := (http_minor px * 10 + digit (ch s)) mod 2 ^ 16\<rparr>) s in
         if http_minor (px s) > 999 then goto_error HPE_INVALID_VERSION s else BREAK s)"

definition exec_res_status :: "bool \<Rightarrow> 'u callbacks \<Rightarrow> bytes \<Rightarrow> 'u exec \<Rightarrow> 'u outcome" where
  "exec_res_status strict cb data s = (case p_state s of
     s_res_first_status_code \<Rightarrow>
       if \<not> IS_NUM (ch s) then if ch s = 32 then BREAK s else goto_error HPE_INVALID_STATUS s
       else BREAK (UPDATE_STATE s_res_status_code (upd (\<lambda>px. px\<lparr>status_code := digit (ch s)\<rparr>) s))
   | s_res_status_code \<Rightarrow>
       if \<not> IS_NUM (ch s) then
         if ch s = 32 then BREAK (UPDATE_STATE s_res_status_start s)
         else if ch s = CR then BREAK (UPDATE_STATE s_res_line_almost_done s)
         else if ch s = LF then BREAK (UPDATE_STATE s_header_field_start s)
         else goto_error HPE_INVALID_STATUS s
       else let s = upd (\<lambda>px. px\<lparr>status_code := (status_code px * 10 + digit (ch s)) mod 2 ^ 16\<rparr>) s in
         if status_code (px s) > 999 then goto_error HPE_INVALID_STATUS s else BREAK s
   | s_res_status_start \<Rightarrow>
       if ch s = CR then BREAK (UPDATE_STATE s_res_line_almost_done s)
       else if ch s = LF then BREAK (UPDATE_STATE s_header_field_start s)
       else BREAK (set_index 0 (UPDATE_STATE s_res_status (MARK M_status s)))
   | s_res_status \<Rightarrow>
       if ch s = CR then CALLBACK_DATA cb data M_status (UPDATE_STATE s_res_line_almost_done s) BREAK
       else if ch s = LF then CALLBACK_DATA cb data M_status (UPDATE_STATE s_header_field_start s) BREAK
       else BREAK s
   | _ \<Rightarrow>
       STRICT_CHECK strict (ch s \<noteq> LF) s (\<lambda>s. BREAK (UPDATE_STATE s_header_field_start s)))"

section \<open>Header fields\<close>

text \<open>
  One letter of a header name: the names that matter to the parser are followed as they are read. \<open>c\<close> is the
  letter in lower case. Reading a name beyond its final zero byte would be out of bounds.
\<close>

definition match_name :: "string \<Rightarrow> header_states \<Rightarrow> header_states \<Rightarrow> byte \<Rightarrow> http_parser \<Rightarrow> (parser_error, header_states \<times> http_parser) res" where
  "match_name name found lost c q =
     (let i = (index q + 1) mod 256; q = q\<lparr>index := i\<rparr> in
      if i > length name then Inr (lost, q) else
      case matcher_at name i of
        None \<Rightarrow> Inl (UB OutOfBounds)
      | Some n \<Rightarrow> if c \<noteq> n then Inr (lost, q)
          else if i = length name - 1 then Inr (found, q) else Inr (header_state q, q))"

definition matching :: "string \<Rightarrow> header_states \<Rightarrow> byte \<Rightarrow> http_parser \<Rightarrow> (parser_error, http_parser) res" where
  "matching name found c q = rbind (match_name name found h_general c q) (\<lambda>(h, q). Inr (q\<lparr>header_state := h\<rparr>))"

definition field_char :: "byte \<Rightarrow> byte \<Rightarrow> http_parser \<Rightarrow> (parser_error, http_parser) res" where
  "field_char b c q = (let next = q\<lparr>index := (index q + 1) mod 256\<rparr> in
     case header_state q of
       h_general \<Rightarrow> Inr q
     | h_C \<Rightarrow> Inr (next\<lparr>header_state := if c = chr CHR ''o'' then h_CO else h_general\<rparr>)
     | h_CO \<Rightarrow> Inr (next\<lparr>header_state := if c = chr CHR ''n'' then h_CON else h_general\<rparr>)
     | h_CON \<Rightarrow> Inr (next\<lparr>header_state := if c = chr CHR ''n'' then h_matching_connection
         else if c = chr CHR ''t'' then h_matching_content_length else h_general\<rparr>)
     | h_matching_connection \<Rightarrow> matching ''connection'' h_connection c q
     | h_matching_proxy_connection \<Rightarrow> matching ''proxy-connection'' h_connection c q
     | h_matching_content_length \<Rightarrow> matching ''content-length'' h_content_length c q
     | h_matching_transfer_encoding \<Rightarrow> matching ''transfer-encoding'' h_transfer_encoding c q
     | h_matching_upgrade \<Rightarrow> matching ''upgrade'' h_upgrade c q
     | h_connection \<Rightarrow> Inr (if b \<noteq> 32 then q\<lparr>header_state := h_general\<rparr> else q)
     | h_content_length \<Rightarrow> Inr (if b \<noteq> 32 then q\<lparr>header_state := h_general\<rparr> else q)
     | h_transfer_encoding \<Rightarrow> Inr (if b \<noteq> 32 then q\<lparr>header_state := h_general\<rparr> else q)
     | h_upgrade \<Rightarrow> Inr (if b \<noteq> 32 then q\<lparr>header_state := h_general\<rparr> else q)
     | _ \<Rightarrow> Inl (Raise AssertionFailed))"

text \<open>The inner loop over the name: it ends at the end of the data or at a byte that is no token.\<close>

fun field_loop :: "bool \<Rightarrow> bytes \<Rightarrow> nat \<Rightarrow> byte \<Rightarrow> http_parser \<Rightarrow> (parser_error, nat \<times> byte \<times> http_parser) res" where
  "field_loop strict [] pos b q = Inr (pos, b, q)"
| "field_loop strict (b # rest) pos _ q =
     (if TOKEN strict b = 0 then Inr (pos, b, q)
      else rbind (field_char b (TOKEN strict b) q) (\<lambda>q. field_loop strict rest (pos + 1) b q))"

definition first_header_state :: "byte \<Rightarrow> header_states" where
  "first_header_state c =
     (if c = chr CHR ''c'' then h_C
      else if c = chr CHR ''p'' then h_matching_proxy_connection
      else if c = chr CHR ''t'' then h_matching_transfer_encoding
      else if c = chr CHR ''u'' then h_matching_upgrade
      else h_general)"

definition exec_header_field_start :: "bool \<Rightarrow> 'u exec \<Rightarrow> 'u outcome" where
  "exec_header_field_start strict s =
     (if ch s = CR then BREAK (UPDATE_STATE s_headers_almost_done s)
      else if ch s = LF then REEXECUTE (UPDATE_STATE s_headers_almost_done s)
      else if TOKEN strict (ch s) = 0 then goto_error HPE_INVALID_HEADER_TOKEN s
      else BREAK (set_header_state (first_header_state (TOKEN strict (ch s)))
        (UPDATE_STATE s_header_field (set_index 0 (MARK M_header_field s)))))"

definition exec_header_field :: "bool \<Rightarrow> 'u callbacks \<Rightarrow> bytes \<Rightarrow> 'u exec \<Rightarrow> 'u outcome" where
  "exec_header_field strict cb data s =
     (let start = p s in
      rbind (field_loop strict (drop start data) start (ch s) (px s)) (\<lambda>(pos, b, q).
      COUNT_HEADER_SIZE (pos - start) (s\<lparr>p := pos, ch := b, px := q\<rparr>) (\<lambda>s.
      if pos = length data then BREAK (s\<lparr>p := pos - 1\<rparr>)
      else if b = chr CHR '':'' then
        CALLBACK_DATA cb data M_header_field (UPDATE_STATE s_header_value_discard_ws s) BREAK
      else goto_error HPE_INVALID_HEADER_TOKEN s)))"

section \<open>Header values\<close>

definition exec_header_value_start :: "'u exec \<Rightarrow> 'u outcome" where
  "exec_header_value_start s =
     (let s = set_index 0 (UPDATE_STATE s_header_value (MARK M_header_value s)); c = LOWER (ch s) in
      case header_state (px s) of
        h_upgrade \<Rightarrow> BREAK (set_header_state h_general (set_flag F_UPGRADE s))
      | h_transfer_encoding \<Rightarrow>
          BREAK (set_header_state (if c = chr CHR ''c'' then h_matching_transfer_encoding_chunked else h_general) s)
      | h_content_length \<Rightarrow>
          if \<not> IS_NUM (ch s) then goto_error HPE_INVALID_CONTENT_LENGTH s
          else BREAK (upd (\<lambda>q. q\<lparr>content_length := digit (ch s)\<rparr>) s)
      | h_connection \<Rightarrow>
          BREAK (set_header_state
            (if c = chr CHR ''k'' then h_matching_connection_keep_alive
             else if c = chr CHR ''c'' then h_matching_connection_close
             else if c = chr CHR ''u'' then h_matching_connection_upgrade
             else h_matching_connection_token) s)
      | h_matching_connection_token_start \<Rightarrow> BREAK s
      | _ \<Rightarrow> BREAK (set_header_state h_general s))"

definition exec_discard_ws :: "'u exec \<Rightarrow> 'u outcome" where
  "exec_discard_ws s =
     (if ch s = 32 \<or> ch s = 9 then BREAK s
      else if ch s = CR then BREAK (UPDATE_STATE s_header_value_discard_ws_almost_done s)
      else if ch s = LF then BREAK (UPDATE_STATE s_header_value_discard_lws s)
      else exec_header_value_start s)"

definition memchr :: "byte \<Rightarrow> bytes \<Rightarrow> nat option" where
  "memchr c bs = (let i = length (takeWhile (\<lambda>b. b \<noteq> c) bs) in if i < length bs then Some i else None)"

text \<open>The fast path for values that do not matter: how far the end of the line, or of the data, is.\<close>

definition skip_general :: "bytes \<Rightarrow> nat" where
  "skip_general rest =
     (let limit = min (length rest) HTTP_MAX_HEADER_SIZE;
          p_cr = memchr CR (take limit rest); p_lf = memchr LF (take limit rest)
      in case p_cr of
           Some c \<Rightarrow> (case p_lf of Some l \<Rightarrow> if c \<ge> l then l else c | None \<Rightarrow> c)
         | None \<Rightarrow> (case p_lf of Some l \<Rightarrow> l | None \<Rightarrow> length rest))"

text \<open>The states in which a value is compared with a word, one byte \<open>b\<close> of it.\<close>

definition match_value :: "string \<Rightarrow> header_states \<Rightarrow> header_states \<Rightarrow> byte \<Rightarrow> header_states \<times> http_parser \<Rightarrow>
    (parser_error, header_states \<times> http_parser) res" where
  "match_value name found lost c hq = (case hq of (h, q) \<Rightarrow>
     rbind (match_name name found lost c (q\<lparr>header_state := h\<rparr>)) (\<lambda>(h, q'). Inr (h, q'\<lparr>header_state := header_state q\<rparr>)))"

datatype value_error = BadLength

text \<open>After one of the words of a \<open>Connection\<close> header: a comma confirms it.\<close>

definition connection_token :: "byte \<Rightarrow> flag \<Rightarrow> header_states \<Rightarrow> http_parser \<Rightarrow> header_states \<times> http_parser" where
  "connection_token b f h q =
     (if b = chr CHR '','' then (h_matching_connection_token_start, q\<lparr>flags := (flags q)(f := True), index := 0\<rparr>)
      else if b \<noteq> 32 then (h_matching_connection_token, q) else (h, q))"

definition value_char :: "byte \<Rightarrow> header_states \<times> http_parser \<Rightarrow>
    (parser_error, value_error + header_states \<times> http_parser) res" where
  "value_char b hq = (case hq of (h, q) \<Rightarrow> let c = LOWER b in
     case h of
       h_connection \<Rightarrow> Inl (Raise AssertionFailed)
     | h_transfer_encoding \<Rightarrow> Inl (Raise AssertionFailed)
     | h_content_length \<Rightarrow>
         if b = 32 then Inr (Inr (h, q))
         else if \<not> IS_NUM b then Inr (Inl BadLength)
         else if (ULLONG_MAX - 10) div 10 < content_length q then Inr (Inl BadLength)
         else Inr (Inr (h, q\<lparr>content_length := (content_length q * 10 + digit b) mod 2 ^ 64\<rparr>))
     | h_matching_transfer_encoding_chunked \<Rightarrow>
         rbind (match_value ''chunked'' h_transfer_encoding_chunked h_general c (h, q)) (\<lambda>r. Inr (Inr r))
     | h_matching_connection_token_start \<Rightarrow>
         Inr (Inr (if c = chr CHR ''k'' then h_matching_connection_keep_alive
           else if c = chr CHR ''c'' then h_matching_connection_close
           else if c = chr CHR ''u'' then h_matching_connection_upgrade
           else if tokens c \<noteq> 0 then h_matching_connection_token
           else if c = 32 \<or> c = 9 then h else h_general, q))
     | h_matching_connection_keep_alive \<Rightarrow>
         rbind (match_value ''keep-alive'' h_connection_keep_alive h_matching_connection_token c (h, q)) (\<lambda>r. Inr (Inr r))
     | h_matching_connection_close \<Rightarrow>
         rbind (match_value ''close'' h_connection_close h_matching_connection_token c (h, q)) (\<lambda>r. Inr (Inr r))
     | h_matching_connection_upgrade \<Rightarrow>
         rbind (match_value ''upgrade'' h_connection_upgrade h_matching_connection_token c (h, q)) (\<lambda>r. Inr (Inr r))
     | h_matching_connection_token \<Rightarrow>
         Inr (Inr (if b = chr CHR '','' then (h_matching_connection_token_start, q\<lparr>index := 0\<rparr>) else (h, q)))
     | h_transfer_encoding_chunked \<Rightarrow> Inr (Inr (if b \<noteq> 32 then h_general else h, q))
     | h_connection_keep_alive \<Rightarrow> Inr (Inr (connection_token b F_CONNECTION_KEEP_ALIVE h q))
     | h_connection_close \<Rightarrow> Inr (Inr (connection_token b F_CONNECTION_CLOSE h q))
     | h_connection_upgrade \<Rightarrow> Inr (Inr (connection_token b F_CONNECTION_UPGRADE h q))
     | _ \<Rightarrow> Inr (Inr (h_general, q)))"

text \<open>
  The loop over a value: \<open>rest\<close> is the data from \<open>pos\<close> on. It ends at a line end, which stays to be read, at the
  end of the data, or with an error.
\<close>

datatype value_end = Line_end | Data_end | Length_error

lemma memchr_Some: "memchr c bs = Some i \<Longrightarrow> i < length bs \<and> bs ! i = c"
  by (auto simp: memchr_def Let_def split: if_splits dest: nth_length_takeWhile)

lemma memchr_pos: "memchr c (b # bs) = Some i \<Longrightarrow> b \<noteq> c \<Longrightarrow> 0 < i"
  using memchr_Some [of c "b # bs" i] by (cases i) auto

lemma skip_general_pos:
  assumes "b \<noteq> CR" and "b \<noteq> LF"
  shows "0 < skip_general (b # rest)"
proof -
  obtain k where "min (length (b # rest)) HTTP_MAX_HEADER_SIZE = Suc k" by (cases "length rest") auto
  then have "take (min (length (b # rest)) HTTP_MAX_HEADER_SIZE) (b # rest) = b # take k rest" by simp
  then show ?thesis
    using memchr_pos [of CR b "take k rest"] memchr_pos [of LF b "take k rest"] assms
    by (auto simp: skip_general_def Let_def split: option.splits)
qed

function value_loop :: "bytes \<Rightarrow> nat \<Rightarrow> byte \<Rightarrow> header_states \<times> http_parser \<Rightarrow>
    (parser_error, value_end \<times> nat \<times> byte \<times> header_states \<times> http_parser) res" where
  "value_loop [] pos b hq = Inr (Data_end, pos, b, hq)"
| "value_loop (b # rest) pos _ hq =
     (if b = CR \<or> b = LF then Inr (Line_end, pos, b, hq)
      else if fst hq = h_general then
        value_loop (drop (skip_general (b # rest)) (b # rest)) (pos + skip_general (b # rest)) b hq
      else rbind (value_char b hq) (\<lambda>r. case r of
          Inl BadLength \<Rightarrow> Inr (Length_error, pos, b, hq)
        | Inr hq \<Rightarrow> value_loop rest (pos + 1) b hq))"
  by pat_completeness auto
termination
  by (relation "measure (\<lambda>(bs, pos, b, hq). length bs)") (use skip_general_pos in \<open>auto simp: not_less_eq\<close>)

declare value_loop.simps(2) [simp del]

definition exec_header_value :: "'u callbacks \<Rightarrow> bytes \<Rightarrow> 'u exec \<Rightarrow> 'u outcome" where
  "exec_header_value cb data s =
     (let start = p s in
      rbind (value_loop (drop start data) start (ch s) (header_state (px s), px s)) (\<lambda>(e, pos, b, h, q).
      let s = s\<lparr>p := pos, ch := b, px := q\<rparr> in
      case e of
        Length_error \<Rightarrow> goto_error HPE_INVALID_CONTENT_LENGTH (set_header_state h s)
      | Data_end \<Rightarrow> COUNT_HEADER_SIZE (pos - start) (set_header_state h s) (\<lambda>s. BREAK (s\<lparr>p := pos - 1\<rparr>))
      | Line_end \<Rightarrow>
          let s = UPDATE_STATE s_header_almost_done s in
          if b = CR then
            CALLBACK_DATA cb data M_header_value (set_header_state h s) (\<lambda>s. COUNT_HEADER_SIZE (pos - start) s BREAK)
          else COUNT_HEADER_SIZE (pos - start) s (\<lambda>s.
            CALLBACK_DATA_NOADVANCE cb data M_header_value (set_header_state h s) REEXECUTE)))"

section \<open>The end of a header\<close>

text \<open>What the value just finished says about the message.\<close>

definition finish_header :: "'u exec \<Rightarrow> 'u exec" where
  "finish_header s = (case header_state (px s) of
     h_connection_keep_alive \<Rightarrow> set_flag F_CONNECTION_KEEP_ALIVE s
   | h_connection_close \<Rightarrow> set_flag F_CONNECTION_CLOSE s
   | h_transfer_encoding_chunked \<Rightarrow> set_flag F_CHUNKED s
   | h_connection_upgrade \<Rightarrow> set_flag F_CONNECTION_UPGRADE s
   | _ \<Rightarrow> s)"

definition exec_header_end :: "bool \<Rightarrow> 'u callbacks \<Rightarrow> bytes \<Rightarrow> 'u exec \<Rightarrow> 'u outcome" where
  "exec_header_end strict cb data s = (case p_state s of
     s_header_almost_done \<Rightarrow> STRICT_CHECK strict (ch s \<noteq> LF) s (\<lambda>s. BREAK (UPDATE_STATE s_header_value_lws s))
   | s_header_value_lws \<Rightarrow>
       if ch s = 32 \<or> ch s = 9 then REEXECUTE (UPDATE_STATE s_header_value_start s)
       else REEXECUTE (UPDATE_STATE s_header_field_start (finish_header s))
   | s_header_value_discard_ws_almost_done \<Rightarrow>
       STRICT_CHECK strict (ch s \<noteq> LF) s (\<lambda>s. BREAK (UPDATE_STATE s_header_value_discard_lws s))
   | _ \<Rightarrow>
       if ch s = 32 \<or> ch s = 9 then BREAK (UPDATE_STATE s_header_value_discard_ws s)
       else CALLBACK_DATA_NOADVANCE cb data M_header_value
         (UPDATE_STATE s_header_field_start (MARK M_header_value (finish_header s))) REEXECUTE)"

definition exec_headers_almost_done :: "bool \<Rightarrow> 'u callbacks \<Rightarrow> 'u exec \<Rightarrow> 'u outcome" where
  "exec_headers_almost_done strict cb s = STRICT_CHECK strict (ch s \<noteq> LF) s (\<lambda>s.
     if flags (px s) F_TRAILING then
       CALLBACK_NOTIFY_NOADVANCE cb cb_chunk_complete (UPDATE_STATE s_message_done s) REEXECUTE
     else
       let s = UPDATE_STATE s_headers_done s;
           s = upd (\<lambda>q. q\<lparr>upgrade := flags q F_UPGRADE \<and> flags q F_CONNECTION_UPGRADE \<or> method q = HTTP_CONNECT\<rparr>) s;
           (r, s) = invoke_cb cb cb_headers_complete (s\<lparr>p_state := pstate (px s)\<rparr>);
           s = UPDATE_STATE s_headers_done s;
           s = (if r = 1 then set_flag F_SKIPBODY s else s)
       in if r \<noteq> 0 \<and> r \<noteq> 1 then RETURN (p s) (SET_ERRNO HPE_CB_headers_complete s)
       else if http_errno (px s) \<noteq> HPE_OK then RETURN (p s) s
       else REEXECUTE s)"

definition exec_headers_done :: "bool \<Rightarrow> 'u callbacks \<Rightarrow> 'u exec \<Rightarrow> 'u outcome" where
  "exec_headers_done strict cb s = STRICT_CHECK strict (ch s \<noteq> LF) s (\<lambda>s.
     let s = upd (\<lambda>q. q\<lparr>nread := 0\<rparr>) s; q = px s;
         hasBody = (flags q F_CHUNKED \<or> content_length q > 0 \<and> content_length q \<noteq> ULLONG_MAX);
         complete = (\<lambda>k. CALLBACK_NOTIFY cb cb_message_complete (UPDATE_STATE (NEW_MESSAGE strict q) s) k)
     in if upgrade q \<and> (method q = HTTP_CONNECT \<or> flags q F_SKIPBODY \<or> \<not> hasBody)
       then complete (\<lambda>s. RETURN (p s + 1) s)
       else if flags q F_SKIPBODY then complete BREAK
       else if flags q F_CHUNKED then BREAK (UPDATE_STATE s_chunk_size_start s)
       else if content_length q = 0 then complete BREAK
       else if content_length q \<noteq> ULLONG_MAX then BREAK (UPDATE_STATE s_body_identity s)
       else if parser_type q = HTTP_REQUEST \<or> \<not> http_message_needs_eof q then complete BREAK
       else BREAK (UPDATE_STATE s_body_identity_eof s))"

section \<open>Bodies\<close>

text \<open>Taking \<open>to_read\<close> bytes: the last of them stays the current one.\<close>

definition take_body :: "bytes \<Rightarrow> 'u exec \<Rightarrow> 'u exec" where
  "take_body data s = (let to_read = min (content_length (px s)) (length data - p s); s = MARK M_body s in
     upd (\<lambda>q. q\<lparr>content_length := content_length q - to_read\<rparr>) (s\<lparr>p := p s + to_read - 1\<rparr>))"

definition body_length_ok :: "'u exec \<Rightarrow> bool" where
  "body_length_ok s \<longleftrightarrow> content_length (px s) \<noteq> 0 \<and> content_length (px s) \<noteq> ULLONG_MAX"

definition exec_body :: "bool \<Rightarrow> 'u callbacks \<Rightarrow> bytes \<Rightarrow> 'u exec \<Rightarrow> 'u outcome" where
  "exec_body strict cb data s = (case p_state s of
     s_body_identity \<Rightarrow> check (body_length_ok s) (let s = take_body data s in
       if content_length (px s) = 0
       then CALLBACK_DATA_ER cb data M_body (p s + 1) (p s) (UPDATE_STATE s_message_done s) REEXECUTE
       else BREAK s)
   | s_body_identity_eof \<Rightarrow> BREAK ((MARK M_body s)\<lparr>p := length data - 1\<rparr>)
   | _ \<Rightarrow> CALLBACK_NOTIFY cb cb_message_complete (UPDATE_STATE (NEW_MESSAGE strict (px s)) s)
       (\<lambda>s. if upgrade (px s) then RETURN (p s + 1) s else BREAK s))"

definition exec_chunk_size :: "bool \<Rightarrow> 'u callbacks \<Rightarrow> 'u exec \<Rightarrow> 'u outcome" where
  "exec_chunk_size strict cb s = (case p_state s of
     s_chunk_size_start \<Rightarrow> check (nread (px s) = 1 \<and> flags (px s) F_CHUNKED) (case unhex (ch s) of
         None \<Rightarrow> goto_error HPE_INVALID_CHUNK_SIZE s
       | Some v \<Rightarrow> BREAK (UPDATE_STATE s_chunk_size (upd (\<lambda>q. q\<lparr>content_length := v\<rparr>) s)))
   | s_chunk_size \<Rightarrow> check (flags (px s) F_CHUNKED)
       (if ch s = CR then BREAK (UPDATE_STATE s_chunk_size_almost_done s) else
        case unhex (ch s) of
          None \<Rightarrow> if ch s = chr CHR '';'' \<or> ch s = 32 then BREAK (UPDATE_STATE s_chunk_parameters s)
            else goto_error HPE_INVALID_CHUNK_SIZE s
        | Some v \<Rightarrow>
            if (ULLONG_MAX - 16) div 16 < content_length (px s) then goto_error HPE_INVALID_CONTENT_LENGTH s
            else BREAK (upd (\<lambda>q. q\<lparr>content_length := (content_length q * 16 + v) mod 2 ^ 64\<rparr>) s))
   | s_chunk_parameters \<Rightarrow> check (flags (px s) F_CHUNKED)
       (if ch s = CR then BREAK (UPDATE_STATE s_chunk_size_almost_done s) else BREAK s)
   | _ \<Rightarrow> check (flags (px s) F_CHUNKED) (STRICT_CHECK strict (ch s \<noteq> LF) s (\<lambda>s.
       let s = upd (\<lambda>q. q\<lparr>nread := 0\<rparr>) s;
           s = (if content_length (px s) = 0 then UPDATE_STATE s_header_field_start (set_flag F_TRAILING s)
             else UPDATE_STATE s_chunk_data s)
       in CALLBACK_NOTIFY cb cb_chunk_header s BREAK)))"

definition exec_chunk_data :: "bool \<Rightarrow> 'u callbacks \<Rightarrow> bytes \<Rightarrow> 'u exec \<Rightarrow> 'u outcome" where
  "exec_chunk_data strict cb data s = (case p_state s of
     s_chunk_data \<Rightarrow> check (flags (px s) F_CHUNKED \<and> body_length_ok s) (let s = take_body data s in
       BREAK (if content_length (px s) = 0 then UPDATE_STATE s_chunk_data_almost_done s else s))
   | s_chunk_data_almost_done \<Rightarrow> check (flags (px s) F_CHUNKED \<and> content_length (px s) = 0)
       (STRICT_CHECK strict (ch s \<noteq> CR) s (\<lambda>s. CALLBACK_DATA cb data M_body (UPDATE_STATE s_chunk_data_done s) BREAK))
   | _ \<Rightarrow> check (flags (px s) F_CHUNKED) (STRICT_CHECK strict (ch s \<noteq> LF) s (\<lambda>s.
       CALLBACK_NOTIFY cb cb_chunk_complete (UPDATE_STATE s_chunk_size_start (upd (\<lambda>q. q\<lparr>nread := 0\<rparr>) s)) BREAK)))"

section \<open>The parser loop\<close>

definition exec_switch :: "bool \<Rightarrow> 'u callbacks \<Rightarrow> bytes \<Rightarrow> 'u exec \<Rightarrow> 'u outcome" where
  "exec_switch strict cb data s = (let st = p_state s in
     if st = s_dead then
       (if ch s = CR \<or> ch s = LF then BREAK s else goto_error HPE_CLOSED_CONNECTION s)
     else if st = s_start_req_or_res then exec_start_req_or_res cb s
     else if st = s_res_or_resp_H then exec_res_or_resp_H s
     else if st = s_start_res then exec_start_res cb s
     else if st \<in> {s_res_H, s_res_HT, s_res_HTT, s_res_HTTP, s_res_first_http_major, s_res_http_major,
         s_res_first_http_minor, s_res_http_minor} then exec_res_version strict s
     else if st \<in> {s_res_first_status_code, s_res_status_code, s_res_status_start, s_res_status,
         s_res_line_almost_done} then exec_res_status strict cb data s
     else if st = s_start_req then exec_start_req cb s
     else if st = s_req_method then exec_req_method s
     else if st \<in> {s_req_spaces_before_url, s_req_schema, s_req_schema_slash, s_req_schema_slash_slash,
         s_req_server_start, s_req_server, s_req_server_with_at, s_req_path, s_req_query_string_start,
         s_req_query_string, s_req_fragment_start, s_req_fragment} then exec_url strict cb data s
     else if st \<in> {s_req_http_start, s_req_http_H, s_req_http_HT, s_req_http_HTT, s_req_http_HTTP,
         s_req_first_http_major, s_req_http_major, s_req_first_http_minor, s_req_http_minor,
         s_req_line_almost_done} then exec_req_version strict s
     else if st = s_header_field_start then exec_header_field_start strict s
     else if st = s_header_field then exec_header_field strict cb data s
     else if st = s_header_value_discard_ws then exec_discard_ws s
     else if st = s_header_value_start then exec_header_value_start s
     else if st = s_header_value then exec_header_value cb data s
     else if st \<in> {s_header_almost_done, s_header_value_lws, s_header_value_discard_ws_almost_done,
         s_header_value_discard_lws} then exec_header_end strict cb data s
     else if st = s_headers_almost_done then exec_headers_almost_done strict cb s
     else if st = s_headers_done then exec_headers_done strict cb s
     else if st \<in> {s_body_identity, s_body_identity_eof, s_message_done} then exec_body strict cb data s
     else if st \<in> {s_chunk_size_start, s_chunk_size, s_chunk_parameters, s_chunk_size_almost_done}
       then exec_chunk_size strict cb s
     else exec_chunk_data strict cb data s)"

text \<open>The label \<open>reexecute\<close>, with fuel for the times a byte is looked at again.\<close>

fun reexecute :: "bool \<Rightarrow> 'u callbacks \<Rightarrow> bytes \<Rightarrow> nat \<Rightarrow> 'u exec \<Rightarrow> 'u outcome" where
  "reexecute strict cb data 0 s = Inl (UB Diverges)"
| "reexecute strict cb data (Suc n) s = rbind (exec_switch strict cb data s) (\<lambda>(f, s).
     if f = Reexecute then reexecute strict cb data n s else Inr (f, s))"

abbreviation (input) REEXECUTIONS :: nat where "REEXECUTIONS \<equiv> 8"

text \<open>After the loop: the callbacks for what is marked.\<close>

definition count_marks :: "'u exec \<Rightarrow> nat" where
  "count_marks s = length (filter (\<lambda>m. marks s m \<noteq> None) [M_header_field, M_header_value, M_url, M_body, M_status])"

definition leftover :: "'u callbacks \<Rightarrow> bytes \<Rightarrow> 'u exec \<Rightarrow> 'u outcome" where
  "leftover cb data s = check (count_marks s \<le> 1)
     (CALLBACK_DATA_NOADVANCE cb data M_header_field s (\<lambda>s.
      CALLBACK_DATA_NOADVANCE cb data M_header_value s (\<lambda>s.
      CALLBACK_DATA_NOADVANCE cb data M_url s (\<lambda>s.
      CALLBACK_DATA_NOADVANCE cb data M_body s (\<lambda>s.
      CALLBACK_DATA_NOADVANCE cb data M_status s (\<lambda>s. RETURN (length data) s))))))"

definition exec_byte :: "bool \<Rightarrow> 'u callbacks \<Rightarrow> bytes \<Rightarrow> 'u exec \<Rightarrow> 'u outcome" where
  "exec_byte strict cb data s =
     (let s = s\<lparr>ch := data ! p s\<rparr> in
      if PARSING_HEADER (p_state s) then COUNT_HEADER_SIZE 1 s (reexecute strict cb data REEXECUTIONS)
      else reexecute strict cb data REEXECUTIONS s)"

text \<open>What leaves the loop at the label \<open>error\<close>.\<close>

definition error_exit :: "'u exec \<Rightarrow> 'u outcome" where
  "error_exit s = (let s = (if http_errno (px s) = HPE_OK then SET_ERRNO HPE_UNKNOWN s else s) in RETURN (p s) s)"

fun execute_loop :: "bool \<Rightarrow> 'u callbacks \<Rightarrow> bytes \<Rightarrow> nat \<Rightarrow> 'u exec \<Rightarrow> 'u outcome" where
  "execute_loop strict cb data 0 s = Inl (UB Diverges)"
| "execute_loop strict cb data (Suc n) s =
     (if p s = length data then leftover cb data s
      else if length data < p s then Inl (UB OutOfBounds)
      else rbind (exec_byte strict cb data s) (\<lambda>(f, s). case f of
          Break \<Rightarrow> execute_loop strict cb data n (s\<lparr>p := p s + 1\<rparr>)
        | Error \<Rightarrow> error_exit s
        | _ \<Rightarrow> Inr (f, s)))"

text \<open>The mark a call starts with when the data goes on with a part begun in an earlier call.\<close>

definition initial_marks :: "state \<Rightarrow> mark \<Rightarrow> nat option" where
  "initial_marks st = (\<lambda>_. None)(M_header_field := if st = s_header_field then Some 0 else None,
     M_header_value := if st = s_header_value then Some 0 else None,
     M_url := if st \<in> {s_req_path, s_req_schema, s_req_schema_slash, s_req_schema_slash_slash, s_req_server_start,
       s_req_server, s_req_server_with_at, s_req_query_string_start, s_req_query_string, s_req_fragment_start,
       s_req_fragment} then Some 0 else None,
     M_status := if st = s_res_status then Some 0 else None)"

definition initial_exec :: "http_parser \<Rightarrow> 'u \<Rightarrow> 'u exec" where
  "initial_exec q u = \<lparr>px = q, p_state = pstate q, p = 0, ch = 0, marks = initial_marks (pstate q), user = u\<rparr>"

text \<open>The end of the input is told by a call without data.\<close>

definition execute_eof :: "'u callbacks \<Rightarrow> 'u exec \<Rightarrow> 'u outcome" where
  "execute_eof cb s =
     (if p_state s = s_body_identity_eof then CALLBACK_NOTIFY_NOADVANCE cb cb_message_complete s (\<lambda>s. Inr (Return 0, s))
      else if p_state s \<in> {s_dead, s_start_req_or_res, s_start_res, s_start_req} then Inr (Return 0, s)
      else Inr (Return 1, SET_ERRNO HPE_INVALID_EOF_STATE s))"

text \<open>
  The number of bytes parsed, the parser and the data of the user afterwards. One round of the loop takes one
  byte at least.
\<close>

definition http_parser_execute :: "bool \<Rightarrow> 'u callbacks \<Rightarrow> http_parser \<Rightarrow> bytes \<Rightarrow> 'u \<Rightarrow>
    (parser_error, nat \<times> http_parser \<times> 'u) res" where
  "http_parser_execute strict cb q data u =
     (if http_errno q \<noteq> HPE_OK then Inr (0, q, u) else
      rbind (if data = [] then execute_eof cb ((initial_exec q u)\<lparr>marks := \<lambda>_. None\<rparr>)
             else execute_loop strict cb data (length data + 1) (initial_exec q u)) (\<lambda>(f, s).
      case f of Return n \<Rightarrow> Inr (n, px s, user s) | _ \<Rightarrow> Inl (UB Diverges)))"

end
