(* ===== verification/Http_Exec_Safe.thy ===== *)
theory Http_Exec_Safe
  imports Http_Exec
begin

text \<open>
  \<open>http_parser_execute\<close> ends, trips no assertion and reads nothing outside the data, for every sequence of
  calls and whatever the callbacks do: an invariant of the parser between two bytes, kept by every case of
  the switch.
\<close>

section \<open>The invariant\<close>

text \<open>What a state says about the fields; \<open>k\<close> is what has been counted since \<open>nread\<close> was reset for a chunk.\<close>

definition field_states :: "header_states set" where
  "field_states = {h_general, h_C, h_CO, h_CON, h_matching_connection, h_matching_proxy_connection,
     h_matching_content_length, h_matching_transfer_encoding, h_matching_upgrade, h_connection, h_content_length,
     h_transfer_encoding, h_upgrade}"

definition chunk_states :: "state set" where
  "chunk_states = {s_chunk_size_start, s_chunk_size, s_chunk_parameters, s_chunk_size_almost_done, s_chunk_data,
     s_chunk_data_almost_done, s_chunk_data_done}"

definition state_ok :: "nat \<Rightarrow> state \<Rightarrow> http_parser \<Rightarrow> bool" where
  "state_ok k st q \<longleftrightarrow>
     (st = s_req_method \<longrightarrow> index q \<le> length (method_strings (method q))) \<and>
     (st = s_header_field \<longrightarrow> header_state q \<in> field_states) \<and>
     (st = s_header_value \<longrightarrow> header_state q \<noteq> h_connection \<and> header_state q \<noteq> h_transfer_encoding) \<and>
     (st \<in> chunk_states \<longrightarrow> flags q F_CHUNKED) \<and>
     (st = s_chunk_size_start \<longrightarrow> nread q = k) \<and>
     (st \<in> {s_chunk_size, s_chunk_parameters, s_chunk_size_almost_done} \<longrightarrow> content_length q < ULLONG_MAX) \<and>
     (st \<in> {s_body_identity, s_chunk_data} \<longrightarrow> content_length q \<noteq> 0 \<and> content_length q \<noteq> ULLONG_MAX) \<and>
     (st = s_chunk_data_almost_done \<longrightarrow> content_length q = 0) \<and>
     content_length q \<le> ULLONG_MAX"

text \<open>The only mark that may be set in a state.\<close>

definition mark_of :: "state \<Rightarrow> mark option" where
  "mark_of st =
     (if st = s_header_field then Some M_header_field
      else if st = s_header_value then Some M_header_value
      else if st \<in> {s_req_path, s_req_schema, s_req_schema_slash, s_req_schema_slash_slash, s_req_server_start,
        s_req_server, s_req_server_with_at, s_req_query_string_start, s_req_query_string, s_req_fragment_start,
        s_req_fragment} then Some M_url
      else if st = s_res_status then Some M_status
      else if st \<in> {s_body_identity, s_body_identity_eof, s_chunk_data, s_chunk_data_almost_done} then Some M_body
      else None)"

definition marks_ok :: "'u exec \<Rightarrow> bool" where
  "marks_ok s \<longleftrightarrow> (\<forall>m i. marks s m = Some i \<longrightarrow> mark_of (p_state s) = Some m \<and> i \<le> p s)"

definition exec_inv :: "nat \<Rightarrow> 'u exec \<Rightarrow> bool" where
  "exec_inv k s \<longleftrightarrow> http_errno (px s) = HPE_OK \<and> state_ok k (p_state s) (px s) \<and> marks_ok s"

text \<open>Between two calls, when the parser can go on.\<close>

definition parser_ok :: "http_parser \<Rightarrow> bool" where
  "parser_ok q \<longleftrightarrow> (http_errno q = HPE_OK \<or> http_errno q = HPE_PAUSED \<longrightarrow> state_ok 0 (pstate q) q)"

text \<open>How often a byte may still be looked at.\<close>

definition rank :: "state \<Rightarrow> nat" where
  "rank st = (if st \<in> {s_header_value_lws, s_header_value_discard_lws} then 3
     else if st = s_header_field_start then 2
     else if st \<in> {s_start_req_or_res, s_headers_almost_done, s_header_value, s_body_identity} then 1 else 0)"

definition flow_ok :: "bytes \<Rightarrow> 'u exec \<Rightarrow> flow \<Rightarrow> 'u exec \<Rightarrow> bool" where
  "flow_ok data s f s' \<longleftrightarrow> p s \<le> p s' \<and> (case f of
       Break \<Rightarrow> p s' < length data \<and> exec_inv 0 s'
     | Reexecute \<Rightarrow> p s' < length data \<and> exec_inv 0 s' \<and> rank (p_state s') < rank (p_state s) \<and> p_state s' \<noteq> s_chunk_size_start
     | Error \<Rightarrow> p s' \<le> length data \<and> http_errno (px s') \<noteq> HPE_OK \<and> http_errno (px s') \<noteq> HPE_PAUSED
     | Return n \<Rightarrow> n \<le> length data \<and> parser_ok (px s'))"

definition sound :: "bytes \<Rightarrow> 'u exec \<Rightarrow> 'u outcome \<Rightarrow> bool" where
  "sound data s r \<longleftrightarrow> (\<exists>f s'. r = Inr (f, s') \<and> flow_ok data s f s')"

lemma sound_Inr [simp]: "sound data s (Inr (f, s')) \<longleftrightarrow> flow_ok data s f s'"
  by (auto simp: sound_def)

named_theorems exec_simps "the primitives of the parser"

lemma exec_fields [exec_simps]:
  "p_state (upd f s) = p_state s" "p (upd f s) = p s" "ch (upd f s) = ch s" "marks (upd f s) = marks s" "user (upd f s) = user s"
  "px (upd f s) = f (px s)"
  "p_state (UPDATE_STATE v s) = v" "p (UPDATE_STATE v s) = p s" "ch (UPDATE_STATE v s) = ch s"
  "marks (UPDATE_STATE v s) = marks s" "user (UPDATE_STATE v s) = user s" "px (UPDATE_STATE v s) = px s"
  by (simp_all add: upd_def UPDATE_STATE_def)

lemma upd_defs [exec_simps]:
  "SET_ERRNO e s = upd (\<lambda>q. q\<lparr>http_errno := e\<rparr>) s"
  "set_flag f s = upd (\<lambda>q. q\<lparr>flags := (flags q)(f := True)\<rparr>) s"
  "set_header_state h s = upd (\<lambda>q. q\<lparr>header_state := h\<rparr>) s"
  "set_index i s = upd (\<lambda>q. q\<lparr>index := i mod 256\<rparr>) s"
  by (simp_all add: SET_ERRNO_def set_flag_def set_header_state_def set_index_def)

lemma MARK_fields [exec_simps]:
  "p_state (MARK m s) = p_state s" "p (MARK m s) = p s" "ch (MARK m s) = ch s" "user (MARK m s) = user s" "px (MARK m s) = px s"
  by (simp_all add: MARK_def)

lemma marks_MARK: "marks (MARK m s) m' = Some i \<Longrightarrow> marks s m' = Some i \<or> m' = m \<and> i = p s"
  by (auto simp: MARK_def split: if_splits)

lemma sound_BREAK [exec_simps]: "sound data s (BREAK s') \<longleftrightarrow> p s \<le> p s' \<and> p s' < length data \<and> exec_inv 0 s'"
  by (simp add: BREAK_def flow_ok_def)

lemma sound_REEXECUTE [exec_simps]:
  "sound data s (REEXECUTE s') \<longleftrightarrow> p s \<le> p s' \<and> p s' < length data \<and> exec_inv 0 s' \<and>
     rank (p_state s') < rank (p_state s) \<and> p_state s' \<noteq> s_chunk_size_start"
  by (simp add: REEXECUTE_def flow_ok_def)

lemma sound_error [exec_simps]:
  "sound data s (goto_error e s') \<longleftrightarrow> p s \<le> p s' \<and> p s' \<le> length data \<and> e \<noteq> HPE_OK \<and> e \<noteq> HPE_PAUSED"
  by (auto simp: goto_error_def flow_ok_def exec_simps)

lemma state_ok_pstate [simp]: "state_ok k st (q\<lparr>pstate := x\<rparr>) = state_ok k st q"
  and state_ok_errno [simp]: "state_ok k st (q\<lparr>http_errno := e\<rparr>) = state_ok k st q"
  by (simp_all add: state_ok_def)

lemma sound_RETURN [exec_simps]:
  "sound data s (RETURN n s') \<longleftrightarrow> p s \<le> p s' \<and> n \<le> length data \<and>
     (http_errno (px s') = HPE_OK \<or> http_errno (px s') = HPE_PAUSED \<longrightarrow> state_ok 0 (p_state s') (px s'))"
  by (auto simp: RETURN_def flow_ok_def parser_ok_def exec_simps)

lemma sound_STRICT [exec_simps]:
  "sound data s (STRICT_CHECK strict c s' k) \<longleftrightarrow>
     (if strict \<and> c then p s \<le> p s' \<and> p s' \<le> length data else sound data s (k s'))"
  by (simp add: STRICT_CHECK_def exec_simps)

lemma sound_check [exec_simps]: "sound data s (check b r) \<longleftrightarrow> b \<and> sound data s r"
  by (auto simp: check_def sound_def)

text \<open>A callback that returns lets the parser go on as before, with new data of the user.\<close>

lemma sound_notify:
  assumes "http_errno (px s') = HPE_OK" and "state_ok 0 (p_state s') (px s')"
    and "p s \<le> p s'" and "er \<le> length data"
    and "\<And>u. sound data s (k (s'\<lparr>px := (px s')\<lparr>pstate := p_state s'\<rparr>, user := u\<rparr>))"
  shows "sound data s (CALLBACK_NOTIFY_ER cb c er s' k)"
proof -
  let ?s = "s'\<lparr>px := (px s')\<lparr>pstate := p_state s'\<rparr>\<rparr>"
  obtain r paused u where c: "cb c (px ?s) (user ?s) = (r, paused, u)" by (metis prod_cases3)
  have e: "callback_errno c \<noteq> HPE_OK" "callback_errno c \<noteq> HPE_PAUSED" by (cases c; simp)+
  have i: "invoke_cb cb c s' = (r, (if paused then SET_ERRNO HPE_PAUSED ?s else ?s)\<lparr>user := u\<rparr>)"
    using c by (simp add: invoke_cb_def upd_def)
  show ?thesis
    using assms e by (auto simp: CALLBACK_NOTIFY_ER_def i exec_simps check_def flow_ok_def parser_ok_def upd_def)
qed

lemma sound_data:
  assumes "http_errno (px s') = HPE_OK" and "state_ok 0 (p_state s') (px s')"
    and "p s \<le> p s'" and "er \<le> length data" and "e \<le> length data"
    and "\<And>i. marks s' m = Some i \<Longrightarrow> i \<le> e"
    and "\<And>q u. q = px s' \<or> q = (px s')\<lparr>pstate := p_state s'\<rparr> \<Longrightarrow>
      sound data s (k (s'\<lparr>px := q, user := u, marks := (marks s')(m := None)\<rparr>))"
  shows "sound data s (CALLBACK_DATA_ER cb data m e er s' k)"
proof (cases "marks s' m")
  case None
  have "s' = s'\<lparr>px := px s', user := user s', marks := (marks s')(m := None)\<rparr>" using None by (simp add: fun_upd_idem)
  then have "sound data s (k s')" using assms(7) [of "px s'" "user s'"] by metis
  then show ?thesis using None assms(1) by (simp add: CALLBACK_DATA_ER_def check_def)
next
  case (Some i)
  have "sound data s (CALLBACK_NOTIFY_ER cb (data_cb m (take (e - i) (drop i data))) er s'
      (\<lambda>s. k (s\<lparr>marks := (marks s)(m := None)\<rparr>)))"
  proof (rule sound_notify [OF assms(1-4)])
    show "sound data s (k ((s'\<lparr>px := (px s')\<lparr>pstate := p_state s'\<rparr>, user := u\<rparr>)
        \<lparr>marks := (marks (s'\<lparr>px := (px s')\<lparr>pstate := p_state s'\<rparr>, user := u\<rparr>))(m := None)\<rparr>))" for u
      using assms(7) [of "(px s')\<lparr>pstate := p_state s'\<rparr>" u] by simp
  qed
  then show ?thesis using Some assms(1,5,6) by (simp add: CALLBACK_DATA_ER_def check_def)
qed


section \<open>The cases of the switch\<close>

lemma inv_marks_none:
  assumes "exec_inv k s" and "mark_of (p_state s) = None"
  shows "marks s = (\<lambda>_. None)"
  using assms unfolding exec_inv_def marks_ok_def by (metis ext not_Some_eq option.distinct(1))

lemma inv_marks_only:
  assumes "exec_inv k s" and "mark_of (p_state s) = Some m"
  shows "(marks s)(m := None) = (\<lambda>_. None)" and "marks s m = Some i \<Longrightarrow> i \<le> p s"
proof -
  show "(marks s)(m := None) = (\<lambda>_. None)"
  proof
    fix m'
    show "((marks s)(m := None)) m' = None"
      using assms unfolding exec_inv_def marks_ok_def by (cases "m' = m"; cases "marks s m'") auto
  qed
  show "marks s m = Some i \<Longrightarrow> i \<le> p s" using assms unfolding exec_inv_def marks_ok_def by blast
qed

lemmas state_ok_eval = state_ok_def field_states_def chunk_states_def

lemma invI: "http_errno (px s) = HPE_OK \<Longrightarrow> state_ok k (p_state s) (px s) \<Longrightarrow> marks s = (\<lambda>_. None) \<Longrightarrow> exec_inv k s"
  by (simp add: exec_inv_def marks_ok_def)

definition special_states :: "state set" where
  "special_states = chunk_states \<union> {s_req_method, s_header_field, s_header_value, s_body_identity}"

lemma state_ok_plain: "st \<notin> special_states \<Longrightarrow> state_ok k st q \<longleftrightarrow> content_length q \<le> ULLONG_MAX"
  by (simp add: state_ok_def special_states_def chunk_states_def)

lemmas special_simps = special_states_def chunk_states_def state_ok_plain

lemma req_version_sound:
  assumes inv: "exec_inv 1 s" and p: "p s < length data"
    and st: "p_state s \<in> {s_req_http_start, s_req_http_H, s_req_http_HT, s_req_http_HTT, s_req_http_HTTP,
         s_req_first_http_major, s_req_http_major, s_req_first_http_minor, s_req_http_minor, s_req_line_almost_done}"
  shows "sound data s (exec_req_version strict s)"
proof -
  have m: "marks s = (\<lambda>_. None)" by (rule inv_marks_none [OF inv]) (use st in \<open>auto simp: mark_of_def\<close>)
  have "http_errno (px s) = HPE_OK" "content_length (px s) \<le> ULLONG_MAX" using inv by (simp_all add: exec_inv_def state_ok_def)
  then show ?thesis
    using st p m unfolding insert_iff empty_iff
    by (elim disjE) (simp_all add: exec_req_version_def exec_simps Let_def special_simps invI)
qed

lemma res_version_sound:
  assumes inv: "exec_inv 1 s" and p: "p s < length data"
    and st: "p_state s \<in> {s_res_H, s_res_HT, s_res_HTT, s_res_HTTP, s_res_first_http_major, s_res_http_major,
         s_res_first_http_minor, s_res_http_minor}"
  shows "sound data s (exec_res_version strict s)"
proof -
  have m: "marks s = (\<lambda>_. None)" by (rule inv_marks_none [OF inv]) (use st in \<open>auto simp: mark_of_def\<close>)
  have "http_errno (px s) = HPE_OK" "content_length (px s) \<le> ULLONG_MAX" using inv by (simp_all add: exec_inv_def state_ok_def)
  then show ?thesis
    using st p m unfolding insert_iff empty_iff
    by (elim disjE) (simp_all add: exec_res_version_def exec_simps Let_def special_simps invI)
qed

lemma notify_break:
  assumes "http_errno (px s') = HPE_OK" "state_ok 0 (p_state s') (px s')" "marks s' = (\<lambda>_. None)"
    "p s \<le> p s'" "p s' < length data"
  shows "sound data s (CALLBACK_NOTIFY cb c s' BREAK)"
  unfolding CALLBACK_NOTIFY_def using assms by (intro sound_notify) (simp_all add: exec_simps invI)

lemma notify_again:
  assumes "http_errno (px s') = HPE_OK" "state_ok 0 (p_state s') (px s')" "marks s' = (\<lambda>_. None)"
    "p s \<le> p s'" "p s' < length data" "rank (p_state s') < rank (p_state s)" "p_state s' \<noteq> s_chunk_size_start"
  shows "sound data s (CALLBACK_NOTIFY_NOADVANCE cb c s' REEXECUTE)"
  unfolding CALLBACK_NOTIFY_NOADVANCE_def using assms by (intro sound_notify) (simp_all add: exec_simps invI)

lemma data_break:
  assumes "http_errno (px s') = HPE_OK" "state_ok 0 (p_state s') (px s')" "(marks s')(m := None) = (\<lambda>_. None)"
    "\<forall>i. marks s' m = Some i \<longrightarrow> i \<le> p s'" "p s \<le> p s'" "p s' < length data"
  shows "sound data s (CALLBACK_DATA cb data m s' BREAK)"
  unfolding CALLBACK_DATA_def using assms by (intro sound_data) (auto simp add: exec_simps invI)

lemma data_again:
  assumes "http_errno (px s') = HPE_OK" "state_ok 0 (p_state s') (px s')" "(marks s')(m := None) = (\<lambda>_. None)"
    "\<forall>i. marks s' m = Some i \<longrightarrow> i \<le> p s'" "p s \<le> p s'" "p s' < length data"
    "rank (p_state s') < rank (p_state s)" "p_state s' \<noteq> s_chunk_size_start"
  shows "sound data s (CALLBACK_DATA_NOADVANCE cb data m s' REEXECUTE)"
  unfolding CALLBACK_DATA_NOADVANCE_def using assms by (intro sound_data) (auto simp add: exec_simps invI)

lemmas sound_callbacks = notify_break notify_again data_break data_again

lemma new_parser_simps [exec_simps]:
  "http_errno (new_parser_fields q) = http_errno q" "content_length (new_parser_fields q) = ULLONG_MAX"
  "nread (new_parser_fields q) = nread q" "index (new_parser_fields q) = index q" "method (new_parser_fields q) = method q"
  by (simp_all add: new_parser_fields_def)

lemma inv_basic: "exec_inv k s \<Longrightarrow> http_errno (px s) = HPE_OK" "exec_inv k s \<Longrightarrow> content_length (px s) \<le> ULLONG_MAX"
  by (simp_all add: exec_inv_def state_ok_def)

lemma MARK_new: "marks s = (\<lambda>_. None) \<Longrightarrow> marks (MARK m s) = (\<lambda>_. None)(m := Some (p s))"
  by (simp add: MARK_def)

lemma start_sound:
  assumes inv: "exec_inv 1 s" and p: "p s < length data"
  shows "p_state s = s_start_req_or_res \<Longrightarrow> sound data s (exec_start_req_or_res cb s)"
    and "p_state s = s_res_or_resp_H \<Longrightarrow> sound data s (exec_res_or_resp_H s)"
    and "p_state s = s_start_res \<Longrightarrow> sound data s (exec_start_res cb s)"
proof -
  note b = inv_basic [OF inv]
  have m: "marks s = (\<lambda>_. None)" if "p_state s \<in> {s_start_req_or_res, s_res_or_resp_H, s_start_res}"
    by (rule inv_marks_none [OF inv]) (use that in \<open>auto simp: mark_of_def\<close>)
  show "p_state s = s_start_req_or_res \<Longrightarrow> sound data s (exec_start_req_or_res cb s)"
    using b m p by (simp add: exec_start_req_or_res_def exec_simps Let_def special_simps invI sound_callbacks rank_def)
  show "p_state s = s_res_or_resp_H \<Longrightarrow> sound data s (exec_res_or_resp_H s)"
    using b m p by (simp add: exec_res_or_resp_H_def exec_simps Let_def special_simps invI sound_callbacks rank_def)
      (simp add: state_ok_def special_simps invI exec_simps)
  show "p_state s = s_start_res \<Longrightarrow> sound data s (exec_start_res cb s)"
    using b m p by (simp add: exec_start_res_def exec_simps Let_def special_simps invI sound_callbacks rank_def)
qed

lemma method_lengths: "1 < length (method_strings m)" "length (method_strings m) \<le> 11"
  by (cases m; simp)+

lemma start_req_sound:
  assumes inv: "exec_inv 1 s" and p: "p s < length data" and st: "p_state s = s_start_req"
  shows "sound data s (exec_start_req cb s)"
proof -
  have m: "marks s = (\<lambda>_. None)" by (rule inv_marks_none [OF inv]) (simp add: mark_of_def st)
  show ?thesis
    using inv_basic [OF inv] m p st method_lengths(1) [THEN less_imp_le]
    by (auto simp add: exec_start_req_def exec_simps Let_def invI sound_callbacks state_ok_eval split: option.split)
qed

lemma other_method_longer: "other_method m i c = Some m' \<Longrightarrow> i < length (method_strings m')"
  by (auto simp: other_method_def split: if_splits)

lemma req_method_sound:
  assumes inv: "exec_inv 1 s" and p: "p s < length data" and st: "p_state s = s_req_method"
  shows "sound data s (exec_req_method s)"
proof -
  let ?m = "method (px s)" and ?i = "index (px s)"
  have m: "marks s = (\<lambda>_. None)" by (rule inv_marks_none [OF inv]) (simp add: mark_of_def st)
  have i: "?i \<le> length (method_strings ?m)" using inv st by (simp add: exec_inv_def state_ok_def)
  then have i256: "(?i + 1) mod 256 = ?i + 1" using method_lengths(2) [of ?m] by simp
  define c where "c = (if ?i < length (method_strings ?m) then chr (method_strings ?m ! ?i) else 0)"
  have at: "matcher_at (method_strings ?m) ?i = Some c" using i by (simp add: matcher_at_def c_def)
  have go: "sound data s (BREAK (set_index (?i + 1) s'))"
    if "px s' = (px s)\<lparr>method := n\<rparr>" "?i < length (method_strings n)" "p_state s' = s_req_method" "p s' = p s" "marks s' = marks s"
    for s' :: "'a exec" and n
    using that inv_basic [OF inv] m p i256 by (simp add: exec_simps invI state_ok_eval del: One_nat_def add_Suc_right)
  have same: "sound data s (BREAK (set_index (?i + 1) s))" if "?i < length (method_strings ?m)"
    using go [of s ?m] that st by simp
  have stop: "sound data s (BREAK (set_index (?i + 1) (UPDATE_STATE s_req_spaces_before_url s)))"
    using inv_basic [OF inv] m p by (simp add: exec_simps invI state_ok_eval)
  have other: "sound data s (BREAK (set_index (?i + 1) (upd (\<lambda>px. px\<lparr>method := n\<rparr>) s)))" if "other_method ?m ?i (ch s) = Some n" for n
    using go [of "upd (\<lambda>px. px\<lparr>method := n\<rparr>) s" n] other_method_longer [OF that] st by (simp add: exec_simps)
  have err: "sound data s (goto_error HPE_INVALID_METHOD s)" using p by (simp add: exec_simps)
  have c0: "?i < length (method_strings ?m)" if "c \<noteq> 0" using that by (simp add: c_def split: if_splits)
  show ?thesis
  proof (cases "ch s = 0")
    case True
    then show ?thesis using err by (simp add: exec_req_method_def)
  next
    case False
    then show ?thesis
      using err stop same other c0 unfolding exec_req_method_def Let_def at
      by (cases "other_method ?m ?i (ch s)") simp_all
  qed
qed

lemma marks_restrict:
  assumes "exec_inv k s" and "mark_of (p_state s) = Some m" and "px s' = q" and "marks s' = marks s" and "p s \<le> p s'"
    and "mark_of (p_state s') = Some m" and "http_errno q = HPE_OK" and "state_ok k' (p_state s') q"
  shows "exec_inv k' s'"
  using assms unfolding exec_inv_def marks_ok_def by (metis le_trans)

lemma res_status_sound:
  assumes inv: "exec_inv 1 s" and p: "p s < length data"
    and st: "p_state s \<in> {s_res_first_status_code, s_res_status_code, s_res_status_start, s_res_status, s_res_line_almost_done}"
  shows "sound data s (exec_res_status strict cb data s)"
proof (cases "p_state s = s_res_status")
  case True
  then have mo: "mark_of (p_state s) = Some M_status" by (simp add: mark_of_def)
  have keep: "exec_inv 0 s" by (rule marks_restrict [OF inv mo]) (use mo inv_basic [OF inv] True in \<open>simp_all add: special_simps\<close>)
  show ?thesis
    using True p keep inv_basic [OF inv] inv_marks_only [OF inv mo]
    by (simp add: exec_res_status_def exec_simps special_simps data_break)
next
  case False
  then have m: "marks s = (\<lambda>_. None)" using st by (intro inv_marks_none [OF inv]) (auto simp: mark_of_def)
  have start: "exec_inv 0 (upd (\<lambda>q. q\<lparr>index := 0\<rparr>) (UPDATE_STATE s_res_status (MARK M_status s)))"
    using inv_basic [OF inv] m by (simp add: exec_inv_def marks_ok_def exec_simps special_simps MARK_new mark_of_def state_ok_def)
  show ?thesis
    using False st p m start inv_basic [OF inv] unfolding insert_iff empty_iff
    by (elim disjE) (simp_all add: exec_res_status_def exec_simps Let_def special_simps invI)
qed

definition url_states :: "state set" where
  "url_states = {s_req_path, s_req_schema, s_req_schema_slash, s_req_schema_slash_slash, s_req_server_start,
        s_req_server, s_req_server_with_at, s_req_query_string_start, s_req_query_string, s_req_fragment_start,
        s_req_fragment}"

lemma if_mem: "(c \<Longrightarrow> a \<in> S) \<Longrightarrow> (\<not> c \<Longrightarrow> b \<in> S) \<Longrightarrow> (if c then a else b) \<in> S"
  by simp

lemma parse_url_char_range: "parse_url_char strict st c \<in> insert s_dead url_states"
proof -
  have mem: "s_dead \<in> insert s_dead url_states" "s_req_path \<in> insert s_dead url_states"
    "s_req_schema \<in> insert s_dead url_states" "s_req_schema_slash \<in> insert s_dead url_states"
    "s_req_schema_slash_slash \<in> insert s_dead url_states" "s_req_server_start \<in> insert s_dead url_states"
    "s_req_server \<in> insert s_dead url_states" "s_req_server_with_at \<in> insert s_dead url_states"
    "s_req_query_string_start \<in> insert s_dead url_states" "s_req_query_string \<in> insert s_dead url_states"
    "s_req_fragment_start \<in> insert s_dead url_states" "s_req_fragment \<in> insert s_dead url_states"
    by (simp_all add: url_states_def)
  show ?thesis unfolding parse_url_char_def by (intro if_mem mem) (simp_all only: mem)
qed

lemma url_states_plain: "st \<in> url_states \<Longrightarrow> mark_of st = Some M_url" "st \<in> url_states \<Longrightarrow> st \<notin> special_states"
  by (auto simp: url_states_def mark_of_def special_states_def chunk_states_def)

lemma url_char_sound:
  assumes "http_errno (px s') = HPE_OK" "content_length (px s') \<le> ULLONG_MAX" "p s' = p s" "p s < length data"
    and m: "\<forall>m i. marks s' m = Some i \<longrightarrow> m = M_url \<and> i \<le> p s"
  shows "sound data s (url_char strict s')"
proof -
  let ?st = "parse_url_char strict (p_state s') (ch s')"
  have "exec_inv 0 (UPDATE_STATE ?st s')" if "?st \<noteq> s_dead"
  proof -
    have u: "?st \<in> url_states" using parse_url_char_range [of strict "p_state s'" "ch s'"] that by simp
    show ?thesis
      using assms url_states_plain [OF u] by (auto simp: exec_inv_def marks_ok_def exec_simps state_ok_plain)
  qed
  then show ?thesis using assms by (simp add: url_char_def exec_simps Let_def)
qed

lemma exec_url_sound:
  assumes inv: "exec_inv 1 s" and p: "p s < length data" and st: "p_state s \<in> insert s_req_spaces_before_url url_states"
  shows "sound data s (exec_url strict cb data s)"
proof (cases "p_state s = s_req_spaces_before_url")
  case True
  then have m: "marks s = (\<lambda>_. None)" by (intro inv_marks_none [OF inv]) (simp add: mark_of_def)
  have "sound data s (BREAK s)" using inv_basic [OF inv] m p True by (simp add: exec_simps invI special_simps)
  moreover have "sound data s (url_char strict (if b then UPDATE_STATE s_req_server_start (MARK M_url s) else MARK M_url s))" for b
    using inv_basic [OF inv] m p by (intro url_char_sound) (simp_all add: exec_simps MARK_new)
  ultimately show ?thesis using True p by (simp add: exec_url_def Let_def exec_simps)
next
  case False
  then have u: "p_state s \<in> url_states" using st by simp
  note mo = url_states_plain(1) [OF u]
  have c: "sound data s (url_char strict s)"
    using inv p mo inv_basic [OF inv] by (intro url_char_sound) (auto simp: exec_inv_def marks_ok_def)
  show ?thesis
    using False c p inv_basic [OF inv] inv_marks_only [OF inv mo]
    by (simp add: exec_url_def exec_simps special_simps data_break)
qed

lemma field_start_sound:
  assumes inv: "exec_inv 1 s" and p: "p s < length data" and st: "p_state s = s_header_field_start"
  shows "sound data s (exec_header_field_start strict s)"
proof -
  have m: "marks s = (\<lambda>_. None)" by (rule inv_marks_none [OF inv]) (simp add: mark_of_def st)
  have "first_header_state c \<in> field_states" for c by (simp add: first_header_state_def field_states_def)
  then have "exec_inv 0 (set_header_state (first_header_state c) (UPDATE_STATE s_header_field (set_index 0 (MARK M_header_field s))))" for c
    using inv_basic [OF inv] m by (simp add: exec_inv_def marks_ok_def exec_simps MARK_new mark_of_def state_ok_def chunk_states_def)
  moreover have "exec_inv 0 (UPDATE_STATE s_headers_almost_done s)"
    using inv_basic [OF inv] m by (simp add: exec_simps invI special_simps)
  ultimately show ?thesis
    using p st unfolding exec_header_field_start_def
    by (simp add: sound_BREAK sound_REEXECUTE sound_error exec_fields MARK_fields set_header_state_def set_index_def rank_def)
qed

text \<open>Following a name never reads beyond its end, and changes nothing but the index and the header state.\<close>

lemma match_name_result:
  "\<exists>h q'. match_name name found lost c q = Inr (h, q') \<and> h \<in> {found, lost, header_state q} \<and> (\<exists>i. q' = q\<lparr>index := i\<rparr>)"
  by (auto simp: match_name_def matcher_at_def Let_def split: option.split)

lemma field_char_result:
  assumes "header_state q \<in> field_states"
  shows "\<exists>q'. field_char b c q = Inr q' \<and> header_state q' \<in> field_states \<and> (\<exists>i h. q' = q\<lparr>index := i, header_state := h\<rparr>)"
proof -
  have match: "\<exists>q'. matching name found c q = Inr q' \<and> header_state q' \<in> field_states \<and> (\<exists>i h. q' = q\<lparr>index := i, header_state := h\<rparr>)"
    if "found \<in> field_states" for name found
  proof -
    obtain h i where m: "match_name name found h_general c q = Inr (h, q\<lparr>index := i\<rparr>)" "h \<in> {found, h_general, header_state q}"
      using match_name_result [of name found h_general c q] by blast
    then have "h \<in> field_states" using that assms by (auto simp: field_states_def)
    then show ?thesis using m(1) by (simp add: matching_def) blast
  qed
  have set: "\<exists>i h'. q\<lparr>header_state := h\<rparr> = q\<lparr>index := i, header_state := h'\<rparr>" for h
    by (rule exI [of _ "index q"], rule exI [of _ h]) simp
  have id: "\<exists>i h. q = q\<lparr>index := i, header_state := h\<rparr>"
    by (rule exI [of _ "index q"], rule exI [of _ "header_state q"]) simp
  have both: "\<exists>i' h'. q\<lparr>index := i, header_state := h\<rparr> = q\<lparr>index := i', header_state := h'\<rparr>" for i h by blast
  have four: "\<exists>q'. Inr (if b \<noteq> 32 then q\<lparr>header_state := h_general\<rparr> else q) = Inr q' \<and> header_state q' \<in> field_states \<and>
      (\<exists>i h. q' = q\<lparr>index := i, header_state := h\<rparr>)"
    using set id assms by (cases "b = 32") (simp_all add: field_states_def)
  show ?thesis
  proof (cases "header_state q \<in> {h_C, h_CO, h_CON}")
    case True
    then show ?thesis unfolding insert_iff empty_iff
      by (elim disjE) (simp_all add: field_char_def Let_def field_states_def both)
  next
    case False
    then show ?thesis
      using assms match [of h_connection] match [of h_content_length] match [of h_transfer_encoding] match [of h_upgrade] four id
      unfolding field_states_def insert_iff empty_iff
      by (elim disjE) (simp_all add: field_char_def Let_def)
  qed
qed

lemma field_loop_result:
  assumes "header_state q \<in> field_states"
  shows "\<exists>pos' b' i h. field_loop strict bs pos b q = Inr (pos', b', q\<lparr>index := i, header_state := h\<rparr>) \<and>
    h \<in> field_states \<and> pos \<le> pos' \<and> pos' \<le> pos + length bs \<and> (pos' = pos \<longrightarrow> bs = [] \<or> TOKEN strict (hd bs) = 0)"
  using assms
proof (induction bs arbitrary: pos b q)
  case Nil
  have "q = q\<lparr>index := index q, header_state := header_state q\<rparr>" by simp
  then show ?case using Nil by (metis field_loop.simps(1) order_refl le_add1)
next
  case (Cons c bs)
  show ?case
  proof (cases "TOKEN strict c = 0")
    case True
    have "field_loop strict (c # bs) pos b q = Inr (pos, c, q\<lparr>index := index q, header_state := header_state q\<rparr>)"
      using True by simp
    then show ?thesis using True Cons.prems by (metis le_add1 list.sel(1) order_refl)
  next
    case False
    obtain i h where q: "field_char c (TOKEN strict c) q = Inr (q\<lparr>index := i, header_state := h\<rparr>)" "h \<in> field_states"
      using field_char_result [OF Cons.prems, of c "TOKEN strict c"] by auto
    obtain pos' b' i' h' where r: "field_loop strict bs (pos + 1) c (q\<lparr>index := i, header_state := h\<rparr>) =
        Inr (pos', b', q\<lparr>index := i, header_state := h\<rparr>\<lparr>index := i', header_state := h'\<rparr>)"
        "h' \<in> field_states" "pos + 1 \<le> pos'" "pos' \<le> pos + 1 + length bs"
      using Cons.IH [of "q\<lparr>index := i, header_state := h\<rparr>" "pos + 1" c] q(2) by auto
    have "field_loop strict (c # bs) pos b q = Inr (pos', b', q\<lparr>index := i', header_state := h'\<rparr>)"
      using False q(1) r(1) by simp
    then show ?thesis using r(2-4) by (intro exI [of _ pos'] exI [of _ b'] exI [of _ i'] exI [of _ h']) simp
  qed
qed

lemma sound_count [exec_simps]:
  "sound data s (COUNT_HEADER_SIZE v s' k) \<longleftrightarrow>
     (let s'' = upd (\<lambda>q. q\<lparr>nread := (nread q + v) mod 2 ^ 32\<rparr>) s' in
      if nread (px s'') > HTTP_MAX_HEADER_SIZE then p s \<le> p s' \<and> p s' \<le> length data else sound data s (k s''))"
  by (simp add: COUNT_HEADER_SIZE_def exec_simps Let_def)

lemma header_field_sound:
  assumes inv: "exec_inv 1 s" and p: "p s < length data" and st: "p_state s = s_header_field"
  shows "sound data s (exec_header_field strict cb data s)"
proof -
  have mo: "mark_of (p_state s) = Some M_header_field" by (simp add: mark_of_def st)
  note m = inv_marks_only [OF inv mo]
  have "header_state (px s) \<in> field_states" using inv st by (simp add: exec_inv_def state_ok_def)
  then obtain pos b i h where r: "field_loop strict (drop (p s) data) (p s) (ch s) (px s) = Inr (pos, b, px s\<lparr>index := i, header_state := h\<rparr>)"
      "h \<in> field_states" "p s \<le> pos" "pos \<le> length data"
    using field_loop_result [of "px s" strict "drop (p s) data" "p s" "ch s"] p by auto
  have stay: "exec_inv 0 s'" if "px s' = px s\<lparr>index := i, header_state := h, nread := n\<rparr>" "p_state s' = p_state s" "marks s' = marks s" "p s \<le> p s'"
    for s' :: "'a exec" and n
    using that inv r(2) st unfolding exec_inv_def marks_ok_def
    by (auto simp: state_ok_def chunk_states_def intro: le_trans)
  have le: "\<forall>i. marks s M_header_field = Some i \<longrightarrow> i \<le> pos" using m(2) r(3) le_trans by blast
  show ?thesis
  proof (cases "pos = length data")
    case True
    then show ?thesis using r(1,3) p stay by (auto simp add: exec_header_field_def exec_simps Let_def)
  next
    case False
    then show ?thesis
      using r(1,3,4) p le m(1) inv_basic [OF inv] by (simp add: exec_header_field_def exec_simps Let_def data_break special_simps)
  qed
qed

text \<open>The header states in which a value can be read, and what reading it keeps.\<close>

definition value_states :: "header_states set" where
  "value_states = - {h_connection, h_transfer_encoding}"

definition value_keeps :: "http_parser \<Rightarrow> header_states \<times> http_parser \<Rightarrow> bool" where
  "value_keeps q hq = (case hq of (h, q') \<Rightarrow> h \<in> value_states \<and> http_errno q' = http_errno q \<and>
     content_length q' \<le> max ULLONG_MAX (content_length q))"

lemma mod_le_divisor_pred: "0 < (m :: nat) \<Longrightarrow> m = n + 1 \<Longrightarrow> a mod m \<le> n"
  using mod_less_divisor [of m a] by simp

lemma value_char_result:
  assumes "h \<in> value_states"
  shows "value_char b (h, q) = Inr (Inl BadLength) \<or> (\<exists>hq. value_char b (h, q) = Inr (Inr hq) \<and> value_keeps q hq)"
proof -
  have match: "\<exists>hq. match_value name found lost c (h, q) = Inr hq \<and> value_keeps q hq"
    if "found \<in> value_states" "lost \<in> value_states" for name found lost c
  proof -
    obtain h' i where "match_name name found lost c (q\<lparr>header_state := h\<rparr>) = Inr (h', q\<lparr>header_state := h\<rparr>\<lparr>index := i\<rparr>)"
        "h' \<in> {found, lost, h}"
      using match_name_result [of name found lost c "q\<lparr>header_state := h\<rparr>"] by auto
    then show ?thesis using that assms by (auto simp: match_value_def value_keeps_def)
  qed
  have tok: "value_keeps q (connection_token b f h q)" for f
    using assms by (simp add: connection_token_def value_keeps_def value_states_def)
  show ?thesis
  proof (cases h)
    case h_matching_transfer_encoding_chunked
    then show ?thesis using match [of h_transfer_encoding_chunked h_general "''chunked''" "LOWER b"]
      by (auto simp: value_char_def Let_def value_states_def)
  next
    case h_matching_connection_keep_alive
    then show ?thesis using match [of h_connection_keep_alive h_matching_connection_token "''keep-alive''" "LOWER b"]
      by (auto simp: value_char_def Let_def value_states_def)
  next
    case h_matching_connection_close
    then show ?thesis using match [of h_connection_close h_matching_connection_token "''close''" "LOWER b"]
      by (auto simp: value_char_def Let_def value_states_def)
  next
    case h_matching_connection_upgrade
    then show ?thesis using match [of h_connection_upgrade h_matching_connection_token "''upgrade''" "LOWER b"]
      by (auto simp: value_char_def Let_def value_states_def)
  next
    case h_content_length
    have "(content_length q * 10 + digit b) mod 2 ^ 64 \<le> ULLONG_MAX" by (rule mod_le_divisor_pred) simp_all
    then show ?thesis using h_content_length assms
      by (auto simp: value_char_def Let_def value_keeps_def)
  qed (use assms tok in \<open>simp_all add: value_char_def Let_def value_keeps_def value_states_def\<close>)
qed

lemma skip_general_le: "skip_general bs \<le> length bs"
  using memchr_Some by (fastforce simp: skip_general_def Let_def split: option.split)

lemma value_loop_result:
  assumes "fst hq \<in> value_states" and "content_length (snd hq) \<le> ULLONG_MAX"
  shows "\<exists>e pos' b' hq'. value_loop bs pos b hq = Inr (e, pos', b', hq') \<and> value_keeps (snd hq) hq' \<and>
    pos \<le> pos' \<and> pos' \<le> pos + length bs \<and>
    (if e = Data_end then pos' = pos + length bs else pos' < pos + length bs) \<and> (e = Line_end \<longrightarrow> b' = CR \<or> b' = LF)"
  using assms
proof (induction bs pos b hq rule: value_loop.induct)
  case (1 pos b hq)
  then show ?case by (cases hq) (simp add: value_keeps_def)
next
  case (2 c rest pos b hq)
  let ?bs = "c # rest"
  show ?case
  proof (cases "c = CR \<or> c = LF")
    case True
    then show ?thesis using 2(3,4) by (cases hq) (auto simp: value_loop.simps(2) value_keeps_def)
  next
    case line: False
    show ?thesis
    proof (cases "fst hq = h_general")
      case True
      have k: "skip_general ?bs \<le> length ?bs" by (rule skip_general_le)
      have "value_loop ?bs pos b hq = value_loop (drop (skip_general ?bs) ?bs) (pos + skip_general ?bs) c hq"
        using line True by (simp add: value_loop.simps(2) del: drop_Cons)
      moreover have "pos + skip_general ?bs + length (drop (skip_general ?bs) ?bs) = pos + length ?bs" using k by simp
      ultimately show ?thesis using 2(1) [OF line True 2(3,4)] by (metis add_leD1)
    next
      case False
      obtain h q where hq: "hq = (h, q)" by (cases hq)
      have step: "value_loop ?bs pos b hq = rbind (value_char c hq) (\<lambda>r. case r of
          Inl BadLength \<Rightarrow> Inr (Length_error, pos, c, hq) | Inr hq \<Rightarrow> value_loop rest (pos + 1) c hq)"
        using line False by (subst value_loop.simps(2)) (simp only: if_False)
      consider "value_char c hq = Inr (Inl BadLength)" | hq' where "value_char c hq = Inr (Inr hq')" "value_keeps q hq'"
        using value_char_result [of h c q] 2(3) hq by auto
      then show ?thesis
      proof cases
        case 1
        then show ?thesis using step 2(3) by (simp add: value_keeps_def hq)
      next
        case (2 hq')
        have ok: "fst hq' \<in> value_states" "content_length (snd hq') \<le> ULLONG_MAX"
          using 2(2) "2.prems"(2) hq by (auto simp: value_keeps_def split: prod.splits)
        from "2.IH"(2) [OF line False _ _ ok, of "Inr hq'"] 2(1)
        obtain e pos' b' hq'' where r: "value_loop rest (pos + 1) c hq' = Inr (e, pos', b', hq'')" "value_keeps (snd hq') hq''"
            "pos + 1 \<le> pos'" "pos' \<le> pos + 1 + length rest"
            "if e = Data_end then pos' = pos + 1 + length rest else pos' < pos + 1 + length rest" "e = Line_end \<longrightarrow> b' = CR \<or> b' = LF"
          by auto
        have "value_keeps (snd hq) hq''"
          using r(2) 2(2) "2.prems"(2) hq by (auto simp: value_keeps_def split: prod.splits)
        moreover have "value_loop ?bs pos b hq = Inr (e, pos', b', hq'')" using step 2(1) r(1) by simp
        ultimately show ?thesis using r(3-6) by (intro exI [of _ e] exI [of _ pos'] exI [of _ b'] exI [of _ hq'']) auto
      qed
    qed
  qed
qed

end
