(* ===== verification/Http_Exec_Total.thy ===== *)
theory Http_Exec_Total
  imports Http_Exec_Safe
begin

text \<open>
  The rest of the cases, the loop, and the whole of \<open>http_parser_execute\<close>: it returns, for every parser
  made by \<open>http_parser_init\<close> and earlier calls.
\<close>

section \<open>Header values and the end of the head\<close>

lemma value_invI:
  "p_state s = s_header_value \<Longrightarrow> marks s = (\<lambda>_. None)(M_header_value := Some (p s)) \<Longrightarrow> http_errno (px s) = HPE_OK \<Longrightarrow>
   content_length (px s) \<le> ULLONG_MAX \<Longrightarrow> header_state (px s) \<noteq> h_connection \<Longrightarrow> header_state (px s) \<noteq> h_transfer_encoding \<Longrightarrow>
   exec_inv k s"
  by (simp add: exec_inv_def marks_ok_def mark_of_def state_ok_def chunk_states_def)

lemma value_start_sound:
  assumes inv: "exec_inv 1 s" and p: "p s < length data"
    and st: "p_state s = s_header_value_start \<or> p_state s = s_header_value_discard_ws"
  shows "sound data s (exec_header_value_start s)"
proof -
  have m: "marks s = (\<lambda>_. None)" by (rule inv_marks_none [OF inv]) (use st in \<open>auto simp: mark_of_def\<close>)
  have "unat (ch s) < 2 ^ LENGTH(8)" by (rule unsigned_less)
  then have d: "digit (ch s) \<le> ULLONG_MAX" by (simp add: digit_def)
  note b = inv_basic [OF inv]
  show ?thesis
    using b d p by (cases "header_state (px s)") (simp_all add: exec_header_value_start_def Let_def exec_simps MARK_new [OF m] value_invI)
qed

lemma discard_ws_sound:
  assumes inv: "exec_inv 1 s" and p: "p s < length data" and st: "p_state s = s_header_value_discard_ws"
  shows "sound data s (exec_discard_ws s)"
proof -
  have m: "marks s = (\<lambda>_. None)" by (rule inv_marks_none [OF inv]) (simp add: mark_of_def st)
  show ?thesis
    using inv_basic [OF inv] m p st value_start_sound [OF inv p]
    by (simp add: exec_discard_ws_def exec_simps invI special_simps)
qed

lemma header_value_sound:
  assumes inv: "exec_inv 1 s" and p: "p s < length data" and st: "p_state s = s_header_value"
  shows "sound data s (exec_header_value cb data s)"
proof -
  note b = inv_basic [OF inv]
  have mo: "mark_of (p_state s) = Some M_header_value" by (simp add: mark_of_def st)
  note m = inv_marks_only [OF inv mo]
  have "header_state (px s) \<in> value_states" using inv st by (simp add: exec_inv_def state_ok_def value_states_def)
  moreover have len: "p s + length (drop (p s) data) = length data" using p by simp
  ultimately obtain e pos c h q where
      v: "value_loop (drop (p s) data) (p s) (ch s) (header_state (px s), px s) = Inr (e, pos, c, h, q)"
        "value_keeps (px s) (h, q)" "p s \<le> pos" "pos \<le> length data"
        "if e = Data_end then pos = length data else pos < length data" "e = Line_end \<longrightarrow> c = CR \<or> c = LF"
    using value_loop_result [of "(header_state (px s), px s)" "drop (p s) data" "p s" "ch s"] b(2) unfolding len by auto
  have q: "h \<in> value_states" "http_errno q = HPE_OK" "content_length q \<le> ULLONG_MAX"
    using v(2) b by (auto simp: value_keeps_def)
  have le: "\<forall>i. marks s M_header_value = Some i \<longrightarrow> i \<le> pos" using m(2) v(3) le_trans by blast
  show ?thesis
  proof (cases e)
    case Data_end
    have "exec_inv 0 s'" if "px s' = q\<lparr>header_state := h, nread := n\<rparr>" "p_state s' = p_state s" "marks s' = marks s" "p s \<le> p s'"
      for s' :: "'a exec" and n
      using that inv q st unfolding exec_inv_def marks_ok_def
      by (auto simp: state_ok_def chunk_states_def value_states_def intro: le_trans)
    then show ?thesis using v q(2) p Data_end by (auto simp add: exec_header_value_def exec_simps Let_def)
  next
    case Length_error
    then show ?thesis using v by (simp add: exec_header_value_def exec_simps Let_def)
  next
    case Line_end
    define s1 where "s1 = UPDATE_STATE s_header_almost_done (s\<lparr>p := pos, ch := c, px := q\<rparr>)"
    have s1: "p s1 = pos" "p_state s1 = s_header_almost_done" "px s1 = q" "marks s1 = marks s" by (simp_all add: s1_def exec_simps)
    have pos: "pos < length data" using v(5) Line_end by simp
    have again: "sound data s (CALLBACK_DATA_NOADVANCE cb data M_header_value
        (set_header_state h (upd (\<lambda>r. r\<lparr>nread := g r\<rparr>) s1)) REEXECUTE)" for g
      using s1 q m le pos v(3) st by (intro data_again) (simp_all add: exec_simps special_simps rank_def)
    have stop: "sound data s (CALLBACK_DATA cb data M_header_value (set_header_state h s1)
        (\<lambda>s. COUNT_HEADER_SIZE n s BREAK))" for n
      unfolding CALLBACK_DATA_def
    proof (rule sound_data)
      show "sound data s (COUNT_HEADER_SIZE n ((set_header_state h s1)\<lparr>px := r, user := u,
          marks := (marks (set_header_state h s1))(M_header_value := None)\<rparr>) BREAK)"
        if "r = px (set_header_state h s1) \<or> r = (px (set_header_state h s1))\<lparr>pstate := p_state (set_header_state h s1)\<rparr>" for r u
        using that s1 q m pos v(3) by (auto simp add: exec_simps Let_def special_simps intro!: invI)
    qed (use s1 q le pos v(3) in \<open>simp_all add: exec_simps special_simps\<close>)
    have step: "exec_header_value cb data s =
        (if c = CR then CALLBACK_DATA cb data M_header_value (set_header_state h s1) (\<lambda>s. COUNT_HEADER_SIZE (pos - p s') s BREAK)
         else COUNT_HEADER_SIZE (pos - p s') s1 (\<lambda>s. CALLBACK_DATA_NOADVANCE cb data M_header_value (set_header_state h s) REEXECUTE))"
      if "s' = s" for s'
      using v(1) Line_end that by (simp add: exec_header_value_def Let_def s1_def)
    show ?thesis
      unfolding step [OF refl] using stop again s1 v(3) pos by (cases "c = CR") (simp_all add: sound_count Let_def exec_fields)
  qed
qed

lemma finish_header_fields:
  "p_state (finish_header s) = p_state s" "p (finish_header s) = p s" "marks (finish_header s) = marks s"
  "http_errno (px (finish_header s)) = http_errno (px s)" "content_length (px (finish_header s)) = content_length (px s)"
  by (cases "header_state (px s)"; simp add: finish_header_def exec_simps)+

lemma header_end_sound:
  assumes inv: "exec_inv 1 s" and p: "p s < length data"
    and st: "p_state s \<in> {s_header_almost_done, s_header_value_lws, s_header_value_discard_ws_almost_done, s_header_value_discard_lws}"
  shows "sound data s (exec_header_end strict cb data s)"
proof -
  have m: "marks s = (\<lambda>_. None)" by (rule inv_marks_none [OF inv]) (use st in \<open>auto simp: mark_of_def\<close>)
  show ?thesis
    using inv_basic [OF inv] m p st unfolding insert_iff empty_iff
    by (elim disjE) (simp_all add: exec_header_end_def exec_simps special_simps invI rank_def finish_header_fields
      data_again MARK_new)
qed

lemma invoke_cb_fields:
  assumes "invoke_cb cb c s = (r, s')"
  shows "p s' = p s" "p_state s' = p_state s" "marks s' = marks s" "content_length (px s') = content_length (px s)"
    "http_errno (px s') = http_errno (px s) \<or> http_errno (px s') = HPE_PAUSED"
  using assms by (auto simp: invoke_cb_def Let_def exec_simps split: prod.splits)

lemma headers_almost_done_sound:
  assumes inv: "exec_inv 1 s" and p: "p s < length data" and st: "p_state s = s_headers_almost_done"
  shows "sound data s (exec_headers_almost_done strict cb s)"
proof -
  note b = inv_basic [OF inv]
  have m: "marks s = (\<lambda>_. None)" by (rule inv_marks_none [OF inv]) (simp add: mark_of_def st)
  define s1 where "s1 = upd (\<lambda>q. q\<lparr>upgrade := flags q F_UPGRADE \<and> flags q F_CONNECTION_UPGRADE \<or> method q = HTTP_CONNECT\<rparr>)
    (UPDATE_STATE s_headers_done s)"
  obtain r s2 where c: "invoke_cb cb cb_headers_complete (s1\<lparr>p_state := pstate (px s1)\<rparr>) = (r, s2)" by (metis surj_pair)
  note f = invoke_cb_fields [OF c]
  have s2: "p s2 = p s" "marks s2 = (\<lambda>_. None)" "content_length (px s2) \<le> ULLONG_MAX"
    "http_errno (px s2) = HPE_OK \<or> http_errno (px s2) = HPE_PAUSED"
    using f b m by (simp_all add: s1_def exec_simps)
  have step: "exec_headers_almost_done strict cb s = STRICT_CHECK strict (ch s \<noteq> LF) s (\<lambda>s'.
      if flags (px s) F_TRAILING then CALLBACK_NOTIFY_NOADVANCE cb cb_chunk_complete (UPDATE_STATE s_message_done s) REEXECUTE
      else let s = UPDATE_STATE s_headers_done s2; s = (if r = 1 then set_flag F_SKIPBODY s else s) in
        if r \<noteq> 0 \<and> r \<noteq> 1 then RETURN (p s) (SET_ERRNO HPE_CB_headers_complete s)
        else if http_errno (px s) \<noteq> HPE_OK then RETURN (p s) s
        else REEXECUTE s)"
    unfolding exec_headers_almost_done_def STRICT_CHECK_def using c by (simp add: s1_def [symmetric] Let_def)
  show ?thesis
    unfolding step using b m p st s2
    by (cases "r = 1") (simp_all add: exec_simps Let_def special_simps rank_def notify_again invI)
qed

lemma headers_done_sound:
  assumes inv: "exec_inv 1 s" and p: "p s < length data" and st: "p_state s = s_headers_done"
  shows "sound data s (exec_headers_done strict cb s)"
proof -
  note b = inv_basic [OF inv]
  have m: "marks s = (\<lambda>_. None)" by (rule inv_marks_none [OF inv]) (simp add: mark_of_def st)
  have new: "NEW_MESSAGE strict q \<notin> special_states" "mark_of (NEW_MESSAGE strict q) = None" for q
    by (simp_all add: NEW_MESSAGE_def start_state_def special_states_def chunk_states_def mark_of_def)
  have complete: "sound data s (CALLBACK_NOTIFY cb cb_message_complete (UPDATE_STATE (NEW_MESSAGE strict q) (upd (\<lambda>q. q\<lparr>nread := 0\<rparr>) s)) k)"
    if "\<And>s'. p s' = p s \<Longrightarrow> marks s' = (\<lambda>_. None) \<Longrightarrow> p_state s' \<notin> special_states \<Longrightarrow> http_errno (px s') = HPE_OK \<Longrightarrow>
        content_length (px s') \<le> ULLONG_MAX \<Longrightarrow> sound data s (k s')" for q and k :: "'a exec \<Rightarrow> 'a outcome"
    unfolding CALLBACK_NOTIFY_def using b m p new by (intro sound_notify that) (simp_all add: exec_simps state_ok_plain)
  have c1: "sound data s (CALLBACK_NOTIFY cb cb_message_complete (UPDATE_STATE (NEW_MESSAGE strict q) (upd (\<lambda>q. q\<lparr>nread := 0\<rparr>) s)) BREAK)" for q
    using p by (intro complete) (simp add: sound_BREAK invI state_ok_plain)
  have c2: "sound data s (CALLBACK_NOTIFY cb cb_message_complete (UPDATE_STATE (NEW_MESSAGE strict q) (upd (\<lambda>q. q\<lparr>nread := 0\<rparr>) s))
      (\<lambda>s. RETURN (p s + 1) s))" for q
    using p by (intro complete) (simp add: sound_RETURN state_ok_plain)
  have body: "exec_inv 0 (UPDATE_STATE s_body_identity (upd (\<lambda>q. q\<lparr>nread := 0\<rparr>) s))"
    if "content_length (px s) \<noteq> 0" "content_length (px s) \<noteq> ULLONG_MAX"
    using that b m by (intro invI) (simp_all add: exec_fields state_ok_def chunk_states_def)
  have eof: "exec_inv 0 (UPDATE_STATE s_body_identity_eof (upd (\<lambda>q. q\<lparr>nread := 0\<rparr>) s))"
    using b m by (intro invI) (simp_all add: exec_fields special_simps)
  have chunk: "exec_inv 0 (UPDATE_STATE s_chunk_size_start (upd (\<lambda>q. q\<lparr>nread := 0\<rparr>) s))" if "flags (px s) F_CHUNKED"
    using that b m by (intro invI) (simp_all add: exec_fields state_ok_def chunk_states_def)
  show ?thesis
    unfolding exec_headers_done_def sound_STRICT Let_def using p c1 c2 body eof chunk
    by (auto simp: exec_fields sound_BREAK)
qed

section \<open>Bodies\<close>

lemma take_body_fields:
  assumes "p s < length data" "content_length (px s) \<noteq> 0"
  defines "s' \<equiv> take_body data s"
  shows "p_state s' = p_state s" "http_errno (px s') = http_errno (px s)" "flags (px s') = flags (px s)"
    "p s \<le> p s'" "p s' < length data" "content_length (px s') < content_length (px s)"
    "marks s' = marks (MARK M_body s)"
  using assms by (auto simp: take_body_def exec_simps Let_def)

lemma marks_body:
  assumes "exec_inv k s" and "mark_of (p_state s) = Some M_body"
  shows "marks (MARK M_body s) m = Some i \<Longrightarrow> m = M_body \<and> i \<le> p s" and "(marks (MARK M_body s))(M_body := None) = (\<lambda>_. None)"
proof -
  show a: "m = M_body \<and> i \<le> p s" if "marks (MARK M_body s) m = Some i" for m i
    using marks_MARK [OF that] assms unfolding exec_inv_def marks_ok_def by auto
  show "(marks (MARK M_body s))(M_body := None) = (\<lambda>_. None)"
    using a by (auto simp: fun_eq_iff) (metis not_Some_eq)
qed

lemma body_sound:
  assumes inv: "exec_inv 1 s" and p: "p s < length data" and st: "p_state s \<in> {s_body_identity, s_body_identity_eof, s_message_done}"
  shows "sound data s (exec_body strict cb data s)"
proof -
  note b = inv_basic [OF inv]
  consider "p_state s = s_body_identity" | "p_state s = s_body_identity_eof" | "p_state s = s_message_done" using st by blast
  then show ?thesis
  proof cases
    case 1
    have c: "content_length (px s) \<noteq> 0" "content_length (px s) \<noteq> ULLONG_MAX" using inv 1 by (simp_all add: exec_inv_def state_ok_def)
    have mo: "mark_of (p_state s) = Some M_body" by (simp add: mark_of_def 1)
    note f = take_body_fields [OF p c(1)] and m = marks_body [OF inv mo]
    have rest: "exec_inv 0 (take_body data s)" if "content_length (px (take_body data s)) \<noteq> 0"
      using that f m(1) b c 1 mo unfolding exec_inv_def marks_ok_def
      by (auto simp: state_ok_def chunk_states_def intro: le_trans)
    have fin: "sound data s (CALLBACK_DATA_ER cb data M_body (p s' + 1) (p s') (UPDATE_STATE s_message_done s') REEXECUTE)"
      if "s' = take_body data s" for s'
    proof (rule sound_data)
      show "i \<le> p s' + 1" if "marks (UPDATE_STATE s_message_done s') M_body = Some i" for i
        using m(1) that f(4,7) \<open>s' = take_body data s\<close> by (fastforce simp: exec_simps)
    qed (use that f m(2) b c 1 in \<open>auto simp: exec_simps special_simps rank_def intro!: invI\<close>)
    show ?thesis
      using 1 c f(4,5) rest fin by (simp add: exec_body_def sound_check body_length_ok_def Let_def sound_BREAK)
  next
    case 2
    have mo: "mark_of (p_state s) = Some M_body" by (simp add: mark_of_def 2)
    have "exec_inv 0 ((MARK M_body s)\<lparr>p := length data - 1\<rparr>)"
      using marks_body(1) [OF inv mo] b 2 mo p unfolding exec_inv_def marks_ok_def
      by (fastforce simp: exec_simps special_simps)
    then show ?thesis using 2 p by (auto simp: exec_body_def sound_BREAK)
  next
    case 3
    then have m: "marks s = (\<lambda>_. None)" by (intro inv_marks_none [OF inv]) (simp add: mark_of_def)
    have new: "NEW_MESSAGE strict q \<notin> special_states" for q
      by (simp add: NEW_MESSAGE_def start_state_def special_states_def chunk_states_def)
    have "sound data s (CALLBACK_NOTIFY cb cb_message_complete (UPDATE_STATE (NEW_MESSAGE strict (px s)) s)
        (\<lambda>s. if upgrade (px s) then RETURN (p s + 1) s else BREAK s))"
      unfolding CALLBACK_NOTIFY_def using b m p new
      by (intro sound_notify) (simp_all add: exec_fields state_ok_plain sound_RETURN sound_BREAK invI)
    then show ?thesis using 3 by (simp add: exec_body_def)
  qed
qed

lemma unhex_less: "unhex c = Some v \<Longrightarrow> v < 16"
  by (auto simp: unhex_def IS_NUM_def char_byte_def word_le_nat_alt split: if_splits)

lemma chunk_size_sound:
  assumes inv: "exec_inv 1 s" and p: "p s < length data"
    and st: "p_state s \<in> {s_chunk_size_start, s_chunk_size, s_chunk_parameters, s_chunk_size_almost_done}"
  shows "sound data s (exec_chunk_size strict cb s)"
proof -
  note b = inv_basic [OF inv]
  have m: "marks s = (\<lambda>_. None)" by (rule inv_marks_none [OF inv]) (use st in \<open>auto simp: mark_of_def\<close>)
  have f: "flags (px s) F_CHUNKED" "p_state s = s_chunk_size_start \<Longrightarrow> nread (px s) = 1"
    "p_state s \<noteq> s_chunk_size_start \<Longrightarrow> content_length (px s) < ULLONG_MAX"
    using inv st by (auto simp: exec_inv_def state_ok_def chunk_states_def)
  have k: "exec_inv 0 s'" if "p_state s' \<in> {s_chunk_size, s_chunk_parameters, s_chunk_size_almost_done}" "marks s' = (\<lambda>_. None)"
      "http_errno (px s') = HPE_OK" "flags (px s') F_CHUNKED" "content_length (px s') < ULLONG_MAX" for s' :: "'a exec"
    using that by (intro invI) (auto simp: state_ok_def chunk_states_def)
  have grow: "(content_length (px s) * 16 + v) mod 2 ^ 64 < ULLONG_MAX"
    if "unhex (ch s) = Some v" "\<not> (ULLONG_MAX - 16) div 16 < content_length (px s)" for v
    using unhex_less [OF that(1)] that(2) by simp
  have fin: "sound data s (CALLBACK_NOTIFY cb cb_chunk_header
      (if content_length (px s') = 0 then UPDATE_STATE s_header_field_start (set_flag F_TRAILING s') else UPDATE_STATE s_chunk_data s') BREAK)"
    if "s' = upd (\<lambda>q. q\<lparr>nread := 0\<rparr>) s" "content_length (px s) < ULLONG_MAX" for s'
    using that b m p f(1) by (intro notify_break) (simp_all add: exec_simps state_ok_def chunk_states_def)
  consider "p_state s = s_chunk_size_start" | "p_state s = s_chunk_size" | "p_state s = s_chunk_parameters"
    | "p_state s = s_chunk_size_almost_done" using st by blast
  then show ?thesis
  proof cases
    case 1
    show ?thesis
    proof (cases "unhex (ch s)")
      case (Some v)
      then show ?thesis using unhex_less [OF Some] 1 f b m p k
        by (simp add: exec_chunk_size_def sound_check sound_BREAK exec_fields)
    qed (use 1 f p in \<open>simp add: exec_chunk_size_def sound_check sound_error exec_fields\<close>)
  next
    case 2
    then show ?thesis using f b m p k grow
      by (auto simp: exec_chunk_size_def sound_check sound_BREAK sound_error exec_fields split: option.split)
  next
    case 3
    then show ?thesis using f b m p k by (simp add: exec_chunk_size_def sound_check sound_BREAK exec_fields)
  next
    case 4
    then show ?thesis using f b m p fin by (simp add: exec_chunk_size_def sound_check sound_STRICT Let_def)
  qed
qed

lemma chunk_data_sound:
  assumes inv: "exec_inv 1 s" and p: "p s < length data"
    and st: "p_state s \<in> {s_chunk_data, s_chunk_data_almost_done, s_chunk_data_done}"
  shows "sound data s (exec_chunk_data strict cb data s)"
proof -
  note b = inv_basic [OF inv]
  have f: "flags (px s) F_CHUNKED" using inv st by (auto simp: exec_inv_def state_ok_def chunk_states_def)
  consider "p_state s = s_chunk_data" | "p_state s = s_chunk_data_almost_done" | "p_state s = s_chunk_data_done" using st by blast
  then show ?thesis
  proof cases
    case 1
    have c: "content_length (px s) \<noteq> 0" "content_length (px s) \<noteq> ULLONG_MAX" using inv 1 by (simp_all add: exec_inv_def state_ok_def)
    have mo: "mark_of (p_state s) = Some M_body" by (simp add: mark_of_def 1)
    note t = take_body_fields [OF p c(1)] and m = marks_body [OF inv mo]
    define s' where "s' = take_body data s"
    have "exec_inv 0 (if content_length (px s') = 0 then UPDATE_STATE s_chunk_data_almost_done s' else s')"
      using t m(1) b c f 1 mo unfolding exec_inv_def marks_ok_def s'_def
      by (auto simp: state_ok_def chunk_states_def exec_fields mark_of_def intro: le_trans)
    moreover have "p s \<le> p (if content_length (px s') = 0 then UPDATE_STATE s_chunk_data_almost_done s' else s')"
      "p (if content_length (px s') = 0 then UPDATE_STATE s_chunk_data_almost_done s' else s') < length data"
      using t(4,5) by (simp_all add: s'_def exec_fields)
    ultimately show ?thesis
      using 1 c f by (simp only: exec_chunk_data_def state.case sound_check body_length_ok_def Let_def sound_BREAK s'_def [symmetric]) simp
  next
    case 2
    have c: "content_length (px s) = 0" using inv 2 by (simp add: exec_inv_def state_ok_def)
    have mo: "mark_of (p_state s) = Some M_body" by (simp add: mark_of_def 2)
    show ?thesis
      using 2 c f p b inv_marks_only [OF inv mo]
      by (simp add: exec_chunk_data_def sound_check sound_STRICT data_break exec_fields state_ok_def chunk_states_def)
  next
    case 3
    then have m: "marks s = (\<lambda>_. None)" by (intro inv_marks_none [OF inv]) (simp add: mark_of_def)
    show ?thesis
      using 3 f p b m by (simp add: exec_chunk_data_def sound_check sound_STRICT notify_break exec_fields state_ok_def chunk_states_def)
  qed
qed

section \<open>The whole parser\<close>

lemma switch_sound:
  assumes inv: "exec_inv 1 s" and p: "p s < length data"
  shows "sound data s (exec_switch strict cb data s)"
proof -
  note rules = start_sound start_req_sound req_method_sound exec_url_sound req_version_sound res_version_sound
    res_status_sound field_start_sound header_field_sound discard_ws_sound value_start_sound header_value_sound
    header_end_sound headers_almost_done_sound headers_done_sound body_sound chunk_size_sound chunk_data_sound
  note all = rules [OF inv p]
  have dead: "sound data s (if ch s = CR \<or> ch s = LF then BREAK s else goto_error HPE_CLOSED_CONNECTION s)" if "p_state s = s_dead"
    using that inv_basic [OF inv] inv_marks_none [OF inv] p by (simp add: exec_simps invI mark_of_def special_simps)
  show ?thesis
    by (cases "p_state s") (simp_all add: exec_switch_def all dead url_states_def)
qed

lemma exec_inv_0_1: "exec_inv 0 s \<Longrightarrow> p_state s \<noteq> s_chunk_size_start \<Longrightarrow> exec_inv 1 s"
  by (simp add: exec_inv_def state_ok_def)

lemma flow_ok_mono: "flow_ok data s' f s'' \<Longrightarrow> p s \<le> p s' \<Longrightarrow> f \<noteq> Reexecute \<Longrightarrow> flow_ok data s f s''"
  by (cases f) (auto simp: flow_ok_def)

text \<open>Looking at a byte again ends.\<close>

lemma reexecute_sound:
  "exec_inv 1 s \<Longrightarrow> p s < length data \<Longrightarrow> rank (p_state s) < n \<Longrightarrow>
   \<exists>f s'. reexecute strict cb data n s = Inr (f, s') \<and> f \<noteq> Reexecute \<and> flow_ok data s f s'"
proof (induction n arbitrary: s)
  case (Suc n)
  obtain f s' where r: "exec_switch strict cb data s = Inr (f, s')" "flow_ok data s f s'"
    using switch_sound [OF Suc.prems(1,2), of strict cb] by (auto simp: sound_def)
  show ?case
  proof (cases "f = Reexecute")
    case True
    then have s': "exec_inv 1 s'" "p s' < length data" "rank (p_state s') < n" "p s \<le> p s'"
      using r(2) Suc.prems(3) exec_inv_0_1 by (auto simp: flow_ok_def)
    from Suc.IH [OF s'(1-3)] show ?thesis using r(1) True flow_ok_mono [OF _ s'(4)] by auto
  qed (use r in simp)
qed simp

lemma rank_le: "rank st < REEXECUTIONS"
  by (simp add: rank_def)

lemma byte_sound:
  assumes inv: "exec_inv 0 s" and p: "p s < length data"
  shows "\<exists>f s'. exec_byte strict cb data s = Inr (f, s') \<and> f \<noteq> Reexecute \<and> flow_ok data s f s'"
proof -
  define s1 where "s1 = s\<lparr>ch := data ! p s\<rparr>"
  have s1: "exec_inv 0 s1" "p s1 = p s" "p_state s1 = p_state s" using inv by (simp_all add: s1_def exec_inv_def marks_ok_def)
  have flow: "flow_ok data s1 f s' \<Longrightarrow> flow_ok data s f s'" for f s' by (cases f) (simp_all add: flow_ok_def s1_def)
  show ?thesis
  proof (cases "PARSING_HEADER (p_state s)")
    case True
    define s2 where "s2 = upd (\<lambda>q. q\<lparr>nread := (nread q + 1) mod 2 ^ 32\<rparr>) s1"
    have inv2: "exec_inv 1 s2" "p s2 = p s" "p_state s2 = p_state s"
      using s1 by (auto simp: s2_def exec_inv_def marks_ok_def state_ok_def exec_fields)
    have "exec_byte strict cb data s = (if nread (px s2) > HTTP_MAX_HEADER_SIZE
        then goto_error HPE_HEADER_OVERFLOW s2 else reexecute strict cb data REEXECUTIONS s2)"
      using True by (simp add: exec_byte_def s1_def [symmetric] s1 COUNT_HEADER_SIZE_def s2_def Let_def)
    moreover have "flow_ok data s Error (SET_ERRNO HPE_HEADER_OVERFLOW s2)"
      using p inv2(2) by (simp add: flow_ok_def exec_simps)
    moreover have "flow_ok data s2 f s' \<Longrightarrow> flow_ok data s f s'" for f s' using inv2(2,3) by (cases f) (simp_all add: flow_ok_def)
    ultimately show ?thesis
      using reexecute_sound [OF inv2(1), of data REEXECUTIONS strict cb] p inv2(2) rank_le by (auto simp: goto_error_def)
  next
    case False
    then have "exec_inv 1 s1" using exec_inv_0_1 [OF s1(1)] s1(3) by (auto simp: PARSING_HEADER_def)
    then show ?thesis
      using reexecute_sound [of s1 data REEXECUTIONS strict cb] p s1(2,3) rank_le False flow
      by (auto simp: exec_byte_def s1_def [symmetric])
  qed
qed

lemma leftover_sound:
  assumes inv: "exec_inv 0 s" and p: "p s = length data"
  shows "\<exists>n s'. leftover cb data s = Inr (Return n, s') \<and> n \<le> length data \<and> parser_ok (px s')"
proof -
  let ?I = "\<lambda>s' :: 'a exec. http_errno (px s') = HPE_OK \<and> state_ok 0 (p_state s') (px s') \<and> p s' = length data \<and>
    (\<forall>m i. marks s' m = Some i \<longrightarrow> i \<le> length data)"
  define good :: "'a outcome \<Rightarrow> bool" where "good r \<longleftrightarrow> (\<exists>n s'. r = Inr (Return n, s') \<and> n \<le> length data \<and> parser_ok (px s'))" for r
  have ret: "good (RETURN (length data) s')" if "?I s'" for s'
    using that by (simp add: good_def RETURN_def parser_ok_def exec_fields)
  have step: "good (CALLBACK_DATA_NOADVANCE cb data m s' k)" if I: "?I s'" and k: "\<And>s''. ?I s'' \<Longrightarrow> good (k s'')" for m s' k
  proof -
    show ?thesis
    proof (cases "marks s' m")
      case None
      then show ?thesis using I k by (simp add: CALLBACK_DATA_NOADVANCE_def CALLBACK_DATA_ER_def check_def)
    next
      case (Some i)
      let ?at = "take (length data - i) (drop i data)"
      obtain r s2 where c: "invoke_cb cb (data_cb m ?at) s' = (r, s2)" by (metis surj_pair)
      note f = invoke_cb_fields [OF c]
      have i: "i \<le> length data" using I Some by blast
      have st2: "state_ok 0 (p_state s2) (px s2)" "pstate (px s2) = p_state s2"
        using c I by (auto simp: invoke_cb_def Let_def exec_simps split: prod.splits)
      have e: "callback_errno c \<noteq> HPE_OK" "callback_errno c \<noteq> HPE_PAUSED" for c by (cases c; simp)+
      have "CALLBACK_DATA_NOADVANCE cb data m s' k =
          (let s = (if r \<noteq> 0 then SET_ERRNO (callback_errno (data_cb m ?at)) s2 else s2) in
           if http_errno (px s) \<noteq> HPE_OK then Inr (Return (length data), s) else k (s\<lparr>marks := (marks s)(m := None)\<rparr>))"
        using I Some c by (simp add: CALLBACK_DATA_NOADVANCE_def CALLBACK_DATA_ER_def CALLBACK_NOTIFY_ER_def check_def Let_def i [THEN leD])
      moreover have "good (k (s2\<lparr>marks := (marks s2)(m := None)\<rparr>))" if "http_errno (px s2) = HPE_OK"
        using that I f st2(1) by (intro k) auto
      ultimately show ?thesis
        using st2 e by (auto simp: good_def parser_ok_def exec_simps Let_def)
    qed
  qed
  have "count_marks s \<le> 1"
  proof (cases "mark_of (p_state s)")
    case None
    then show ?thesis using inv_marks_none [OF inv] by (simp add: count_marks_def)
  next
    case (Some m)
    have "marks s m' = None" if "m' \<noteq> m" for m'
      using inv Some that unfolding exec_inv_def marks_ok_def by (metis not_Some_eq option.inject)
    then show ?thesis by (cases m) (simp_all add: count_marks_def)
  qed
  moreover have "?I s" using inv p by (auto simp: exec_inv_def marks_ok_def)
  ultimately have "good (leftover cb data s)"
    unfolding leftover_def check_def by (simp only: if_True) (intro step ret; assumption)
  then show ?thesis by (simp add: good_def)
qed

lemma loop_sound:
  "exec_inv 0 s \<Longrightarrow> p s \<le> length data \<Longrightarrow> length data - p s < n \<Longrightarrow>
   \<exists>m s'. execute_loop strict cb data n s = Inr (Return m, s') \<and> m \<le> length data \<and> parser_ok (px s')"
proof (induction n arbitrary: s)
  case (Suc n)
  show ?case
  proof (cases "p s = length data")
    case True
    then show ?thesis using leftover_sound [OF Suc.prems(1) True, of cb] by simp
  next
    case False
    then have p: "p s < length data" using Suc.prems(2) by simp
    obtain f s' where r: "exec_byte strict cb data s = Inr (f, s')" "f \<noteq> Reexecute" "flow_ok data s f s'"
      using byte_sound [OF Suc.prems(1) p, of strict cb] by blast
    have loop: "execute_loop strict cb data (Suc n) s = (case f of
        Break \<Rightarrow> execute_loop strict cb data n (s'\<lparr>p := p s' + 1\<rparr>) | Error \<Rightarrow> error_exit s' | _ \<Rightarrow> Inr (f, s'))"
      using False p r(1) by simp
    show ?thesis
    proof (cases f)
      case Break
      then have s': "exec_inv 0 (s'\<lparr>p := p s' + 1\<rparr>)" "p s' + 1 \<le> length data" "length data - (p s' + 1) < n"
        using r(3) p Suc.prems(3) by (auto simp: flow_ok_def exec_inv_def marks_ok_def intro: le_SucI)
      show ?thesis using Suc.IH [OF s'(1)] s'(2,3) loop Break by simp
    next
      case Error
      then show ?thesis using r(3) loop by (auto simp: flow_ok_def error_exit_def RETURN_def parser_ok_def exec_simps Let_def)
    next
      case (Return m)
      then show ?thesis using r(3) loop by (simp add: flow_ok_def)
    qed (use r(2) in simp)
  qed
qed simp

lemma initial_inv: "parser_ok q \<Longrightarrow> http_errno q = HPE_OK \<Longrightarrow> exec_inv 0 (initial_exec q u)"
  by (auto simp: exec_inv_def initial_exec_def parser_ok_def marks_ok_def initial_marks_def mark_of_def split: if_splits)

theorem execute_total:
  assumes q: "parser_ok q"
  shows "\<exists>n q' u'. http_parser_execute strict cb q data u = Inr (n, q', u') \<and> n \<le> max 1 (length data) \<and> parser_ok q'"
proof (cases "http_errno q = HPE_OK")
  case False
  then show ?thesis using q by (simp add: http_parser_execute_def)
next
  case ok: True
  note inv = initial_inv [OF q ok, of u]
  show ?thesis
  proof (cases "data = []")
    case True
    let ?s = "(initial_exec q u)\<lparr>marks := \<lambda>_. None\<rparr>"
    have s: "http_errno (px ?s) = HPE_OK" "state_ok 0 (p_state ?s) (px ?s)" "p ?s = 0" "pstate (px ?s) = p_state ?s"
      using q ok by (simp_all add: initial_exec_def parser_ok_def)
    have ok': "parser_ok (px ?s)" using s(2,4) by (simp add: parser_ok_def)
    have "sound data ?s (CALLBACK_NOTIFY_NOADVANCE cb cb_message_complete ?s (\<lambda>s. Inr (Return 0, s)))"
      unfolding CALLBACK_NOTIFY_NOADVANCE_def using s ok' by (intro sound_notify) (simp_all add: flow_ok_def parser_ok_def)
    moreover have "\<exists>s'. CALLBACK_NOTIFY_NOADVANCE cb cb_message_complete ?s (\<lambda>s. Inr (Return 0, s)) = Inr (Return 0, s')"
      using s by (auto simp: CALLBACK_NOTIFY_NOADVANCE_def CALLBACK_NOTIFY_ER_def check_def Let_def split: prod.split)
    ultimately have "\<exists>s'. CALLBACK_NOTIFY_NOADVANCE cb cb_message_complete ?s (\<lambda>s. Inr (Return 0, s)) = Inr (Return 0, s') \<and> parser_ok (px s')"
      by (auto simp: flow_ok_def)
    then have "\<exists>n s'. execute_eof cb ?s = Inr (Return n, s') \<and> n \<le> 1 \<and> parser_ok (px s')"
      using ok' by (auto simp: execute_eof_def exec_simps parser_ok_def)
    then show ?thesis using True ok by (auto simp: http_parser_execute_def)
  next
    case False
    have "p (initial_exec q u) = 0" by (simp add: initial_exec_def)
    then show ?thesis
      using loop_sound [OF inv, of data "length data + 1" strict cb] False ok by (auto simp: http_parser_execute_def)
  qed
qed

text \<open>The parsers a program can have: made by \<open>http_parser_init\<close>, run, paused and resumed.\<close>

inductive in_use :: "bool \<Rightarrow> 'u callbacks \<Rightarrow> http_parser \<Rightarrow> bool" for strict cb where
  init: "in_use strict cb (http_parser_init t)"
| execute: "in_use strict cb q \<Longrightarrow> http_parser_execute strict cb q data u = Inr (n, q', u') \<Longrightarrow> in_use strict cb q'"
| pause: "in_use strict cb q \<Longrightarrow> http_parser_pause b q = Some q' \<Longrightarrow> in_use strict cb q'"

lemma parser_init_ok: "parser_ok (http_parser_init t)"
  by (simp add: parser_ok_def http_parser_init_def state_ok_def chunk_states_def)

lemma pause_ok: "parser_ok q \<Longrightarrow> http_parser_pause b q = Some q' \<Longrightarrow> parser_ok q'"
  by (auto simp: parser_ok_def http_parser_pause_def split: if_splits)

lemma in_use_ok: "in_use strict cb q \<Longrightarrow> parser_ok q"
proof (induction rule: in_use.induct)
  case (execute q data u n q' u')
  then show ?case using execute_total [of q strict cb data u] by simp
qed (simp_all add: parser_init_ok pause_ok)

end
