(* ===== verification/Http_Message.thy ===== *)
theory Http_Message
  imports Http_Binding Http_Exec_Total
begin

text \<open>
  \<open>execute\<close> of \<open>src/lua-http-parser.c\<close>: the callbacks of \<open>Http_Binding\<close> run by the message parser of
  \<open>Http_Exec\<close>, and what holds of every parser a program can have.
\<close>

section \<open>The callbacks as settings of the parser\<close>

definition parser_info_of :: "http_parser \<Rightarrow> parser_info" where
  "parser_info_of q = \<lparr>p_http_major = http_major q, p_http_minor = http_minor q,
     p_method = ascii (method_strings (method q)), p_status_code = status_code q, p_upgrade = upgrade q,
     p_keep_alive = http_should_keep_alive q\<rparr>"

text \<open>The callbacks for chunks are not set.\<close>

fun event_of :: "http_cb \<Rightarrow> http_parser \<Rightarrow> http_event option" where
  "event_of cb_message_begin q = Some MessageBegin"
| "event_of (cb_url at) q = Some (Url at)"
| "event_of (cb_status at) q = Some (Status at)"
| "event_of (cb_header_field at) q = Some (HeaderField at)"
| "event_of (cb_header_value at) q = Some (HeaderValue at)"
| "event_of cb_headers_complete q = Some (HeadersComplete (parser_info_of q))"
| "event_of (cb_body at) q = Some (Body at)"
| "event_of cb_message_complete q = Some (MessageComplete (parser_info_of q))"
| "event_of cb_chunk_header q = None"
| "event_of cb_chunk_complete q = None"

text \<open>Only the end of a message pauses the parser.\<close>

fun pauses :: "http_event \<Rightarrow> http_msg \<Rightarrow> bool" where
  "pauses (MessageComplete i) t = snd (on_message_complete i t)"
| "pauses _ t = False"

text \<open>
  The table on the stack; \<open>None\<close> once a callback has raised a Lua error, which leaves the parser at once.
  Every callback returns 0.
\<close>

definition settings :: "http_msg option callbacks" where
  "settings c q u = (case event_of c q of
     None \<Rightarrow> (0, False, u)
   | Some e \<Rightarrow> (case u of
       None \<Rightarrow> (0, False, None)
     | Some t \<Rightarrow> (case dispatch e t of None \<Rightarrow> (0, False, None) | Some t' \<Rightarrow> (0, pauses e t, Some t'))))"

section \<open>Execute\<close>

definition lnew :: "http_parser_type option \<Rightarrow> http_parser" where
  "lnew t = http_parser_init (case t of None \<Rightarrow> HTTP_BOTH | Some t \<Rightarrow> t)"

text \<open>
  The number of bytes parsed and the error number, if there is one, with the parser and the table
  afterwards. An offset beyond the data is an error, as is a callback that fails.
\<close>

definition lparser_execute :: "bool \<Rightarrow> http_parser \<Rightarrow> bytes \<Rightarrow> 64 word \<Rightarrow> http_msg \<Rightarrow>
    (http_error, (nat \<times> http_errno option) \<times> http_parser \<times> http_msg) res" where
  "lparser_execute strict q data from t =
     (if length data < unat from then Inl (Raise (BadArg 3)) else
      rbind (http_parser_execute strict settings q (drop (unat from) data) (Some t)) (\<lambda>(n, q, u).
      case u of None \<Rightarrow> Inl (Raise ConcatError) | Some t \<Rightarrow>
        rbind (if http_errno q = HPE_PAUSED
            then (case http_parser_pause False q of None \<Rightarrow> Inl (Raise AssertionFailed) | Some q \<Rightarrow> Inr q)
            else Inr q) (\<lambda>q.
        Inr ((n, if http_errno q = HPE_OK then None else Some (http_errno q)), q, t))))"

section \<open>Names of errors\<close>

text \<open>The errors in the order of their numbers, each with its description.\<close>

definition http_errno_map :: "(http_errno \<times> string \<times> string) list" where
  "http_errno_map = [
     (HPE_OK, ''HPE_OK'', ''success''),
     (HPE_CB_message_begin, ''HPE_CB_message_begin'', ''the on_message_begin callback failed''),
     (HPE_CB_url, ''HPE_CB_url'', ''the on_url callback failed''),
     (HPE_CB_header_field, ''HPE_CB_header_field'', ''the on_header_field callback failed''),
     (HPE_CB_header_value, ''HPE_CB_header_value'', ''the on_header_value callback failed''),
     (HPE_CB_headers_complete, ''HPE_CB_headers_complete'', ''the on_headers_complete callback failed''),
     (HPE_CB_body, ''HPE_CB_body'', ''the on_body callback failed''),
     (HPE_CB_message_complete, ''HPE_CB_message_complete'', ''the on_message_complete callback failed''),
     (HPE_CB_status, ''HPE_CB_status'', ''the on_status callback failed''),
     (HPE_CB_chunk_header, ''HPE_CB_chunk_header'', ''the on_chunk_header callback failed''),
     (HPE_CB_chunk_complete, ''HPE_CB_chunk_complete'', ''the on_chunk_complete callback failed''),
     (HPE_INVALID_EOF_STATE, ''HPE_INVALID_EOF_STATE'', ''stream ended at an unexpected time''),
     (HPE_HEADER_OVERFLOW, ''HPE_HEADER_OVERFLOW'', ''too many header bytes seen; overflow detected''),
     (HPE_CLOSED_CONNECTION, ''HPE_CLOSED_CONNECTION'', ''data received after completed connection: close message''),
     (HPE_INVALID_VERSION, ''HPE_INVALID_VERSION'', ''invalid HTTP version''),
     (HPE_INVALID_STATUS, ''HPE_INVALID_STATUS'', ''invalid HTTP status code''),
     (HPE_INVALID_METHOD, ''HPE_INVALID_METHOD'', ''invalid HTTP method''),
     (HPE_INVALID_URL, ''HPE_INVALID_URL'', ''invalid URL''),
     (HPE_INVALID_HOST, ''HPE_INVALID_HOST'', ''invalid host''),
     (HPE_INVALID_PORT, ''HPE_INVALID_PORT'', ''invalid port''),
     (HPE_INVALID_PATH, ''HPE_INVALID_PATH'', ''invalid path''),
     (HPE_INVALID_QUERY_STRING, ''HPE_INVALID_QUERY_STRING'', ''invalid query string''),
     (HPE_INVALID_FRAGMENT, ''HPE_INVALID_FRAGMENT'', ''invalid fragment''),
     (HPE_LF_EXPECTED, ''HPE_LF_EXPECTED'', ''LF character expected''),
     (HPE_INVALID_HEADER_TOKEN, ''HPE_INVALID_HEADER_TOKEN'', ''invalid character in header''),
     (HPE_INVALID_CONTENT_LENGTH, ''HPE_INVALID_CONTENT_LENGTH'', ''invalid character in content-length header''),
     (HPE_INVALID_CHUNK_SIZE, ''HPE_INVALID_CHUNK_SIZE'', ''invalid character in chunk size header''),
     (HPE_INVALID_CONSTANT, ''HPE_INVALID_CONSTANT'', ''invalid constant string''),
     (HPE_INVALID_INTERNAL_STATE, ''HPE_INVALID_INTERNAL_STATE'', ''encountered unexpected internal state''),
     (HPE_STRICT, ''HPE_STRICT'', ''strict mode assertion failed''),
     (HPE_PAUSED, ''HPE_PAUSED'', ''parser is paused''),
     (HPE_UNKNOWN, ''HPE_UNKNOWN'', ''an unknown error occurred'')]"

definition http_strerror_tab :: "(string \<times> string) list" where
  "http_strerror_tab = map snd http_errno_map"

text \<open>The number is a Lua integer cut to 32 bits; the table is guarded by an assertion.\<close>

definition errno_entry :: "64 word \<Rightarrow> (http_error, string \<times> string) res" where
  "errno_entry err = (let i = unat (ucast err :: 32 word) in
     if i < length http_strerror_tab then Inr (http_strerror_tab ! i) else Inl (Raise AssertionFailed))"

definition lhttp_errno_name :: "64 word \<Rightarrow> (http_error, string) res" where
  "lhttp_errno_name err = rbind (errno_entry err) (\<lambda>(name, description). Inr name)"

definition lhttp_errno_description :: "64 word \<Rightarrow> (http_error, string) res" where
  "lhttp_errno_description err = rbind (errno_entry err) (\<lambda>(name, description). Inr description)"

text \<open>Every error has a number of its own, and looking it up finds its entry.\<close>

definition errno_number :: "http_errno \<Rightarrow> nat" where
  "errno_number e = length (takeWhile (\<lambda>x. fst x \<noteq> e) http_errno_map)"

lemma errno_in_map: "e \<in> fst ` set http_errno_map"
  unfolding set_map [symmetric] http_errno_map_def list.map fst_conv by (cases e) simp_all

lemma length_errno_map: "length http_errno_map = 32"
  by (simp add: http_errno_map_def)

lemma errno_entry_number:
  "\<exists>n d. (e, n, d) \<in> set http_errno_map \<and> errno_entry (of_nat (errno_number e)) = Inr (n, d)"
proof -
  have lt: "errno_number e < length http_errno_map"
  proof (rule ccontr)
    assume "\<not> errno_number e < length http_errno_map"
    then have "takeWhile (\<lambda>x. fst x \<noteq> e) http_errno_map = http_errno_map"
      using length_takeWhile_le [of "\<lambda>x. fst x \<noteq> e" http_errno_map] takeWhile_eq_take [of "\<lambda>x. fst x \<noteq> e" http_errno_map]
      by (simp add: errno_number_def)
    then show False using errno_in_map [of e] by (auto simp: takeWhile_eq_all_conv)
  qed
  have "fst (http_errno_map ! errno_number e) = e"
    using nth_length_takeWhile [of "\<lambda>x. fst x \<noteq> e" http_errno_map] lt by (simp add: errno_number_def)
  then obtain n d where nd: "http_errno_map ! errno_number e = (e, n, d)" by (cases "http_errno_map ! errno_number e") auto
  then have "(e, n, d) \<in> set http_errno_map" using lt by (metis nth_mem)
  moreover have "errno_entry (of_nat (errno_number e)) = Inr (n, d)"
  proof -
    have small: "errno_number e < 32" using lt by (simp add: length_errno_map)
    have "unat (ucast (of_nat (errno_number e) :: 64 word) :: 32 word) = errno_number e"
      using small by (simp add: unsigned_of_nat take_bit_nat_eq_self)
    then show ?thesis using nd lt by (simp add: errno_entry_def http_strerror_tab_def Let_def)
  qed
  ultimately show ?thesis by blast
qed

lemma errno_out_of_range:
  "32 \<le> unat (ucast err :: 32 word) \<Longrightarrow> lhttp_errno_name err = Inl (Raise AssertionFailed)"
  by (simp add: lhttp_errno_name_def errno_entry_def http_strerror_tab_def length_errno_map)

section \<open>Totality\<close>

lemma execute_in_use:
  assumes "in_use strict cb q"
  shows "\<exists>n q' u'. http_parser_execute strict cb q data u = Inr (n, q', u') \<and> n \<le> max 1 (length data) \<and>
    in_use strict cb q'"
proof -
  from execute_total [OF in_use_ok [OF assms], of strict cb data u] obtain n q' u'
    where "http_parser_execute strict cb q data u = Inr (n, q', u')" "n \<le> max 1 (length data)" by blast
  then show ?thesis using in_use.execute [OF assms] by blast
qed

lemma lparser_execute_cases:
  assumes "in_use strict settings q" and "unat from \<le> length data"
  shows "lparser_execute strict q data from t = Inl (Raise ConcatError) \<or>
    (\<exists>n e q' t'. lparser_execute strict q data from t = Inr ((n, e), q', t') \<and> n \<le> max 1 (length data - unat from) \<and>
       in_use strict settings q' \<and> e = (if http_errno q' = HPE_OK then None else Some (http_errno q')) \<and>
       e \<noteq> Some HPE_PAUSED)"
proof -
  from execute_in_use [OF assms(1), of "drop (unat from) data" "Some t"] obtain n q' u'
    where x: "http_parser_execute strict settings q (drop (unat from) data) (Some t) = Inr (n, q', u')"
      "n \<le> max 1 (length data - unat from)" "in_use strict settings q'" by auto
  show ?thesis
  proof (cases u')
    case None
    then show ?thesis using x(1) assms(2) by (simp add: lparser_execute_def)
  next
    case (Some t')
    show ?thesis
    proof (cases "http_errno q' = HPE_PAUSED")
      case True
      then have p: "http_parser_pause False q' = Some (q'\<lparr>http_errno := HPE_OK\<rparr>)"
        by (simp add: http_parser_pause_def)
      then show ?thesis
        using x Some assms(2) in_use.pause [OF x(3) p] True by (simp add: lparser_execute_def)
    next
      case False
      then show ?thesis using x Some assms(2) by (simp add: lparser_execute_def)
    qed
  qed
qed

end
