(* ===== verification/Http_Run.thy ===== *)
theory Http_Run
  imports Http_Message
begin

text \<open>
  Runs of the message parser along a text, from one byte to the next, and the callbacks of the binding in
  such a run.
\<close>

section \<open>Runs of the parser\<close>

text \<open>
  The parser between two bytes. While it is in the head of a message, \<open>nread\<close> is the number of bytes read.
\<close>

definition here :: "http_parser \<Rightarrow> state \<Rightarrow> nat \<Rightarrow> (mark \<Rightarrow> nat option) \<Rightarrow> 'u \<Rightarrow> byte \<Rightarrow> 'u exec" where
  "here q st i mk u b = \<lparr>px = q, p_state = st, p = i, ch = b, marks = mk, user = u\<rparr>"

lemma here_simps [simp]:
  "px (here q st i mk u b) = q" "p_state (here q st i mk u b) = st" "p (here q st i mk u b) = i"
  "ch (here q st i mk u b) = b" "marks (here q st i mk u b) = mk" "user (here q st i mk u b) = u"
  "(here q st i mk u b)\<lparr>px := q'\<rparr> = here q' st i mk u b"
  "(here q st i mk u b)\<lparr>p_state := st'\<rparr> = here q st' i mk u b"
  "(here q st i mk u b)\<lparr>p := i'\<rparr> = here q st i' mk u b"
  "(here q st i mk u b)\<lparr>ch := b'\<rparr> = here q st i mk u b'"
  "(here q st i mk u b)\<lparr>marks := mk'\<rparr> = here q st i mk' u b"
  "(here q st i mk u b)\<lparr>user := u'\<rparr> = here q st i mk u' b"
  by (simp_all add: here_def)

lemma exec_byte_ch: "exec_byte strict cb data (s\<lparr>ch := c\<rparr>) = exec_byte strict cb data s"
  by (simp add: exec_byte_def)

inductive runs :: "bool \<Rightarrow> 'u callbacks \<Rightarrow> bytes \<Rightarrow> 'u exec \<Rightarrow> 'u exec \<Rightarrow> bool" for strict cb data where
  here: "runs strict cb data s s"
| step: "p s < length data \<Longrightarrow> exec_byte strict cb data s = Inr (Break, s1) \<Longrightarrow> p s \<le> p s1 \<Longrightarrow>
    runs strict cb data (s1\<lparr>p := p s1 + 1, ch := 0\<rparr>) s2 \<Longrightarrow> runs strict cb data s s2"

lemma runs_trans: "runs strict cb data s t \<Longrightarrow> runs strict cb data t u \<Longrightarrow> runs strict cb data s u"
  by (induction rule: runs.induct) (auto intro: runs.step)

lemma runs_mono: "runs strict cb data s t \<Longrightarrow> p s \<le> p t"
  by (induction rule: runs.induct) auto

lemma execute_loop_ch: "p s < length data \<Longrightarrow> execute_loop strict cb data n (s\<lparr>ch := c\<rparr>) = execute_loop strict cb data n s"
  by (cases n) (simp_all add: exec_byte_ch)

text \<open>How a call ends that reaches \<open>t\<close>, where the next byte leaves the loop.\<close>

lemma runs_exit:
  "runs strict cb data s t \<Longrightarrow> p t < length data \<Longrightarrow> exec_byte strict cb data t = Inr (f, t') \<Longrightarrow> f \<noteq> Break \<Longrightarrow>
   length data - p s < n \<Longrightarrow> execute_loop strict cb data n s = (if f = Error then error_exit t' else Inr (f, t'))"
proof (induction arbitrary: n rule: runs.induct)
  case (here s)
  then show ?case by (cases n; cases f) simp_all
next
  case (step s s1 s2)
  obtain k where n: "n = Suc k" using step.prems(4) by (cases n) auto
  have "p s1 + 1 \<le> p s2" using runs_mono [OF step.hyps(4)] by simp
  then have "p (s1\<lparr>p := p s1 + 1\<rparr>) < length data" using step.prems(1) by simp
  then have "execute_loop strict cb data k (s1\<lparr>p := p s1 + 1\<rparr>) = execute_loop strict cb data k (s1\<lparr>p := p s1 + 1, ch := 0\<rparr>)"
    using execute_loop_ch [of "s1\<lparr>p := p s1 + 1\<rparr>" data strict cb k 0] by simp
  moreover have "\<dots> = (if f = Error then error_exit t' else Inr (f, t'))"
    using step.prems step.hyps(1,3) n by (intro step.IH) auto
  ultimately show ?case using step.hyps(1,2) n by simp
qed

lemma runs_execute:
  assumes "runs strict cb data (here q (pstate q) 0 (initial_marks (pstate q)) u 0) t" and "p t < length data"
    and "exec_byte strict cb data t = Inr (Return m, t')" and "http_errno q = HPE_OK"
  shows "http_parser_execute strict cb q data u = Inr (m, px t', user t')"
proof -
  have "initial_exec q u = here q (pstate q) 0 (initial_marks (pstate q)) u 0"
    by (simp add: initial_exec_def here_def)
  then have "execute_loop strict cb data (length data + 1) (initial_exec q u) = Inr (Return m, t')"
    using runs_exit [OF assms(1-3), of "length data + 1"] by (simp del: execute_loop.simps)
  moreover have "data \<noteq> []" using assms(2) by auto
  ultimately show ?thesis using assms(4) by (simp add: http_parser_execute_def del: execute_loop.simps)
qed

text \<open>
  In the head of a message each byte is counted: \<open>k\<close> is the number of bytes so far.
\<close>

abbreviation (input) head_limit :: nat where "head_limit \<equiv> 80 * 1024"

abbreviation nomarks :: "mark \<Rightarrow> nat option" where "nomarks \<equiv> (\<lambda>_. None)"

definition counted :: "http_parser \<Rightarrow> nat \<Rightarrow> http_parser" where
  "counted q k = q\<lparr>nread := k\<rparr>"

lemma counted_simps [simp]:
  "parser_type (counted q k) = parser_type q" "flags (counted q k) = flags q" "pstate (counted q k) = pstate q"
  "header_state (counted q k) = header_state q" "index (counted q k) = index q" "nread (counted q k) = k"
  "content_length (counted q k) = content_length q" "http_major (counted q k) = http_major q"
  "http_minor (counted q k) = http_minor q" "status_code (counted q k) = status_code q"
  "method (counted q k) = method q" "http_errno (counted q k) = http_errno q" "upgrade (counted q k) = upgrade q"
  by (simp_all add: counted_def)

lemma counted_update [simp]:
  "(counted q k)\<lparr>parser_type := t\<rparr> = counted (q\<lparr>parser_type := t\<rparr>) k"
  "(counted q k)\<lparr>flags := f\<rparr> = counted (q\<lparr>flags := f\<rparr>) k"
  "(counted q k)\<lparr>pstate := st\<rparr> = counted (q\<lparr>pstate := st\<rparr>) k"
  "(counted q k)\<lparr>header_state := h\<rparr> = counted (q\<lparr>header_state := h\<rparr>) k"
  "(counted q k)\<lparr>index := n\<rparr> = counted (q\<lparr>index := n\<rparr>) k"
  "(counted q k)\<lparr>nread := n\<rparr> = counted q n"
  "(counted q k)\<lparr>content_length := n\<rparr> = counted (q\<lparr>content_length := n\<rparr>) k"
  "(counted q k)\<lparr>http_major := n\<rparr> = counted (q\<lparr>http_major := n\<rparr>) k"
  "(counted q k)\<lparr>http_minor := n\<rparr> = counted (q\<lparr>http_minor := n\<rparr>) k"
  "(counted q k)\<lparr>status_code := n\<rparr> = counted (q\<lparr>status_code := n\<rparr>) k"
  "(counted q k)\<lparr>method := m\<rparr> = counted (q\<lparr>method := m\<rparr>) k"
  "(counted q k)\<lparr>http_errno := e\<rparr> = counted (q\<lparr>http_errno := e\<rparr>) k"
  "(counted q k)\<lparr>upgrade := b\<rparr> = counted (q\<lparr>upgrade := b\<rparr>) k"
  by (simp_all add: counted_def)

definition at :: "http_parser \<Rightarrow> nat \<Rightarrow> state \<Rightarrow> nat \<Rightarrow> (mark \<Rightarrow> nat option) \<Rightarrow> 'u \<Rightarrow> 'u exec" where
  "at q k st i mk u = here (counted q k) st i mk u 0"

lemma exec_byte_head:
  assumes "k < head_limit" and "PARSING_HEADER st"
  shows "exec_byte strict cb data (at q k st i mk u) =
    reexecute strict cb data REEXECUTIONS (here (counted q (k + 1)) st i mk u (data ! i))"
proof -
  have "(k + 1) mod 2 ^ 32 = k + 1" using assms(1) by simp
  then show ?thesis
    using assms by (simp add: exec_byte_def COUNT_HEADER_SIZE_def upd_def Let_def at_def del: reexecute.simps)
qed

lemma reexecute_now:
  "exec_switch strict cb data s = Inr (f, s') \<Longrightarrow> f \<noteq> Reexecute \<Longrightarrow> reexecute strict cb data (Suc n) s = Inr (f, s')"
  by simp

lemma reexecute_again:
  "exec_switch strict cb data s = Inr (Reexecute, s') \<Longrightarrow>
   reexecute strict cb data (Suc n) s = reexecute strict cb data n s'"
  by simp

lemma head_step:
  assumes "drop i data = c # rest" and "k < head_limit" and "PARSING_HEADER st"
    and "exec_switch strict cb data (here (counted q (k + 1)) st i mk u c) = Inr (Break, here (counted q' k') st' i' mk' u' b)"
    and "i \<le> i'"
  shows "runs strict cb data (at q k st i mk u) (at q' k' st' (i' + 1) mk' u')"
proof -
  have i: "i < length data" "data ! i = c"
    using assms(1) by (metis drop_all leI list.discI, simp add: nth_via_drop)
  have "exec_byte strict cb data (at q k st i mk u) = Inr (Break, here (counted q' k') st' i' mk' u' b)"
    using exec_byte_head [OF assms(2,3), of strict cb data q i mk u] reexecute_now [OF assms(4), of 7] i(2)
    by (simp del: reexecute.simps)
  from runs.step [OF _ this] show ?thesis using i(1) assms(5) by (simp add: at_def runs.here)
qed

lemma drop_at: "drop i data = cs @ rest \<Longrightarrow> drop (i + length cs) data = rest"
  by (metis add.commute append_eq_conv_conj drop_drop)

lemma drop_Cons: "drop i data = c # rest \<Longrightarrow> drop (Suc i) data = rest \<and> i < length data \<and> data ! i = c"
  by (metis drop_all leI list.discI nth_via_drop drop_Suc tl_drop list.sel(3))

lemma head_steps:
  assumes "drop i data = c # rest" and "k < head_limit" and "PARSING_HEADER st"
    and "exec_switch strict cb data (here (counted q (k + 1)) st i mk u c) = Inr (Break, here (counted q' (k + 1)) st' i mk' u' b)"
    and "drop (i + 1) data = rest \<Longrightarrow> runs strict cb data (at q' (k + 1) st' (i + 1) mk' u') z"
  shows "runs strict cb data (at q k st i mk u) z"
  using head_step [OF assms(1-4)] assms(5) drop_Cons [OF assms(1)] by (auto intro: runs_trans)

lemmas step_simps = BREAK_def UPDATE_STATE_def upd_def set_index_def set_header_state_def set_flag_def Let_def
  MARK_def goto_error_def STRICT_CHECK_def REEXECUTE_def

section \<open>Callbacks of a run\<close>

lemma on_part:
  assumes "http_errno q = HPE_OK" and "j \<le> e" and "e \<le> length data"
  shows "CALLBACK_DATA_ER settings data M_url e er (here q st i (nomarks(M_url := Some j)) (Some t) b) f =
      f (here (q\<lparr>pstate := st\<rparr>) st i nomarks (Some (on_url (take (e - j) (drop j data)) t)) b)"
    and "CALLBACK_DATA_ER settings data M_status e er (here q st i (nomarks(M_status := Some j)) (Some t) b) f =
      f (here (q\<lparr>pstate := st\<rparr>) st i nomarks (Some (on_status (take (e - j) (drop j data)) t)) b)"
    and "CALLBACK_DATA_ER settings data M_header_field e er (here q st i (nomarks(M_header_field := Some j)) (Some t) b) f =
      f (here (q\<lparr>pstate := st\<rparr>) st i nomarks (Some (on_header_field (take (e - j) (drop j data)) t)) b)"
    and "CALLBACK_DATA_ER settings data M_body e er (here q st i (nomarks(M_body := Some j)) (Some t) b) f =
      f (here (q\<lparr>pstate := st\<rparr>) st i nomarks (Some (on_body (take (e - j) (drop j data)) t)) b)"
    and "on_header_value (take (e - j) (drop j data)) t = Some t' \<Longrightarrow>
      CALLBACK_DATA_ER settings data M_header_value e er (here q st i (nomarks(M_header_value := Some j)) (Some t) b) f =
      f (here (q\<lparr>pstate := st\<rparr>) st i nomarks (Some t') b)"
  using assms
  by (simp_all add: CALLBACK_DATA_ER_def CALLBACK_NOTIFY_ER_def check_def invoke_cb_def settings_def upd_def Let_def fun_upd_idem)

lemma on_notify:
  assumes "http_errno q = HPE_OK" and "event_of c (q\<lparr>pstate := st\<rparr>) = Some ev"
    and "dispatch ev t = Some t'" and "\<not> pauses ev t"
  shows "CALLBACK_NOTIFY_ER settings c er (here q st i mk (Some t) b) f =
    f (here (q\<lparr>pstate := st\<rparr>) st i mk (Some t') b)"
  using assms by (simp add: CALLBACK_NOTIFY_ER_def check_def invoke_cb_def settings_def upd_def Let_def)

lemma on_notify_pause:
  assumes "http_errno q = HPE_OK" and "event_of c (q\<lparr>pstate := st\<rparr>) = Some ev"
    and "dispatch ev t = Some t'" and "pauses ev t"
  shows "CALLBACK_NOTIFY_ER settings c er (here q st i mk (Some t) b) f =
    Inr (Return er, here (q\<lparr>pstate := st, http_errno := HPE_PAUSED\<rparr>) st i mk (Some t') b)"
  using assms by (simp add: CALLBACK_NOTIFY_ER_def check_def invoke_cb_def settings_def upd_def Let_def SET_ERRNO_def)

end
