(* ===== verification/Http_Lines.thy ===== *)
theory Http_Lines
  imports Http_Run
begin

text \<open>
  The first line of a message: the methods, targets and versions of request lines, and status lines.
\<close>

section \<open>Methods\<close>

text \<open>The method the parser has after the letters \<open>cs\<close>, when it has \<open>m\<close> after \<open>i\<close> letters.\<close>

fun scan_method :: "http_method \<Rightarrow> nat \<Rightarrow> bytes \<Rightarrow> http_method option" where
  "scan_method m i [] = Some m"
| "scan_method m i (c # cs) = (if c = 0 then None else case matcher_at (method_strings m) i of
     None \<Rightarrow> None
   | Some d \<Rightarrow> if c = d then scan_method m (i + 1) cs else
       (case other_method m i c of None \<Rightarrow> None | Some m' \<Rightarrow> scan_method m' (i + 1) cs))"

definition method_text :: "http_method \<Rightarrow> bytes" where
  "method_text m = ascii (method_strings m)"

lemma scan_method_text:
  "method_text m \<noteq> [] \<and> (\<exists>f. first_method (hd (method_text m)) = Some f \<and> scan_method f 1 (tl (method_text m)) = Some m)"
  by (cases m; simp add: method_text_def ascii_def first_method_def matcher_at_def other_method_def chr_def char_byte_def)

lemma method_letters: "c \<in> set (method_text m) \<Longrightarrow> c \<noteq> 0 \<and> c \<noteq> 32"
  by (cases m; simp add: method_text_def ascii_def; elim disjE; simp)

lemma method_length: "length (method_strings m) < 255"
  by (cases m; simp)

lemma other_method_prefix:
  "other_method m i c = Some m' \<Longrightarrow> i < length (method_strings m') \<and> take i (method_strings m) = take i (method_strings m') \<and>
     chr (method_strings m' ! i) = c"
  by (simp add: other_method_def split: if_splits; elim conjE disjE; simp)

lemma run_method:
  "drop i data = cs @ rest \<Longrightarrow> k + length cs \<le> head_limit \<Longrightarrow> scan_method (method q) (index q) cs = Some m \<Longrightarrow>
   index q + length cs < 256 \<Longrightarrow> 32 \<notin> set cs \<Longrightarrow>
   runs strict cb data (at q k s_req_method i mk u)
     (at (q\<lparr>method := m, index := index q + length cs\<rparr>) (k + length cs) s_req_method (i + length cs) mk u)"
proof (induction cs arbitrary: q k i)
  case Nil
  then show ?case by (auto intro: runs.here)
next
  case (Cons c cs)
  obtain d where d: "matcher_at (method_strings (method q)) (index q) = Some d" using Cons.prems(3) by (auto split: option.splits if_splits)
  obtain m' where m': "scan_method m' (index q + 1) cs = Some m"
      "c = d \<and> m' = method q \<or> c \<noteq> d \<and> other_method (method q) (index q) c = Some m'"
    using Cons.prems(3) d by (auto split: if_splits option.splits)
  let ?q = "q\<lparr>method := m', index := index q + 1\<rparr>"
  have c: "c \<noteq> 0" "c \<noteq> 32" using Cons.prems(3,5) by (auto split: if_splits)
  have "q\<lparr>index := index q + 1\<rparr> = ?q" if "m' = method q" using that by simp
  then have "exec_switch strict cb data (here (counted q (k + 1)) s_req_method i mk u c) =
      Inr (Break, here (counted ?q (k + 1)) s_req_method i mk u c)"
    using m'(2) d c Cons.prems(4) by (auto simp: exec_switch_def exec_req_method_def step_simps)
  moreover have i: "drop i data = c # (cs @ rest)" using Cons.prems(1) by simp
  ultimately have "runs strict cb data (at q k s_req_method i mk u) (at ?q (k + 1) s_req_method (i + 1) mk u)"
    using Cons.prems(2) by (intro head_step) (auto simp: PARSING_HEADER_def)
  moreover have "runs strict cb data (at ?q (k + 1) s_req_method (i + 1) mk u)
      (at (?q\<lparr>method := m, index := index ?q + length cs\<rparr>) (k + 1 + length cs) s_req_method (i + 1 + length cs) mk u)"
    using Cons.prems drop_Cons [OF i] m'(1) by (intro Cons.IH) auto
  ultimately show ?case by (auto dest: runs_trans)
qed

section \<open>Request lines\<close>

definition target_states :: "state set" where
  "target_states = {s_req_server, s_req_server_with_at, s_req_path, s_req_query_string_start, s_req_query_string,
     s_req_fragment_start, s_req_fragment}"

lemma url_char_cases:
  assumes "parse_url_char strict st c \<noteq> s_dead"
  shows "parse_url_char strict st c \<in> url_states \<and> c \<noteq> 32 \<and> c \<noteq> 13 \<and> c \<noteq> 10"
  using parse_url_char_range [of strict st c] assms by (auto simp: parse_url_char_def)

lemma url_dead: "foldl (parse_url_char strict) s_dead cs = s_dead"
  by (induction cs) (simp_all add: parse_url_char_def)

lemma url_byte_switch:
  assumes "parse_url_char strict st c \<noteq> s_dead" and "st \<in> url_states"
  shows "exec_switch strict settings data (here q st i mk u c) = Inr (Break, here q (parse_url_char strict st c) i mk u c)"
  using assms(1) assms(2) [unfolded url_states_def] url_char_cases [OF assms(1)]
  by (elim insertE emptyE) (simp_all add: exec_switch_def exec_url_def url_char_def step_simps)

lemma url_head: "st \<in> url_states \<Longrightarrow> PARSING_HEADER st"
  by (auto simp: url_states_def PARSING_HEADER_def)

lemma run_url:
  "drop i data = cs @ rest \<Longrightarrow> k + length cs \<le> head_limit \<Longrightarrow> st \<in> url_states \<Longrightarrow>
   foldl (parse_url_char strict) st cs \<noteq> s_dead \<Longrightarrow>
   runs strict settings data (at q k st i mk u)
     (at q (k + length cs) (foldl (parse_url_char strict) st cs) (i + length cs) mk u)"
proof (induction cs arbitrary: i k st)
  case Nil
  then show ?case by (auto intro: runs.here)
next
  case (Cons c cs)
  let ?st = "parse_url_char strict st c"
  have alive: "?st \<noteq> s_dead" using Cons.prems(4) url_dead by auto
  have i: "drop i data = c # (cs @ rest)" using Cons.prems(1) by simp
  have "runs strict settings data (at q k st i mk u) (at q (k + 1) ?st (i + 1) mk u)"
    using Cons.prems(2) head_step [OF i _ url_head [OF Cons.prems(3)] url_byte_switch [OF alive Cons.prems(3)]] by simp
  moreover have "runs strict settings data (at q (k + 1) ?st (i + 1) mk u)
      (at q (k + 1 + length cs) (foldl (parse_url_char strict) ?st cs) (i + 1 + length cs) mk u)"
    using Cons.prems drop_Cons [OF i] url_char_cases [OF alive] by (intro Cons.IH) auto
  ultimately show ?case by (auto dest: runs_trans)
qed

text \<open>The URLs a request line may have: the parser is in a state that allows a space to follow.\<close>

definition url_start :: "http_method \<Rightarrow> state" where
  "url_start m = (if m = HTTP_CONNECT then s_req_server_start else s_req_spaces_before_url)"

definition url_ok :: "bool \<Rightarrow> http_method \<Rightarrow> bytes \<Rightarrow> bool" where
  "url_ok strict m url \<longleftrightarrow> foldl (parse_url_char strict) (url_start m) url \<in> target_states"

lemma url_ok_Cons:
  assumes "url_ok strict m url"
  obtains c cs where "url = c # cs" and "parse_url_char strict (url_start m) c \<noteq> s_dead"
proof (cases url)
  case Nil
  then show ?thesis using assms by (auto simp: url_ok_def url_start_def target_states_def split: if_splits)
next
  case (Cons c cs)
  have "parse_url_char strict (url_start m) c \<noteq> s_dead"
    using assms Cons url_dead [of strict cs] by (auto simp: url_ok_def target_states_def)
  then show ?thesis using that Cons by blast
qed

lemma run_request_url:
  assumes "drop i data = url @ 32 # rest" and "k + length url + 1 \<le> head_limit" and "url_ok strict (method q) url"
    and "http_errno q = HPE_OK"
  shows "runs strict settings data (at q k s_req_spaces_before_url i nomarks (Some t))
     (at (q\<lparr>pstate := s_req_http_start\<rparr>) (k + length url + 1) s_req_http_start (i + length url + 1) nomarks (Some (on_url url t)))"
proof -
  obtain c cs where url: "url = c # cs" and alive: "parse_url_char strict (url_start (method q)) c \<noteq> s_dead"
    using url_ok_Cons [OF assms(3)] by blast
  let ?st = "parse_url_char strict (url_start (method q)) c"
  let ?final = "foldl (parse_url_char strict) ?st cs"
  let ?mk = "nomarks(M_url := Some i)"
  have i: "drop i data = c # (cs @ 32 # rest)" using assms(1) url by simp
  have E: "exec_switch strict settings data (here (counted q (k + 1)) s_req_spaces_before_url i nomarks (Some t) c) =
      Inr (Break, here (counted q (k + 1)) ?st i ?mk (Some t) c)"
    using alive url_char_cases [OF alive] by (auto simp: exec_switch_def exec_url_def url_char_def url_start_def step_simps split: if_splits)
  have first: "runs strict settings data (at q k s_req_spaces_before_url i nomarks (Some t)) (at q (k + 1) ?st (i + 1) ?mk (Some t))"
    by (rule head_step [OF i _ _ E]) (use assms(2) in \<open>simp_all add: PARSING_HEADER_def\<close>)
  have target: "?final \<in> target_states" using assms(3) url by (simp add: url_ok_def)
  then have "runs strict settings data (at q (k + 1) ?st (i + 1) ?mk (Some t))
      (at q (k + 1 + length cs) ?final (i + 1 + length cs) ?mk (Some t))"
    using url assms(2) drop_Cons [OF i] url_char_cases [OF alive]
    by (intro run_url) (auto simp: target_states_def)
  moreover
  have j: "drop (i + length url) data = 32 # rest" using drop_at [OF assms(1)] .
  have taken: "take (length url) (drop i data) = url" using assms(1) by simp
  have L: "exec_switch strict settings data (here (counted q (k + length url + 1)) ?final (i + length url) ?mk (Some t) 32) =
      Inr (Break, here (counted (q\<lparr>pstate := s_req_http_start\<rparr>) (k + length url + 1)) s_req_http_start (i + length url) nomarks
        (Some (on_url url t)) 32)"
    using target [unfolded target_states_def] assms(4) drop_Cons [OF j] taken
    by (elim insertE emptyE)
      (simp_all add: exec_switch_def exec_url_def step_simps CALLBACK_DATA_def on_part)
  have "runs strict settings data (at q (k + length url) ?final (i + length url) ?mk (Some t))
      (at (q\<lparr>pstate := s_req_http_start\<rparr>) (k + length url + 1) s_req_http_start (i + length url + 1) nomarks (Some (on_url url t)))"
    by (rule head_step [OF j _ _ L]) (use assms(2) target in \<open>auto simp: PARSING_HEADER_def target_states_def\<close>)
  ultimately show ?thesis using first url by (auto dest: runs_trans)
qed

lemma version_switch:
  "exec_switch strict cb data (here q s_req_http_start i mk u 72) = Inr (Break, here q s_req_http_H i mk u 72)"
  "exec_switch strict cb data (here q s_req_http_H i mk u 84) = Inr (Break, here q s_req_http_HT i mk u 84)"
  "exec_switch strict cb data (here q s_req_http_HT i mk u 84) = Inr (Break, here q s_req_http_HTT i mk u 84)"
  "exec_switch strict cb data (here q s_req_http_HTT i mk u 80) = Inr (Break, here q s_req_http_HTTP i mk u 80)"
  "exec_switch strict cb data (here q s_req_http_HTTP i mk u 47) = Inr (Break, here q s_req_first_http_major i mk u 47)"
  "exec_switch strict cb data (here q s_req_http_major i mk u 46) = Inr (Break, here q s_req_first_http_minor i mk u 46)"
  "exec_switch strict cb data (here q s_req_http_minor i mk u 13) = Inr (Break, here q s_req_line_almost_done i mk u 13)"
  "exec_switch strict cb data (here q s_req_line_almost_done i mk u 10) = Inr (Break, here q s_header_field_start i mk u 10)"
  by (simp_all add: exec_switch_def exec_req_version_def step_simps chr_def char_byte_def)

definition digit_char :: "nat \<Rightarrow> byte" where
  "digit_char d = of_nat (48 + d)"

lemma digit_char_value:
  assumes "d < 10"
  shows "IS_NUM (digit_char d) \<and> digit (digit_char d) = d \<and> (digit_char d = 48 \<longleftrightarrow> d = 0)"
proof -
  have "d \<in> {0, 1, 2, 3, 4, 5, 6, 7, 8, 9}" using assms by auto
  then show ?thesis by (elim insertE emptyE) (simp_all add: digit_char_def IS_NUM_def digit_def char_codes)
qed

lemma version_digits:
  "0 < d \<Longrightarrow> d < 10 \<Longrightarrow> exec_switch strict cb data (here (counted q k) s_req_first_http_major i mk u (digit_char d)) =
    Inr (Break, here (counted (q\<lparr>http_major := d\<rparr>) k) s_req_http_major i mk u (digit_char d))"
  "d < 10 \<Longrightarrow> exec_switch strict cb data (here (counted q k) s_req_first_http_minor i mk u (digit_char d)) =
    Inr (Break, here (counted (q\<lparr>http_minor := d\<rparr>) k) s_req_http_minor i mk u (digit_char d))"
  using digit_char_value [of d] by (simp_all add: exec_switch_def exec_req_version_def step_simps chr_def char_byte_def)

definition version_text :: "nat \<Rightarrow> nat \<Rightarrow> bytes" where
  "version_text major minor = [72, 84, 84, 80, 47, digit_char major, 46, digit_char minor]"

lemma run_version:
  assumes "drop i data = version_text major minor @ [13, 10] @ rest" and "k + 10 \<le> head_limit"
    and "0 < major" and "major < 10" and "minor < 10"
  shows "runs strict cb data (at q k s_req_http_start i mk u)
     (at (q\<lparr>http_major := major, http_minor := minor\<rparr>) (k + 10) s_header_field_start (i + 10) mk u)"
proof -
  note steps = version_switch [THEN head_steps [rotated 3], rotated]
    version_digits(1) [OF assms(3,4), THEN head_steps [rotated 3], rotated]
    version_digits(2) [OF assms(5), THEN head_steps [rotated 3], rotated]
  have ten: "n + 10 = Suc (Suc (Suc (Suc (Suc (Suc (Suc (Suc (Suc (Suc n)))))))))" for n by simp
  show ?thesis
    unfolding ten using assms(1) [unfolded version_text_def append.simps] assms(2)
    by - ((erule steps, simp, simp add: PARSING_HEADER_def)+, simp add: runs.here)
qed

lemma method_space:
  assumes "index q = length (method_strings (method q))"
  shows "exec_switch strict cb data (here q s_req_method i mk u 32) =
    Inr (Break, here (q\<lparr>index := length (method_strings (method q)) + 1\<rparr>) s_req_spaces_before_url i mk u 32)"
  using method_length [of "method q"] assms
  by (simp add: exec_switch_def exec_req_method_def matcher_at_def step_simps)

lemma first_method_text:
  assumes "first_method c = Some f"
  shows "take 1 (method_text f) = [c] \<and> c \<noteq> 13 \<and> c \<noteq> 10 \<and> IS_ALPHA c"
  using assms
  by (simp add: first_method_def split: if_splits)
    (simp_all add: method_text_def ascii_def chr_def char_byte_def IS_ALPHA_def LOWER_def)

lemma method_start:
  assumes "drop i data = c # rest" and "k < head_limit" and "http_errno q = HPE_OK" and "first_method c = Some f"
  shows "runs strict settings data (at q k s_start_req i nomarks (Some t))
    (at (q\<lparr>flags := \<lambda>_. False, content_length := ULLONG_MAX, method := f, index := 1, pstate := s_req_method\<rparr>)
      (k + 1) s_req_method (i + 1) nomarks (Some (on_message_begin t)))"
proof -
  have c: "c \<noteq> 13" "c \<noteq> 10" "IS_ALPHA c" using first_method_text [OF assms(4)] by simp_all
  have "exec_switch strict settings data (here (counted q (k + 1)) s_start_req i nomarks (Some t) c) =
      Inr (Break, here (counted (q\<lparr>flags := \<lambda>_. False, content_length := ULLONG_MAX, method := f, index := 1, pstate := s_req_method\<rparr>) (k + 1))
        s_req_method i nomarks (Some (on_message_begin t)) c)"
    using c assms(3,4)
    by (simp add: exec_switch_def exec_start_req_def new_parser_fields_def step_simps CALLBACK_NOTIFY_def
        on_notify [where t' = "on_message_begin t"])
  from head_step [OF assms(1,2) _ this] show ?thesis by (simp add: PARSING_HEADER_def)
qed

lemma run_request_start:
  assumes "drop i data = method_text m @ 32 # rest" and "k + length (method_text m) + 1 \<le> head_limit"
    and "http_errno q = HPE_OK"
  shows "runs strict settings data (at q k s_start_req i nomarks (Some t))
     (at (q\<lparr>flags := \<lambda>_. False, content_length := ULLONG_MAX, pstate := s_req_method, method := m,
         index := length (method_text m) + 1\<rparr>)
       (k + length (method_text m) + 1) s_req_spaces_before_url (i + length (method_text m) + 1) nomarks
       (Some (on_message_begin t)))"
proof -
  obtain c cs f where m: "method_text m = c # cs" "first_method c = Some f" "scan_method f 1 cs = Some m"
    using scan_method_text [of m] by (cases "method_text m") auto
  let ?q0 = "q\<lparr>flags := \<lambda>_. False, content_length := ULLONG_MAX, method := f, index := 1, pstate := s_req_method\<rparr>"
  let ?q1 = "?q0\<lparr>method := m, index := index ?q0 + length cs\<rparr>"
  let ?t = "on_message_begin t"
  have i: "drop i data = c # cs @ 32 # rest" using assms(1) m(1) by simp
  have "runs strict settings data (at q k s_start_req i nomarks (Some t)) (at ?q0 (k + 1) s_req_method (i + 1) nomarks (Some ?t))"
    using method_start [OF i _ assms(3) m(2)] assms(2) m(1) by simp
  moreover have "runs strict settings data (at ?q0 (k + 1) s_req_method (i + 1) nomarks (Some ?t))
      (at ?q1 (k + 1 + length cs) s_req_method (i + 1 + length cs) nomarks (Some ?t))"
    using drop_Cons [OF i] assms(2) m method_letters [of _ m] method_length [of m]
    by (intro run_method) (auto simp: method_text_def ascii_def)
  moreover
  have j: "drop (i + length (method_text m)) data = 32 # rest" using drop_at [OF assms(1)] .
  have len: "length (method_text m) = length (method_strings m)" by (simp add: method_text_def ascii_def)
  then have "index ?q1 = length (method_strings m)" using m(1) by simp
  then have L: "exec_switch strict settings data (here (counted ?q1 (k + length (method_text m) + 1)) s_req_method
        (i + length (method_text m)) nomarks (Some ?t) 32) =
      Inr (Break, here (counted (?q1\<lparr>index := length (method_text m) + 1\<rparr>) (k + length (method_text m) + 1)) s_req_spaces_before_url
        (i + length (method_text m)) nomarks (Some ?t) 32)"
    using method_space [of "counted ?q1 (k + length (method_text m) + 1)"] by (simp add: len)
  have "runs strict settings data (at ?q1 (k + length (method_text m)) s_req_method (i + length (method_text m)) nomarks (Some ?t))
      (at (?q1\<lparr>index := length (method_text m) + 1\<rparr>) (k + length (method_text m) + 1) s_req_spaces_before_url
        (i + length (method_text m) + 1) nomarks (Some ?t))"
    by (rule head_step [OF j _ _ L]) (use assms(2) in \<open>simp_all add: PARSING_HEADER_def\<close>)
  ultimately show ?thesis
    using m(1) by simp (blast intro: runs_trans)
qed

section \<open>Status lines\<close>

lemma response_switch:
  "exec_switch strict cb data (here q s_res_H i mk u 84) = Inr (Break, here q s_res_HT i mk u 84)"
  "exec_switch strict cb data (here q s_res_HT i mk u 84) = Inr (Break, here q s_res_HTT i mk u 84)"
  "exec_switch strict cb data (here q s_res_HTT i mk u 80) = Inr (Break, here q s_res_HTTP i mk u 80)"
  "exec_switch strict cb data (here q s_res_HTTP i mk u 47) = Inr (Break, here q s_res_first_http_major i mk u 47)"
  "exec_switch strict cb data (here q s_res_http_major i mk u 46) = Inr (Break, here q s_res_first_http_minor i mk u 46)"
  "exec_switch strict cb data (here q s_res_http_minor i mk u 32) = Inr (Break, here q s_res_first_status_code i mk u 32)"
  "exec_switch strict cb data (here q s_res_status_code i mk u 32) = Inr (Break, here q s_res_status_start i mk u 32)"
  "exec_switch strict cb data (here q s_res_line_almost_done i mk u 10) = Inr (Break, here q s_header_field_start i mk u 10)"
  by (simp_all add: exec_switch_def exec_res_version_def exec_res_status_def step_simps chr_def char_byte_def IS_NUM_def)

lemma response_digits:
  "d < 10 \<Longrightarrow> exec_switch strict cb data (here (counted q k) s_res_first_http_major i mk u (digit_char d)) =
    Inr (Break, here (counted (q\<lparr>http_major := d\<rparr>) k) s_res_http_major i mk u (digit_char d))"
  "d < 10 \<Longrightarrow> exec_switch strict cb data (here (counted q k) s_res_first_http_minor i mk u (digit_char d)) =
    Inr (Break, here (counted (q\<lparr>http_minor := d\<rparr>) k) s_res_http_minor i mk u (digit_char d))"
  "d < 10 \<Longrightarrow> exec_switch strict cb data (here (counted q k) s_res_first_status_code i mk u (digit_char d)) =
    Inr (Break, here (counted (q\<lparr>status_code := d\<rparr>) k) s_res_status_code i mk u (digit_char d))"
  using digit_char_value [of d]
  by (simp_all add: exec_switch_def exec_res_version_def exec_res_status_def step_simps chr_def char_byte_def)

lemma status_digit:
  assumes "d < 10" and "c < 100"
  shows "exec_switch strict cb data (here (counted (q\<lparr>status_code := c\<rparr>) k) s_res_status_code i mk u (digit_char d)) =
    Inr (Break, here (counted (q\<lparr>status_code := c * 10 + d\<rparr>) k) s_res_status_code i mk u (digit_char d))"
  using digit_char_value [OF assms(1)] assms
  by (simp add: exec_switch_def exec_res_status_def step_simps chr_def char_byte_def)

definition status_text :: "nat \<Rightarrow> nat \<Rightarrow> nat \<Rightarrow> bytes" where
  "status_text a b c = [digit_char a, digit_char b, digit_char c]"

text \<open>From the second byte of a response to the space before its reason.\<close>

lemma run_status:
  assumes "drop i data = tl (version_text major minor) @ [32] @ status_text a b c @ [32] @ rest" and "k + 12 \<le> head_limit"
    and "major < 10" and "minor < 10" and "a < 10" and "b < 10" and "c < 10"
  shows "runs strict cb data (at q k s_res_H i mk u)
     (at (q\<lparr>http_major := major, http_minor := minor, status_code := (a * 10 + b) * 10 + c\<rparr>) (k + 12) s_res_status_start (i + 12) mk u)"
proof -
  note steps = response_switch [THEN head_steps [rotated 3], rotated]
    response_digits(1) [OF assms(3), THEN head_steps [rotated 3], rotated]
    response_digits(2) [OF assms(4), THEN head_steps [rotated 3], rotated]
    response_digits(3) [OF assms(5), THEN head_steps [rotated 3], rotated]
  have ab: "a < 100" "a * 10 + b < 100" using assms(5,6) by simp_all
  note digits = status_digit [OF assms(6) ab(1), THEN head_steps [rotated 3], rotated]
    status_digit [OF assms(7) ab(2), THEN head_steps [rotated 3], rotated]
  have twelve: "n + 12 = Suc (Suc (Suc (Suc (Suc (Suc (Suc (Suc (Suc (Suc (Suc (Suc n)))))))))))" for n by simp
  show ?thesis
    unfolding twelve using assms(1) [unfolded version_text_def status_text_def append.simps list.sel] assms(2)
    apply -
    apply (erule steps, simp, simp add: PARSING_HEADER_def)+
    apply (erule digits(1), simp, simp add: PARSING_HEADER_def)
    apply (erule digits(2), simp, simp add: PARSING_HEADER_def)
    apply (erule steps, simp, simp add: PARSING_HEADER_def)
    apply (simp add: runs.here)
    done
qed

lemma run_reason_rest:
  "drop i data = v @ rest \<Longrightarrow> k + length v \<le> head_limit \<Longrightarrow> 13 \<notin> set v \<Longrightarrow> 10 \<notin> set v \<Longrightarrow>
   runs strict cb data (at q k s_res_status i mk u) (at q (k + length v) s_res_status (i + length v) mk u)"
proof (induction v arbitrary: i k)
  case Nil
  then show ?case by (auto intro: runs.here)
next
  case (Cons c v)
  have i: "drop i data = c # (v @ rest)" using Cons.prems(1) by simp
  have E: "exec_switch strict cb data (here (counted q (k + 1)) s_res_status i mk u c) =
      Inr (Break, here (counted q (k + 1)) s_res_status i mk u c)"
    using Cons.prems(3,4) by (auto simp: exec_switch_def exec_res_status_def step_simps)
  have "runs strict cb data (at q k s_res_status i mk u) (at q (k + 1) s_res_status (i + 1) mk u)"
    by (rule head_step [OF i _ _ E]) (use Cons.prems(2) in \<open>simp_all add: PARSING_HEADER_def\<close>)
  moreover have "runs strict cb data (at q (k + 1) s_res_status (i + 1) mk u) (at q (k + 1 + length v) s_res_status (i + 1 + length v) mk u)"
    using Cons.prems drop_Cons [OF i] by (intro Cons.IH) auto
  ultimately show ?case by (auto dest: runs_trans)
qed

lemma run_reason:
  assumes "drop i data = v @ 13 # 10 # rest" and "k + length v + 2 \<le> head_limit" and "13 \<notin> set v" and "10 \<notin> set v" and "v \<noteq> []"
    and "http_errno q = HPE_OK"
  shows "runs strict settings data (at q k s_res_status_start i nomarks (Some t))
    (at (q\<lparr>index := 0, pstate := s_res_line_almost_done\<rparr>) (k + length v + 2) s_header_field_start (i + length v + 2) nomarks (Some (on_status v t)))"
proof -
  obtain c cs where v: "v = c # cs" using assms(5) by (cases v) auto
  let ?mk = "nomarks(M_status := Some i)"
  let ?q0 = "q\<lparr>index := 0\<rparr>"
  let ?q1 = "q\<lparr>index := 0, pstate := s_res_line_almost_done\<rparr>"
  have i: "drop i data = c # (cs @ 13 # 10 # rest)" using assms(1) v by simp
  have j: "drop (i + length v) data = 13 # 10 # rest" using drop_at [OF assms(1)] .
  have j1: "drop (i + length v + 1) data = 10 # rest" using drop_Cons [OF j] by simp
  have E0: "exec_switch strict settings data (here (counted q (k + 1)) s_res_status_start i nomarks (Some t) c) =
      Inr (Break, here (counted ?q0 (k + 1)) s_res_status i ?mk (Some t) c)"
    using assms(3,4) v by (auto simp: exec_switch_def exec_res_status_def step_simps)
  have "runs strict settings data (at q k s_res_status_start i nomarks (Some t)) (at ?q0 (k + 1) s_res_status (i + 1) ?mk (Some t))"
    by (rule head_step [OF i _ _ E0]) (use assms(2) in \<open>simp_all add: PARSING_HEADER_def\<close>)
  moreover have "runs strict settings data (at ?q0 (k + 1) s_res_status (i + 1) ?mk (Some t))
      (at ?q0 (k + length v) s_res_status (i + length v) ?mk (Some t))"
    using run_reason_rest [of "i + 1" data cs "13 # 10 # rest" "k + 1" strict settings ?q0 ?mk "Some t"] drop_Cons [OF i] assms(2-4) v by simp
  moreover
  have taken: "take (length v) (drop i data) = v" using assms(1) by simp
  have E1: "exec_switch strict settings data (here (counted ?q0 (k + length v + 1)) s_res_status (i + length v) ?mk (Some t) 13) =
      Inr (Break, here (counted ?q1 (k + length v + 1)) s_res_line_almost_done (i + length v) nomarks (Some (on_status v t)) 13)"
    using assms(6) drop_Cons [OF j] taken by (simp add: exec_switch_def exec_res_status_def step_simps CALLBACK_DATA_def on_part)
  have "runs strict settings data (at ?q0 (k + length v) s_res_status (i + length v) ?mk (Some t))
      (at ?q1 (k + length v + 1) s_res_line_almost_done (i + length v + 1) nomarks (Some (on_status v t)))"
    by (rule head_step [OF j _ _ E1]) (use assms(2) in \<open>simp_all add: PARSING_HEADER_def\<close>)
  moreover have "runs strict settings data (at ?q1 (k + length v + 1) s_res_line_almost_done (i + length v + 1) nomarks (Some (on_status v t)))
      (at ?q1 (k + length v + 2) s_header_field_start (i + length v + 2) nomarks (Some (on_status v t)))"
    using head_step [OF j1 _ _ response_switch(8) [of strict settings data _ _ nomarks "Some (on_status v t)"]] assms(2)
    by (simp add: PARSING_HEADER_def)
  ultimately show ?thesis by (meson runs_trans)
qed

lemma run_response_start:
  assumes "drop i data = 72 # rest" and "k < head_limit" and "http_errno q = HPE_OK"
  shows "runs strict settings data (at q k s_start_res i nomarks (Some t))
    (at (q\<lparr>flags := \<lambda>_. False, content_length := ULLONG_MAX, pstate := s_res_H\<rparr>) (k + 1) s_res_H (i + 1) nomarks (Some (on_message_begin t)))"
proof -
  have "exec_switch strict settings data (here (counted q (k + 1)) s_start_res i nomarks (Some t) 72) =
      Inr (Break, here (counted (q\<lparr>flags := \<lambda>_. False, content_length := ULLONG_MAX, pstate := s_res_H\<rparr>) (k + 1)) s_res_H i nomarks
        (Some (on_message_begin t)) 72)"
    using assms(3) by (simp add: exec_switch_def exec_start_res_def new_parser_fields_def step_simps CALLBACK_NOTIFY_def chr_def char_byte_def
        on_notify [where t' = "on_message_begin t"])
  from head_step [OF assms(1,2) _ this] show ?thesis by (simp add: PARSING_HEADER_def)
qed

end
