(* ===== verification/Http_Headers.thy ===== *)
theory Http_Headers
  imports Http_Run "HOL-Library.Sublist"
begin

text \<open>
  Headers: the parser recognises the five names it cares about, in any mixture of cases, and no others, and
  reads the length, the coding and the connection options their values give.
\<close>

section \<open>Names\<close>

definition header_name :: "bytes \<Rightarrow> bool" where
  "header_name n \<longleftrightarrow> n \<noteq> [] \<and> (\<forall>c \<in> set n. tokens c \<noteq> 0)"

text \<open>What a name, in lower case, means to the parser.\<close>

definition name_kind :: "bytes \<Rightarrow> header_states" where
  "name_kind w =
     (if w = ascii ''connection'' \<or> w = ascii ''proxy-connection'' then h_connection
      else if w = ascii ''content-length'' then h_content_length
      else if w = ascii ''transfer-encoding'' then h_transfer_encoding
      else if w = ascii ''upgrade'' then h_upgrade else h_general)"

definition special_names :: "string list" where
  "special_names = [''connection'', ''proxy-connection'', ''content-length'', ''transfer-encoding'', ''upgrade'']"

lemma special_nth:
  assumes "s \<in> set special_names" and "prefix w (ascii s)" and "w \<noteq> []"
  shows "w ! 0 = chr (s ! 0) \<and> (4 \<le> length w \<longrightarrow> w ! 3 = chr (s ! 3))"
proof -
  have "w ! k = chr (s ! k)" if "k < length w" for k
    using assms(2) that by (auto simp: prefix_def ascii_def chr_def char_byte_def nth_append)
      (metis nth_append nth_map length_map length_append trans_less_add1)
  then show ?thesis using assms(3) by auto
qed

lemma special_unique:
  fixes w :: bytes
  assumes "s \<in> set special_names" and "s' \<in> set special_names"
    and "prefix w (ascii s)" and "prefix w (ascii s')" and "w \<noteq> []" and "w ! 0 = 99 \<Longrightarrow> 4 \<le> length w"
  shows "s = s'"
proof -
  have "chr (s ! 0) = chr (s' ! 0)" and "chr (s ! 0) = 99 \<longrightarrow> chr (s ! 3) = chr (s' ! 3)"
    using special_nth [OF assms(1,3,5)] special_nth [OF assms(2,4,5)] assms(6) by simp_all
  then show ?thesis
    using assms(1,2) unfolding special_names_def list.set
    by (elim insertE emptyE) (simp_all add: chr_def char_byte_def)
qed

text \<open>The parser after the letters \<open>w\<close> of a name.\<close>

definition partway :: "string \<Rightarrow> bytes \<Rightarrow> http_parser \<Rightarrow> bool" where
  "partway s w q \<longleftrightarrow> strict_prefix w (ascii s) \<and> w \<noteq> [] \<and> (w ! 0 = 99 \<longrightarrow> 4 \<le> length w) \<and> index q = length w - 1"

definition follows :: "bytes \<Rightarrow> http_parser \<Rightarrow> bool" where
  "follows w q \<longleftrightarrow> (case header_state q of
     h_general \<Rightarrow> w \<noteq> [] \<and> (\<forall>s \<in> set special_names. \<not> prefix w (ascii s))
   | h_C \<Rightarrow> w = ascii ''c'' \<and> index q = 0
   | h_CO \<Rightarrow> w = ascii ''co'' \<and> index q = 1
   | h_CON \<Rightarrow> w = ascii ''con'' \<and> index q = 2
   | h_matching_connection \<Rightarrow> partway ''connection'' w q
   | h_matching_proxy_connection \<Rightarrow> partway ''proxy-connection'' w q
   | h_matching_content_length \<Rightarrow> partway ''content-length'' w q
   | h_matching_transfer_encoding \<Rightarrow> partway ''transfer-encoding'' w q
   | h_matching_upgrade \<Rightarrow> partway ''upgrade'' w q
   | h_connection \<Rightarrow> w = ascii ''connection'' \<or> w = ascii ''proxy-connection''
   | h_content_length \<Rightarrow> w = ascii ''content-length''
   | h_transfer_encoding \<Rightarrow> w = ascii ''transfer-encoding''
   | h_upgrade \<Rightarrow> w = ascii ''upgrade''
   | _ \<Rightarrow> False)"

lemma matching_step:
  assumes "s \<in> set special_names" and "partway s w q"
  shows "\<exists>h. matching s f c q = Inr (q\<lparr>index := length w, header_state := h\<rparr>) \<and>
    (h = f \<and> w @ [c] = ascii s \<or> h = header_state q \<and> partway s (w @ [c]) (q\<lparr>index := length w\<rparr>) \<or>
     h = h_general \<and> (\<forall>s \<in> set special_names. \<not> prefix (w @ [c]) (ascii s)))"
proof -
  have w: "strict_prefix w (ascii s)" "w \<noteq> []" "w ! 0 = 99 \<Longrightarrow> 4 \<le> length w" "index q = length w - 1"
    using assms(2) by (auto simp: partway_def)
  then obtain d ds where ds: "ascii s = w @ d # ds" by (metis strict_prefixE')
  then have len: "length w < length s" by (metis ascii_def length_map length_append length_Cons add_Suc_right less_add_Suc1)
  have "length s < 256" using assms(1) by (auto simp: special_names_def)
  then have i: "(index q + 1) mod 256 = length w" using w(2,4) len by (cases w) auto
  have at: "matcher_at s (length w) = Some d"
    using ds len by (simp add: matcher_at_def ascii_def chr_def char_byte_def) (metis nth_append_length nth_map)
  have other: "\<forall>s' \<in> set special_names. \<not> prefix (w @ [c]) (ascii s')" if "c \<noteq> d"
  proof safe
    fix s' assume s': "s' \<in> set special_names" and p: "prefix (w @ [c]) (ascii s')"
    have "prefix w (ascii s')" using p by (metis append_prefixD)
    moreover have "prefix w (ascii s)" using ds by simp
    ultimately have "s = s'" using special_unique [OF assms(1) s'] w(2,3) by blast
    then show False using p ds that by (simp add: prefix_def)
  qed
  show ?thesis
  proof (cases "c = d")
    case True
    have last: "length w = length s - 1 \<longleftrightarrow> ds = []"
      using ds len by (metis ascii_def length_map length_append length_Cons diff_Suc_1 add_Suc_right
        length_0_conv add_cancel_left_right Nat.add_0_right)
    have "partway s (w @ [c]) (q\<lparr>index := length w\<rparr>)" if "ds \<noteq> []"
      using that ds True w(2,3) by (auto simp: partway_def strict_prefix_def nth_append)
    moreover have "q\<lparr>index := length w, header_state := header_state q\<rparr> = q\<lparr>index := length w\<rparr>" by (cases q) simp
    ultimately show ?thesis using ds True last len at i
      by (intro exI [of _ "if ds = [] then f else header_state q"]) (auto simp: matching_def match_name_def Let_def)
  next
    case False
    then show ?thesis using other len at i by (auto simp: matching_def match_name_def Let_def)
  qed
qed

lemma follows_counted [simp]: "follows w (counted q k) = follows w q"
  by (simp add: follows_def partway_def split: header_states.split)

lemma longer_name:
  assumes "s \<in> set special_names" and "w = ascii s"
  shows "\<forall>s' \<in> set special_names. \<not> prefix (w @ [c]) (ascii s')"
proof safe
  fix s' assume s': "s' \<in> set special_names" and p: "prefix (w @ [c]) (ascii s')"
  have "prefix w (ascii s')" using p by (metis append_prefixD)
  moreover have "w \<noteq> []" "w ! 0 = 99 \<Longrightarrow> 4 \<le> length w"
    using assms by (auto simp: special_names_def ascii_def)
  ultimately have "s = s'" using special_unique [OF assms(1) s', of w] assms(2) by simp
  then show False using p assms(2) by (metis append_Nil2 prefix_length_le length_append_singleton not_less_eq_eq le_refl)
qed

lemma general_stays: "follows w q \<Longrightarrow> header_state q = h_general \<Longrightarrow> follows (w @ [c]) q"
  by (auto simp: follows_def dest: append_prefixD)

lemma matched:
  assumes "s \<in> set special_names" and "partway s w q" and "header_state q = m"
    and "\<And>q w. header_state q = m \<Longrightarrow> follows w q \<longleftrightarrow> partway s w q"
    and "\<And>q. header_state q = f \<Longrightarrow> follows (ascii s) q"
  shows "\<exists>h i. matching s f c q = Inr (q\<lparr>index := i, header_state := h\<rparr>) \<and>
    follows (w @ [c]) (q\<lparr>index := i, header_state := h\<rparr>)"
proof -
  obtain h where h: "matching s f c q = Inr (q\<lparr>index := length w, header_state := h\<rparr>)"
    "h = f \<and> w @ [c] = ascii s \<or> h = header_state q \<and> partway s (w @ [c]) (q\<lparr>index := length w\<rparr>) \<or>
     h = h_general \<and> (\<forall>s \<in> set special_names. \<not> prefix (w @ [c]) (ascii s))"
    using matching_step [OF assms(1,2)] by blast
  have "follows (w @ [c]) (q\<lparr>index := length w, header_state := h\<rparr>)"
    using h(2)
  proof (elim disjE conjE)
    assume "h = header_state q" and "partway s (w @ [c]) (q\<lparr>index := length w\<rparr>)"
    then show ?thesis using assms(3,4) by (simp add: partway_def)
  qed (use assms(5) in \<open>auto simp: follows_def\<close>)
  then show ?thesis using h(1) by blast
qed

lemma field_char_step:
  assumes "follows w q" and "b \<noteq> 32"
  shows "\<exists>h i. field_char b c q = Inr (q\<lparr>index := i, header_state := h\<rparr>) \<and> follows (w @ [c]) (q\<lparr>index := i, header_state := h\<rparr>)"
proof -
  note m = special_names_def follows_def
  have names: "''connection'' \<in> set special_names" "''proxy-connection'' \<in> set special_names"
    "''content-length'' \<in> set special_names" "''transfer-encoding'' \<in> set special_names" "''upgrade'' \<in> set special_names"
    by (simp_all add: special_names_def)
  have special_longer: "w = ascii s \<Longrightarrow> s \<in> set special_names \<Longrightarrow> s' \<in> set special_names \<Longrightarrow> \<not> prefix (w @ [c]) (ascii s')" for s s'
    using longer_name by blast
  show ?thesis
  proof (cases "header_state q")
    case h_general
    then have "field_char b c q = Inr q" by (simp add: field_char_def)
    moreover have "q\<lparr>index := index q, header_state := header_state q\<rparr> = q" by (cases q) simp
    ultimately show ?thesis using general_stays [OF assms(1) h_general] by metis
  next
    case h_matching_connection
    then show ?thesis using assms(1) matched [of "''connection''" w q h_matching_connection h_connection c] by (simp add: m field_char_def)
  next
    case h_matching_proxy_connection
    then show ?thesis using assms(1) matched [of "''proxy-connection''" w q h_matching_proxy_connection h_connection c] by (simp add: m field_char_def)
  next
    case h_matching_content_length
    then show ?thesis using assms(1) matched [of "''content-length''" w q h_matching_content_length h_content_length c] by (simp add: m field_char_def)
  next
    case h_matching_transfer_encoding
    then show ?thesis using assms(1) matched [of "''transfer-encoding''" w q h_matching_transfer_encoding h_transfer_encoding c] by (simp add: m field_char_def)
  next
    case h_matching_upgrade
    then show ?thesis using assms(1) matched [of "''upgrade''" w q h_matching_upgrade h_upgrade c] by (simp add: m field_char_def)
  next
    case h_C
    then show ?thesis using assms(1)
      by (intro exI [of _ "if c = chr CHR ''o'' then h_CO else h_general"] exI [of _ "1"])
        (simp add: m field_char_def partway_def ascii_def chr_def char_byte_def)
  next
    case h_CO
    then show ?thesis using assms(1)
      by (intro exI [of _ "if c = chr CHR ''n'' then h_CON else h_general"] exI [of _ "2"])
        (simp add: m field_char_def partway_def ascii_def chr_def char_byte_def)
  next
    case h_CON
    then show ?thesis using assms(1)
      by (intro exI [of _ "if c = chr CHR ''n'' then h_matching_connection
          else if c = chr CHR ''t'' then h_matching_content_length else h_general"] exI [of _ "3"])
        (simp add: m field_char_def partway_def ascii_def chr_def char_byte_def strict_prefix_def)
  next
    case h_connection
    then show ?thesis using assms special_longer names
      by (intro exI [of _ h_general] exI [of _ "index q"]) (auto simp: follows_def field_char_def)
  next
    case h_content_length
    then show ?thesis using assms special_longer names
      by (intro exI [of _ h_general] exI [of _ "index q"]) (auto simp: follows_def field_char_def)
  next
    case h_transfer_encoding
    then show ?thesis using assms special_longer names
      by (intro exI [of _ h_general] exI [of _ "index q"]) (auto simp: follows_def field_char_def)
  next
    case h_upgrade
    then show ?thesis using assms special_longer names
      by (intro exI [of _ h_general] exI [of _ "index q"]) (auto simp: follows_def field_char_def)
  qed (use assms(1) in \<open>simp_all add: follows_def\<close>)
qed

lemma token_char: "tokens c \<noteq> 0 \<Longrightarrow> c \<noteq> 32 \<and> c \<noteq> 9 \<and> c \<noteq> 13 \<and> c \<noteq> 10 \<and> c \<noteq> 58 \<and> TOKEN strict c = tokens c"
  by (auto simp: tokens_def TOKEN_def IS_NUM_def char_byte_def)

lemma token_colon: "TOKEN strict 58 = 0"
  by (simp add: tokens_def TOKEN_def IS_NUM_def char_byte_def)

lemma field_loop_name:
  "follows w q \<Longrightarrow> (\<forall>c \<in> set n. tokens c \<noteq> 0) \<Longrightarrow>
   \<exists>h i. field_loop strict (n @ 58 # rest) pos b q = Inr (pos + length n, 58, q\<lparr>index := i, header_state := h\<rparr>) \<and>
     follows (w @ map tokens n) (q\<lparr>index := i, header_state := h\<rparr>)"
proof (induction n arbitrary: w q pos b)
  case Nil
  have same: "q\<lparr>index := index q, header_state := header_state q\<rparr> = q" by (cases q) simp
  show ?case using Nil(1) by (simp add: token_colon) (metis same)
next
  case (Cons c n)
  have c: "tokens c \<noteq> 0" using Cons.prems(2) by simp
  obtain h i where s: "field_char c (tokens c) q = Inr (q\<lparr>index := i, header_state := h\<rparr>)"
      "follows (w @ [tokens c]) (q\<lparr>index := i, header_state := h\<rparr>)"
    using field_char_step [OF Cons.prems(1), of c "tokens c"] token_char [OF c] by blast
  then show ?case
    using Cons.IH [OF s(2), of "pos + 1" c] Cons.prems(2) token_char [OF c, of strict] c by simp
qed

text \<open>The other states of a name count as \<open>h_general\<close> when the value starts.\<close>

fun value_kind :: "header_states \<Rightarrow> header_states" where
  "value_kind h_connection = h_connection"
| "value_kind h_content_length = h_content_length"
| "value_kind h_transfer_encoding = h_transfer_encoding"
| "value_kind h_upgrade = h_upgrade"
| "value_kind h_matching_connection_token_start = h_matching_connection_token_start"
| "value_kind _ = h_general"

lemma partway_kind: "s \<in> set special_names \<Longrightarrow> partway s w q \<Longrightarrow> name_kind w = h_general"
proof -
  assume s: "s \<in> set special_names" and p: "partway s w q"
  have "w \<noteq> ascii s'" if "s' \<in> set special_names" for s'
    using special_unique [OF s that, of w] p by (auto simp: partway_def strict_prefix_def)
  then show ?thesis by (simp add: name_kind_def special_names_def)
qed

lemma kind_of_names:
  "name_kind (ascii ''c'') = h_general" "name_kind (ascii ''co'') = h_general" "name_kind (ascii ''con'') = h_general"
  "name_kind (ascii ''connection'') = h_connection" "name_kind (ascii ''proxy-connection'') = h_connection"
  "name_kind (ascii ''content-length'') = h_content_length"
  "name_kind (ascii ''transfer-encoding'') = h_transfer_encoding" "name_kind (ascii ''upgrade'') = h_upgrade"
  by (simp_all add: name_kind_def ascii_def)

lemma follows_kind:
  assumes "follows w q"
  shows "name_kind w = value_kind (header_state q)"
proof -
  have "name_kind w = h_general" if "\<forall>s \<in> set special_names. \<not> prefix w (ascii s)"
    using that by (auto simp: name_kind_def special_names_def)
  moreover have "name_kind w = h_general" if "partway s w q" and "s \<in> set special_names" for s
    using partway_kind that by blast
  note this [of "''connection''"] this [of "''proxy-connection''"] this [of "''content-length''"]
    this [of "''transfer-encoding''"] this [of "''upgrade''"]
  moreover have "''connection'' \<in> set special_names" "''proxy-connection'' \<in> set special_names"
    "''content-length'' \<in> set special_names" "''transfer-encoding'' \<in> set special_names" "''upgrade'' \<in> set special_names"
    by (simp_all add: special_names_def)
  ultimately show ?thesis using assms unfolding follows_def by (cases "header_state q") (simp_all, auto simp: kind_of_names)
qed

lemma first_letter_follows:
  "follows [c] (q\<lparr>index := 0, header_state := first_header_state c\<rparr>)"
  by (simp add: follows_def first_header_state_def partway_def special_names_def ascii_def chr_def char_byte_def strict_prefix_def)

lemma run_name:
  assumes "drop i data = n @ 58 # rest" and "k + length n + 1 \<le> head_limit" and "header_name n" and "http_errno q = HPE_OK"
  shows "\<exists>q'. runs strict settings data (at q k s_header_field_start i nomarks (Some t))
      (at q' (k + length n + 1) s_header_value_discard_ws (i + length n + 1) nomarks (Some (on_header_field n t))) \<and>
    value_kind (header_state q') = name_kind (map tokens n) \<and>
    (\<exists>h x st. q' = q\<lparr>index := x, header_state := h, pstate := st\<rparr>)"
proof -
  obtain c m where n: "n = c # m" and c: "tokens c \<noteq> 0" and m: "\<forall>c \<in> set m. tokens c \<noteq> 0"
    using assms(3) by (cases n) (auto simp: header_name_def)
  let ?q0 = "q\<lparr>index := 0, header_state := first_header_state (tokens c)\<rparr>"
  let ?mk = "nomarks(M_header_field := Some i)"
  have i: "drop i data = c # (m @ 58 # rest)" using assms(1) n by simp
  note d = drop_Cons [OF i]
  have E: "exec_switch strict settings data (here (counted q (k + 1)) s_header_field_start i nomarks (Some t) c) =
      Inr (Break, here (counted ?q0 (k + 1)) s_header_field i ?mk (Some t) c)"
    using token_char [OF c] c by (simp add: exec_switch_def exec_header_field_start_def step_simps)
  have "runs strict settings data (at q k s_header_field_start i nomarks (Some t)) (at ?q0 (k + 1) s_header_field (i + 1) ?mk (Some t))"
    by (rule head_step [OF i _ _ E]) (use assms(2) n in \<open>simp_all add: PARSING_HEADER_def\<close>)
  moreover
  obtain b ms where b: "m @ 58 # rest = b # ms" by (cases m) auto
  let ?p = "i + 1 + length m"
  obtain h x where l: "field_loop strict (m @ 58 # rest) (i + 1) b (counted ?q0 (k + 2)) =
      Inr (?p, 58, (counted ?q0 (k + 2))\<lparr>index := x, header_state := h\<rparr>)"
      "follows ([tokens c] @ map tokens m) ((counted ?q0 (k + 2))\<lparr>index := x, header_state := h\<rparr>)"
    using field_loop_name [OF _ m, of "[tokens c]" "counted ?q0 (k + 2)" strict rest "i + 1" b] first_letter_follows [of "tokens c"]
    by auto
  let ?q1 = "?q0\<lparr>index := x, header_state := h, pstate := s_header_value_discard_ws\<rparr>"
  have taken: "take (length n) (drop i data) = n" using assms(1) by simp
  have p: "?p < length data" using drop_Cons [OF drop_at [OF assms(1)]] n by simp
  have "(k + 2 + length m) mod 4294967296 = k + 2 + length m" using assms(2) n by simp
  then have E: "exec_switch strict settings data (here (counted ?q0 (k + 1 + 1)) s_header_field (i + 1) ?mk (Some t) b) =
      Inr (Break, here (counted ?q1 (k + length n + 1)) s_header_value_discard_ws ?p nomarks (Some (on_header_field n t)) 58)"
    using l(1) d p assms(2,4) n taken
    by (simp add: exec_switch_def exec_header_field_def COUNT_HEADER_SIZE_def step_simps chr_def char_byte_def CALLBACK_DATA_def on_part)
  have "drop (i + 1) data = b # ms" using d b by simp
  from head_step [OF this _ _ E] have "runs strict settings data (at ?q0 (k + 1) s_header_field (i + 1) ?mk (Some t))
      (at ?q1 (k + length n + 1) s_header_value_discard_ws (i + length n + 1) nomarks (Some (on_header_field n t)))"
    using assms(2) n by (simp add: PARSING_HEADER_def)
  moreover have "value_kind h = name_kind (map tokens n)" using follows_kind [OF l(2)] n by simp
  ultimately show ?thesis
    by (intro exI [of _ ?q1] conjI) (auto intro: runs_trans)
qed

section \<open>Values\<close>

lemma memchr_first: "c \<notin> set xs \<Longrightarrow> memchr c (xs @ c # ys) = Some (length xs)"
  by (simp add: memchr_def Let_def takeWhile_append takeWhile_eq_all_conv [THEN iffD2])

lemma skip_general_line:
  assumes "13 \<notin> set v" and "10 \<notin> set v" and "length v < head_limit"
  shows "skip_general (v @ 13 # rest) = length v"
proof -
  let ?limit = "min (length (v @ 13 # rest)) HTTP_MAX_HEADER_SIZE"
  obtain r where r: "take ?limit (v @ 13 # rest) = v @ 13 # r"
    using assms(3) by (cases "?limit - length v") auto
  have "l > length v" if "memchr 10 (v @ 13 # r) = Some l" for l
  proof (rule ccontr)
    assume "\<not> l > length v"
    then have "(v @ 13 # r) ! l \<noteq> 10" using assms(2)
      by (cases "l = length v") (simp_all add: nth_append, metis linorder_neqE_nat nth_mem)
    then show False using memchr_Some [OF that] by simp
  qed
  then show ?thesis
    using r memchr_first [OF assms(1), of r] by (auto simp: skip_general_def Let_def split: option.split dest: leD)
qed

lemma value_loop_general:
  assumes "13 \<notin> set v" and "10 \<notin> set v" and "length v < head_limit"
  shows "value_loop (v @ 13 # rest) pos b (h_general, q) = Inr (Line_end, pos + length v, 13, h_general, q)"
proof (cases v)
  case Nil
  then show ?thesis by (simp add: value_loop.simps(2))
next
  case (Cons c cs)
  then show ?thesis
    using assms skip_general_line [OF assms, of rest] by (simp add: value_loop.simps(2))
qed

definition number :: "bytes \<Rightarrow> nat" where
  "number v = foldl (\<lambda>n c. n * 10 + digit c) 0 v"

lemma foldl_number_mono: "n \<le> foldl (\<lambda>n c. n * 10 + digit c) n v"
proof (induction v arbitrary: n)
  case (Cons c v)
  have "n \<le> n * 10 + digit c" by simp
  also have "\<dots> \<le> foldl (\<lambda>n c. n * 10 + digit c) (n * 10 + digit c) v" by (rule Cons.IH)
  finally show ?case by simp
qed simp

lemma digit_less: "IS_NUM c \<Longrightarrow> digit c < 10"
  by (auto simp: IS_NUM_def digit_def char_codes word_le_nat_alt)

lemma value_loop_number:
  "(\<forall>c \<in> set v. IS_NUM c) \<Longrightarrow> foldl (\<lambda>n c. n * 10 + digit c) (content_length q) v \<le> ULLONG_MAX - 10 \<Longrightarrow>
   value_loop (v @ 13 # rest) pos b (h_content_length, q) =
     Inr (Line_end, pos + length v, 13, h_content_length, q\<lparr>content_length := foldl (\<lambda>n c. n * 10 + digit c) (content_length q) v\<rparr>)"
proof (induction v arbitrary: q pos b)
  case Nil
  then show ?case by (simp add: value_loop.simps(2))
next
  case (Cons c v)
  let ?n = "content_length q * 10 + digit c"
  have c: "IS_NUM c" using Cons.prems(1) by simp
  have n: "?n \<le> ULLONG_MAX - 10" using Cons.prems(2) foldl_number_mono [of ?n v] by simp
  then have "\<not> (ULLONG_MAX - 10) div 10 < content_length q" by simp
  moreover have "c \<noteq> 13" "c \<noteq> 10" "c \<noteq> 32" using c by (auto simp: IS_NUM_def char_byte_def)
  ultimately have "value_loop ((c # v) @ 13 # rest) pos b (h_content_length, q) =
      value_loop (v @ 13 # rest) (pos + 1) c (h_content_length, q\<lparr>content_length := ?n\<rparr>)"
    using c n by (simp add: value_loop.simps(2) value_char_def)
  then show ?case using Cons.IH [of "q\<lparr>content_length := ?n\<rparr>" "pos + 1" c] Cons.prems by simp
qed

lemma value_loop_word:
  assumes "\<And>b q. value_char b (m, q) = rbind (match_value s f lost (LOWER b) (m, q)) (\<lambda>r. Inr (Inr r))"
    and "m \<noteq> h_general" and "length s < 256" and "0 \<notin> set (ascii s)"
  shows "map LOWER v = drop (Suc j) (ascii s) \<Longrightarrow> v \<noteq> [] \<Longrightarrow> index q = j \<Longrightarrow> 13 \<notin> set v \<Longrightarrow> 10 \<notin> set v \<Longrightarrow>
    value_loop (v @ 13 # rest) pos b (m, q) = Inr (Line_end, pos + length v, 13, f, q\<lparr>index := length s - 1\<rparr>)"
proof (induction v arbitrary: q pos b j)
  case (Cons c v)
  have j: "Suc j < length s" using Cons.prems(1) by (cases "Suc j < length s") (auto simp: ascii_def)
  then have "drop (Suc j) (ascii s) = chr (s ! Suc j) # drop (Suc (Suc j)) (ascii s)"
    by (simp add: ascii_def chr_def char_byte_def Cons_nth_drop_Suc [symmetric] nth_map)
  then have c: "LOWER c = chr (s ! Suc j)" and v: "map LOWER v = drop (Suc (Suc j)) (ascii s)" using Cons.prems(1) by auto
  have lv: "length v = length s - Suc (Suc j)" using v by (metis length_map length_drop ascii_def)
  have i: "(index q + 1) mod 256 = Suc j" using Cons.prems(3) j assms(3) by simp
  have step: "value_loop ((c # v) @ 13 # rest) pos b (m, q) =
      value_loop (v @ 13 # rest) (pos + 1) c (if Suc j = length s - 1 then f else m, q\<lparr>index := Suc j\<rparr>)"
    using i j c Cons.prems assms(1,2)
    by (simp add: value_loop.simps(2) match_value_def match_name_def matcher_at_def Let_def)
  show ?case
  proof (cases v)
    case Nil
    then have "Suc j = length s - 1" using lv j by simp
    then show ?thesis using step Nil by (simp add: value_loop.simps(2))
  next
    case (Cons d ds)
    then have "Suc j \<noteq> length s - 1" using lv j by auto
    then show ?thesis
      using step Cons.IH [OF v, of "q\<lparr>index := Suc j\<rparr>" "pos + 1" c] Cons Cons.prems(4,5) by simp
  qed
qed simp

text \<open>What a value, for a kind of name, tells about the message: its length and its flags.\<close>

type_synonym framing = "nat \<times> (flag \<Rightarrow> bool)"

definition framing :: "http_parser \<Rightarrow> framing" where
  "framing q = (content_length q, flags q)"

fun value_ok :: "header_states \<Rightarrow> bytes \<Rightarrow> bool" where
  "value_ok h_content_length v \<longleftrightarrow> (\<forall>c \<in> set v. IS_NUM c) \<and> number v \<le> ULLONG_MAX - 10"
| "value_ok h_connection v \<longleftrightarrow> map LOWER v \<in> {ascii ''keep-alive'', ascii ''close'', ascii ''upgrade''}"
| "value_ok h_transfer_encoding v \<longleftrightarrow> map LOWER v = ascii ''chunked''"
| "value_ok _ v \<longleftrightarrow> True"

fun connection_flag :: "bytes \<Rightarrow> flag" where
  "connection_flag v = (if map LOWER v = ascii ''keep-alive'' then F_CONNECTION_KEEP_ALIVE
     else if map LOWER v = ascii ''close'' then F_CONNECTION_CLOSE else F_CONNECTION_UPGRADE)"

fun apply_value :: "header_states \<Rightarrow> bytes \<Rightarrow> framing \<Rightarrow> framing" where
  "apply_value h_content_length v (l, f) = (number v, f)"
| "apply_value h_connection v (l, f) = (l, f(connection_flag v := True))"
| "apply_value h_transfer_encoding v (l, f) = (l, f(F_CHUNKED := True))"
| "apply_value h_upgrade v (l, f) = (l, f(F_UPGRADE := True))"
| "apply_value _ v fr = fr"

definition line_text :: "bytes \<Rightarrow> bool" where
  "line_text v \<longleftrightarrow> v \<noteq> [] \<and> hd v \<noteq> 32 \<and> hd v \<noteq> 9 \<and> 13 \<notin> set v \<and> 10 \<notin> set v"

text \<open>What the headers of a message leave as it is.\<close>

definition same_line :: "http_parser \<Rightarrow> http_parser \<Rightarrow> bool" where
  "same_line q q' \<longleftrightarrow> parser_type q' = parser_type q \<and> http_major q' = http_major q \<and> http_minor q' = http_minor q \<and>
     status_code q' = status_code q \<and> method q' = method q \<and> http_errno q' = http_errno q"

definition finished :: "http_parser \<Rightarrow> http_parser" where
  "finished q = (case header_state q of
     h_connection_keep_alive \<Rightarrow> q\<lparr>flags := (flags q)(F_CONNECTION_KEEP_ALIVE := True)\<rparr>
   | h_connection_close \<Rightarrow> q\<lparr>flags := (flags q)(F_CONNECTION_CLOSE := True)\<rparr>
   | h_transfer_encoding_chunked \<Rightarrow> q\<lparr>flags := (flags q)(F_CHUNKED := True)\<rparr>
   | h_connection_upgrade \<Rightarrow> q\<lparr>flags := (flags q)(F_CONNECTION_UPGRADE := True)\<rparr>
   | _ \<Rightarrow> q)"

lemma finish_header_here: "finish_header (here q st i mk u b) = here (finished q) st i mk u b"
  by (simp add: finish_header_def finished_def set_flag_def upd_def split: header_states.split)

definition value_reads :: "bytes \<Rightarrow> http_parser \<Rightarrow> framing \<Rightarrow> bool" where
  "value_reads cs q fr \<longleftrightarrow> (\<forall>rest pos b. \<exists>h q'. value_loop (cs @ 13 # rest) pos b (header_state q, q) =
       Inr (Line_end, pos + length cs, 13, h, q') \<and>
     same_line q q' \<and> nread q' = nread q \<and> framing (finished (q'\<lparr>header_state := h\<rparr>)) = fr)"

lemma word_reads:
  assumes "map LOWER (c # cs) = ascii s" and "2 \<le> length s" and "length s < 256" and "0 \<notin> set (ascii s)"
    and "13 \<notin> set cs" and "10 \<notin> set cs" and "index q = 0" and "header_state q \<noteq> h_general"
    and "\<And>b q'. value_char b (header_state q, q') = rbind (match_value s f lost (LOWER b) (header_state q, q')) (\<lambda>r. Inr (Inr r))"
    and "\<And>q'. framing (finished (q'\<lparr>header_state := f\<rparr>)) = (content_length q', (flags q')(g := True))"
  shows "value_reads cs q (content_length q, (flags q)(g := True))"
proof -
  have "map LOWER cs = drop (Suc 0) (ascii s)" using assms(1) by (metis drop0 drop_Suc_Cons list.simps(9))
  moreover have "cs \<noteq> []" using assms(1,2) by (auto simp: ascii_def)
  ultimately have "value_loop (cs @ 13 # rest) pos b (header_state q, q) =
      Inr (Line_end, pos + length cs, 13, f, q\<lparr>index := length s - 1\<rparr>)" for rest pos b
    using value_loop_word [OF assms(9,8,3,4), of cs 0 q] assms(5,6,7) by simp
  then show ?thesis unfolding value_reads_def using assms(10) [of "q\<lparr>index := length s - 1\<rparr>"] by (auto simp: same_line_def)
qed

lemma value_start:
  assumes "value_kind (header_state q) \<noteq> h_matching_connection_token_start" and "value_ok (value_kind (header_state q)) v" and "line_text v" and "length v < head_limit" and "v = c # cs"
  shows "\<exists>q1. exec_switch strict cb data (here q s_header_value_discard_ws i nomarks u c) =
      Inr (Break, here q1 s_header_value i (nomarks(M_header_value := Some i)) u c) \<and>
    same_line q q1 \<and> nread q1 = nread q \<and> (\<forall>n. value_reads cs (counted q1 n) (apply_value (value_kind (header_state q)) v (framing q)))"
proof -
  have c: "c \<noteq> 32" "c \<noteq> 9" "c \<noteq> 13" "c \<noteq> 10" and cs: "13 \<notin> set cs" "10 \<notin> set cs"
    using assms(3,5) by (auto simp: line_text_def)
  let ?q = "q\<lparr>index := 0\<rparr>"
  have switch: "exec_switch strict cb data (here q s_header_value_discard_ws i nomarks u c) =
      exec_header_value_start (here q s_header_value_discard_ws i nomarks u c)"
    using c by (simp add: exec_switch_def exec_discard_ws_def)
  have general_value: "value_reads cs q1 (framing q1)" if "header_state q1 = h_general" for q1
    using value_loop_general [OF cs, of _ _ _ q1] assms(4,5) that
    by (auto simp: value_reads_def same_line_def finished_def framing_def)
  consider (general) "value_kind (header_state q) = h_general" | (upgrade) "header_state q = h_upgrade"
    | (len) "header_state q = h_content_length" | (te) "header_state q = h_transfer_encoding"
    | (con) "header_state q = h_connection"
    using assms(1) by (cases "header_state q") auto
  then show ?thesis
  proof cases
    case general
    let ?q1 = "?q\<lparr>header_state := h_general\<rparr>"
    have "exec_header_value_start (here q s_header_value_discard_ws i nomarks u c) =
        Inr (Break, here ?q1 s_header_value i (nomarks(M_header_value := Some i)) u c)"
      using general by (cases "header_state q") (simp_all add: exec_header_value_start_def step_simps)
    then show ?thesis
      using switch general general_value [of "counted ?q1 _"] by (intro exI [of _ ?q1]) (simp add: same_line_def framing_def)
  next
    case upgrade
    let ?q1 = "?q\<lparr>flags := (flags q)(F_UPGRADE := True), header_state := h_general\<rparr>"
    show ?thesis
      using switch upgrade general_value [of "counted ?q1 _"]
      by (intro exI [of _ ?q1]) (simp add: same_line_def framing_def exec_header_value_start_def step_simps)
  next
    case len
    let ?q1 = "?q\<lparr>content_length := digit c\<rparr>"
    have num: "\<forall>c \<in> set cs. IS_NUM c" "IS_NUM c" "number v = foldl (\<lambda>n c. n * 10 + digit c) (digit c) cs"
      using assms(2,5) len by (simp_all add: number_def)
    then have "value_reads cs (counted ?q1 n) (number v, flags q)" for n
      using value_loop_number [of cs "counted ?q1 n"] assms(2) len
      by (auto simp: value_reads_def same_line_def finished_def framing_def)
    then show ?thesis
      using switch len num(2) by (intro exI [of _ ?q1]) (simp add: same_line_def framing_def exec_header_value_start_def step_simps)
  next
    case te
    let ?q1 = "?q\<lparr>header_state := h_matching_transfer_encoding_chunked\<rparr>"
    have v: "map LOWER (c # cs) = ascii ''chunked''" using assms(2,5) te by simp
    have "value_reads cs (counted ?q1 n) (content_length (counted ?q1 n), (flags (counted ?q1 n))(F_CHUNKED := True))" for n
      by (rule word_reads [OF v, where f = h_transfer_encoding_chunked and lost = h_general])
        (use cs in \<open>simp_all add: value_char_def ascii_def framing_def finished_def\<close>)
    moreover have "LOWER c = chr CHR ''c''" using v by (simp add: ascii_def chr_def char_byte_def)
    ultimately show ?thesis
      using switch te by (intro exI [of _ ?q1]) (simp add: same_line_def framing_def exec_header_value_start_def step_simps)
  next
    case con
    note f = value_char_def ascii_def framing_def finished_def
    have start: ?thesis if "LOWER c = chr l" and "\<And>n. value_reads cs (counted (?q\<lparr>header_state := m\<rparr>) n) (content_length q, (flags q)(g := True))"
        and "m = (if chr l = chr CHR ''k'' then h_matching_connection_keep_alive
          else if chr l = chr CHR ''c'' then h_matching_connection_close
          else if chr l = chr CHR ''u'' then h_matching_connection_upgrade else h_matching_connection_token)"
        and "connection_flag v = g" for l m g
      using switch con that
      by (intro exI [of _ "?q\<lparr>header_state := m\<rparr>"])
        (simp add: same_line_def framing_def exec_header_value_start_def step_simps del: connection_flag.simps)
    have "map LOWER (c # cs) \<in> {ascii ''keep-alive'', ascii ''close'', ascii ''upgrade''}" using assms(2,5) con by simp
    then consider (keep) "map LOWER (c # cs) = ascii ''keep-alive''" | (close) "map LOWER (c # cs) = ascii ''close''"
      | (upgrade) "map LOWER (c # cs) = ascii ''upgrade''" by blast
    then show ?thesis
    proof cases
      case keep
      have "value_reads cs (counted (?q\<lparr>header_state := h_matching_connection_keep_alive\<rparr>) n) (content_length q, (flags q)(F_CONNECTION_KEEP_ALIVE := True))" for n
        using word_reads [OF keep, where f = h_connection_keep_alive and lost = h_matching_connection_token and
          q = "counted (?q\<lparr>header_state := h_matching_connection_keep_alive\<rparr>) n" and g = F_CONNECTION_KEEP_ALIVE] cs by (simp add: f)
      then show ?thesis using keep assms(5) by (intro start [of "CHR ''k''"]) (simp_all add: ascii_def chr_def char_byte_def)
    next
      case close
      have "value_reads cs (counted (?q\<lparr>header_state := h_matching_connection_close\<rparr>) n) (content_length q, (flags q)(F_CONNECTION_CLOSE := True))" for n
        using word_reads [OF close, where f = h_connection_close and lost = h_matching_connection_token and
          q = "counted (?q\<lparr>header_state := h_matching_connection_close\<rparr>) n" and g = F_CONNECTION_CLOSE] cs by (simp add: f)
      then show ?thesis using close assms(5) by (intro start [of "CHR ''c''"]) (simp_all add: ascii_def chr_def char_byte_def)
    next
      case upgrade
      have "value_reads cs (counted (?q\<lparr>header_state := h_matching_connection_upgrade\<rparr>) n) (content_length q, (flags q)(F_CONNECTION_UPGRADE := True))" for n
        using word_reads [OF upgrade, where f = h_connection_upgrade and lost = h_matching_connection_token and
          q = "counted (?q\<lparr>header_state := h_matching_connection_upgrade\<rparr>) n" and g = F_CONNECTION_UPGRADE] cs by (simp add: f)
      then show ?thesis using upgrade assms(5) by (intro start [of "CHR ''u''"]) (simp_all add: ascii_def chr_def char_byte_def)
    qed
  qed
qed

section \<open>Headers\<close>

lemma counted_nread: "counted q (nread q) = q"
  by (simp add: counted_def)

lemma same_line_counted [simp]:
  "same_line (counted q k) q' = same_line q q'" "same_line q (counted q' k) = same_line q q'"
  by (simp_all add: same_line_def)

lemma framing_counted [simp]: "framing (counted q k) = framing q" "finished (counted q k) = counted (finished q) k"
  by (simp_all add: framing_def finished_def split: header_states.split)

lemma finished_pstate [simp]: "framing (finished (q\<lparr>pstate := st\<rparr>)) = framing (finished q)"
  by (simp add: framing_def finished_def split: header_states.split)

lemma same_line_trans: "same_line q r \<Longrightarrow> same_line r s \<Longrightarrow> same_line q s"
  by (simp add: same_line_def)

text \<open>The rest of a value, up to the end of the line.\<close>

lemma value_end_switch:
  assumes "drop j data = cs @ 13 # rest" and "value_loop (cs @ 13 # rest) j b (header_state q, counted q k) = Inr (Line_end, j + length cs, 13, h, q')"
    and "nread q' = k" and "k + length cs \<le> head_limit" and "http_errno q' = HPE_OK" and "m \<le> j"
    and "on_header_value (take (j + length cs - m) (drop m data)) t = Some t'"
  shows "exec_switch strict settings data (here (counted q k) s_header_value j (nomarks(M_header_value := Some m)) (Some t) b) =
    Inr (Break, here (counted (q'\<lparr>header_state := h, pstate := s_header_almost_done\<rparr>) (k + length cs)) s_header_almost_done (j + length cs)
      nomarks (Some t') 13)"
proof -
  have "(k + length cs) mod 4294967296 = k + length cs" using assms(4) by simp
  moreover have "counted q' n = q'\<lparr>nread := n\<rparr>" for n by (simp add: counted_def)
  moreover have "j + length cs < length data" using drop_Cons [OF drop_at [OF assms(1)]] by simp
  ultimately show ?thesis
    using assms
    by (simp add: exec_switch_def exec_header_value_def COUNT_HEADER_SIZE_def step_simps chr_def char_byte_def CALLBACK_DATA_def on_part)
qed

lemma run_value:
  assumes "drop i data = 32 # v @ 13 # 10 # rest" and "k + length v + 3 \<le> head_limit" and "http_errno q = HPE_OK"
    and "value_kind (header_state q) \<noteq> h_matching_connection_token_start" and "value_ok (value_kind (header_state q)) v"
    and "line_text v" and "on_header_value v t = Some t'"
  shows "\<exists>q'. runs strict settings data (at q k s_header_value_discard_ws i nomarks (Some t))
      (at q' (k + length v + 3) s_header_value_lws (i + length v + 3) nomarks (Some t')) \<and>
    same_line q q' \<and> framing (finished q') = apply_value (value_kind (header_state q)) v (framing q)"
proof -
  obtain c cs where v: "v = c # cs" using assms(6) by (cases v) (auto simp: line_text_def)
  let ?mk = "nomarks(M_header_value := Some (i + 1))"
  let ?fr = "apply_value (value_kind (header_state q)) v (framing q)"
  have i1: "drop (i + 1) data = c # (cs @ 13 # 10 # rest)" using drop_Cons [OF assms(1)] v by simp
  have i2: "drop (i + 2) data = cs @ 13 # 10 # rest" using drop_Cons [OF i1] by simp
  have j: "drop (i + 2 + length cs) data = 13 # 10 # rest" using drop_at [OF i2] by simp
  note j' = drop_Cons [OF j]
  have E0: "exec_switch strict settings data (here (counted q (k + 1)) s_header_value_discard_ws i nomarks (Some t) 32) =
      Inr (Break, here (counted q (k + 1)) s_header_value_discard_ws i nomarks (Some t) 32)"
    by (simp add: exec_switch_def exec_discard_ws_def BREAK_def)
  obtain q1 where q1: "exec_switch strict settings data (here (counted q (k + 2)) s_header_value_discard_ws (i + 1) nomarks (Some t) c) =
      Inr (Break, here q1 s_header_value (i + 1) ?mk (Some t) c)"
    and line: "same_line q q1" and n: "nread q1 = k + 2" and reads: "\<And>n. value_reads cs (counted q1 n) ?fr"
    using value_start [of "counted q (k + 2)" v c cs strict settings data "i + 1" "Some t"] assms(2,4,5,6) v by auto
  have q1c: "counted q1 (k + 2) = q1" using counted_nread [of q1] n by simp
  obtain b ms where b: "cs @ 13 # 10 # rest = b # ms" by (cases cs) auto
  let ?p = "i + 2 + length cs"
  obtain h q2 where l: "value_loop (cs @ 13 # 10 # rest) (i + 2) b (header_state q1, counted q1 (k + 3)) =
      Inr (Line_end, ?p, 13, h, q2)" "same_line q1 q2" "nread q2 = k + 3" "framing (finished (q2\<lparr>header_state := h\<rparr>)) = ?fr"
    using reads [of "k + 3", unfolded value_reads_def, THEN spec, THEN spec, THEN spec, of "10 # rest" "i + 2" b] by auto
  let ?q3 = "q2\<lparr>header_state := h, pstate := s_header_almost_done\<rparr>"
  have three: "n + 3 = Suc (Suc (Suc n))" for n by simp
  have "take (i + 2 + length cs - (i + 1)) (drop (i + 1) data) = v" using i1 v by simp
  moreover have "http_errno q2 = HPE_OK" using l(2) line assms(3) by (simp add: same_line_def)
  ultimately have E2: "exec_switch strict settings data (here (counted q1 (k + 2 + 1)) s_header_value (i + 2) ?mk (Some t) b) =
      Inr (Break, here (counted ?q3 (k + length v + 2)) s_header_almost_done ?p nomarks (Some t') 13)"
    using value_end_switch [OF i2 l(1,3)] assms(2,7) v three by simp
  have E3: "exec_switch strict settings data (here (counted ?q3 (k + length v + 2 + 1)) s_header_almost_done (?p + 1) nomarks (Some t') 10) =
      Inr (Break, here (counted ?q3 (k + length v + 2 + 1)) s_header_value_lws (?p + 1) nomarks (Some t') 10)"
    by (simp add: exec_switch_def exec_header_end_def step_simps)
  have "runs strict settings data (at q k s_header_value_discard_ws i nomarks (Some t)) (at q (k + 1) s_header_value_discard_ws (i + 1) nomarks (Some t))"
    by (rule head_step [OF assms(1) _ _ E0]) (use assms(2) in \<open>simp_all add: PARSING_HEADER_def\<close>)
  moreover have "runs strict settings data (at q (k + 1) s_header_value_discard_ws (i + 1) nomarks (Some t)) (at q1 (k + 2) s_header_value (i + 2) ?mk (Some t))"
    using head_step [OF i1, of "k + 1" s_header_value_discard_ws strict settings q nomarks "Some t" q1 "k + 2" s_header_value "i + 1" ?mk "Some t" c]
      q1 q1c assms(2) v by (simp add: PARSING_HEADER_def)
  moreover have "drop (i + 2) data = b # ms" using i2 b by simp
  from head_step [OF this _ _ E2] have "runs strict settings data (at q1 (k + 2) s_header_value (i + 2) ?mk (Some t))
      (at ?q3 (k + length v + 2) s_header_almost_done (?p + 1) nomarks (Some t'))"
    using assms(2) v by (simp add: PARSING_HEADER_def)
  moreover have "drop (?p + 1) data = 10 # rest" using j' by simp
  from head_step [OF this _ _ E3] have "runs strict settings data (at ?q3 (k + length v + 2) s_header_almost_done (?p + 1) nomarks (Some t'))
      (at ?q3 (k + length v + 3) s_header_value_lws (i + length v + 3) nomarks (Some t'))"
    using assms(2) v by (simp add: PARSING_HEADER_def three)
  ultimately have "runs strict settings data (at q k s_header_value_discard_ws i nomarks (Some t))
      (at ?q3 (k + length v + 3) s_header_value_lws (i + length v + 3) nomarks (Some t'))"
    by (meson runs_trans)
  moreover have "same_line q ?q3" using same_line_trans [OF line l(2)] by (simp add: same_line_def)
  ultimately show ?thesis using l(4) by (intro exI [of _ ?q3]) simp
qed

text \<open>
  After a header the parser looks at the next byte twice: first to see that the value does not go on.
  \<open>fr\<close> is what the headers so far say.
\<close>

definition pending :: "http_parser \<Rightarrow> state \<Rightarrow> framing \<Rightarrow> bool" where
  "pending q st fr \<longleftrightarrow> st = s_header_field_start \<and> framing q = fr \<or> st = s_header_value_lws \<and> framing (finished q) = fr"

lemma field_start_once:
  assumes "c \<noteq> 10"
  shows "reexecute strict cb data (Suc n) (here q s_header_field_start i mk u c) =
    reexecute strict cb data (Suc m) (here q s_header_field_start i mk u c)"
  using assms by (simp add: exec_switch_def exec_header_field_start_def BREAK_def goto_error_def)

lemma lws_runs:
  assumes "drop i data = c # rest" and "c \<noteq> 32" and "c \<noteq> 9" and "c \<noteq> 10" and "k < head_limit"
    and "runs strict cb data (at (finished q) k s_header_field_start i mk u) z" and "i < p z"
  shows "runs strict cb data (at q k s_header_value_lws i mk u) z"
proof -
  have c: "data ! i = c" using drop_Cons [OF assms(1)] by simp
  have "exec_switch strict cb data (here (counted q (k + 1)) s_header_value_lws i mk u c) =
      Inr (Reexecute, here (counted (finished q) (k + 1)) s_header_field_start i mk u c)"
    using assms(2,3) by (simp add: exec_switch_def exec_header_end_def finish_header_here step_simps)
  from reexecute_again [OF this, of 7] have same: "exec_byte strict cb data (at q k s_header_value_lws i mk u) =
      exec_byte strict cb data (at (finished q) k s_header_field_start i mk u)"
    using assms(5) c field_start_once [OF assms(4), of strict cb data 6 "counted (finished q) (k + 1)" i mk u 7]
    by (simp add: exec_byte_head PARSING_HEADER_def del: reexecute.simps)
  from assms(6) show ?thesis
  proof (cases rule: runs.cases)
    case here
    then show ?thesis using assms(7) by (auto simp: at_def)
  next
    case (step s1)
    then show ?thesis using same by (intro runs.step [of "at q k s_header_value_lws i mk u"]) (auto simp: at_def)
  qed
qed

lemma pending_runs:
  assumes "pending q st fr"
  obtains q0 where "framing q0 = fr" and "same_line q q0"
    and "\<And>strict cb data i c rest k mk u z. drop i data = c # rest \<Longrightarrow> c \<noteq> 32 \<Longrightarrow> c \<noteq> 9 \<Longrightarrow> c \<noteq> 10 \<Longrightarrow> k < head_limit \<Longrightarrow>
      runs strict cb data (at q0 k s_header_field_start i mk u) z \<Longrightarrow> i < p z \<Longrightarrow> runs strict cb data (at q k st i mk u) z"
proof (cases "st = s_header_field_start")
  case True
  then show ?thesis using that [of q] assms by (auto simp: pending_def same_line_def)
next
  case False
  have "same_line q (finished q)" by (simp add: same_line_def finished_def split: header_states.split)
  then show ?thesis
    by (rule that [of "finished q", rotated]) (use assms False in \<open>auto simp: pending_def intro: lws_runs\<close>)
qed

definition header_ok :: "bytes \<times> bytes \<Rightarrow> bool" where
  "header_ok h \<longleftrightarrow> (case h of (n, v) \<Rightarrow> header_name n \<and> line_text v \<and> value_ok (name_kind (map tokens n)) v)"

definition header_text :: "bytes \<times> bytes \<Rightarrow> bytes" where
  "header_text h = (case h of (n, v) \<Rightarrow> n @ [58, 32] @ v @ [13, 10])"

definition apply_header :: "bytes \<times> bytes \<Rightarrow> framing \<Rightarrow> framing" where
  "apply_header h fr = (case h of (n, v) \<Rightarrow> apply_value (name_kind (map tokens n)) v fr)"

lemma name_kind_value: "name_kind w \<noteq> h_matching_connection_token_start"
  by (simp add: name_kind_def)

lemma run_header_line:
  assumes "drop i data = header_text h @ rest" and "k + length (header_text h) \<le> head_limit" and "header_ok h"
    and "http_errno q = HPE_OK" and "pending q st fr" and "length (m_pieces t) mod 2 = 0"
  shows "\<exists>q'. runs strict settings data (at q k st i nomarks (Some t))
      (at q' (k + length (header_text h)) s_header_value_lws (i + length (header_text h)) nomarks
        (Some (t\<lparr>m_pieces := m_pieces t @ [fst h, snd h]\<rparr>))) \<and>
    same_line q q' \<and> pending q' s_header_value_lws (apply_header h fr)"
proof -
  obtain n v where h: "h = (n, v)" by (cases h)
  have ok: "header_name n" "line_text v" "value_ok (name_kind (map tokens n)) v" using assms(3) h by (auto simp: header_ok_def)
  have i: "drop i data = n @ 58 # (32 # v @ 13 # 10 # rest)" using assms(1) h by (simp add: header_text_def)
  have len: "length (header_text h) = length n + 1 + length v + 3" using h by (simp add: header_text_def)
  obtain q0 where q0: "framing q0 = fr" "same_line q q0"
    and go: "\<And>strict (cb :: http_msg option callbacks) data i c rest k mk u z. drop i data = c # rest \<Longrightarrow> c \<noteq> 32 \<Longrightarrow> c \<noteq> 9 \<Longrightarrow> c \<noteq> 10 \<Longrightarrow> k < head_limit \<Longrightarrow>
      runs strict cb data (at q0 k s_header_field_start i mk u) z \<Longrightarrow> i < p z \<Longrightarrow> runs strict cb data (at q k st i mk u) z"
    using pending_runs [OF assms(5)] by blast
  have e: "http_errno q0 = HPE_OK" using q0(2) assms(4) by (simp add: same_line_def)
  let ?t = "t\<lparr>m_pieces := m_pieces t @ [n]\<rparr>"
  let ?t' = "t\<lparr>m_pieces := m_pieces t @ [n, v]\<rparr>"
  have t: "on_header_field n t = ?t" "on_header_value v ?t = Some ?t'"
    using assms(6) by (simp_all add: on_header_field_def on_header_value_def mod_Suc)
  obtain q1 hs x sx where r1: "runs strict settings data (at q0 k s_header_field_start i nomarks (Some t))
      (at q1 (k + length n + 1) s_header_value_discard_ws (i + length n + 1) nomarks (Some ?t))"
    and q1: "value_kind (header_state q1) = name_kind (map tokens n)" "q1 = q0\<lparr>index := x, header_state := hs, pstate := sx\<rparr>"
    using run_name [OF i _ ok(1) e, of k strict t] assms(2) len t(1) by auto
  have i2: "drop (i + length n + 1) data = 32 # v @ 13 # 10 # rest" using drop_Cons [OF drop_at [OF i]] by simp
  obtain q2 where r2: "runs strict settings data (at q1 (k + length n + 1) s_header_value_discard_ws (i + length n + 1) nomarks (Some ?t))
      (at q2 (k + length n + 1 + length v + 3) s_header_value_lws (i + length n + 1 + length v + 3) nomarks (Some ?t'))"
    and q2: "same_line q1 q2" "framing (finished q2) = apply_value (name_kind (map tokens n)) v fr"
    using run_value [OF i2, of "k + length n + 1" q1 ?t ?t' strict] assms(2) len e q1 name_kind_value ok(2,3) t(2) q0(1)
    by (auto simp: framing_def)
  obtain c m where c: "n = c # m" "tokens c \<noteq> 0" using ok(1) by (cases n) (auto simp: header_name_def)
  have "runs strict settings data (at q k st i nomarks (Some t))
      (at q2 (k + length n + 1 + length v + 3) s_header_value_lws (i + length n + 1 + length v + 3) nomarks (Some ?t'))"
    using go [of i data c, OF _ _ _ _ _ runs_trans [OF r1 r2]] i c token_char [OF c(2)] assms(2) len by (simp add: at_def)
  moreover have "same_line q q2" using q0(2) q1(2) q2(1) by (simp add: same_line_def)
  ultimately show ?thesis using q2(2) h len
    by (intro exI [of _ q2]) (simp add: pending_def apply_header_def ac_simps)
qed

lemma run_header_lines:
  "drop i data = concat (map header_text hs) @ rest \<Longrightarrow> k + length (concat (map header_text hs)) \<le> head_limit \<Longrightarrow>
   (\<forall>h \<in> set hs. header_ok h) \<Longrightarrow> http_errno q = HPE_OK \<Longrightarrow> pending q st fr \<Longrightarrow> length (m_pieces t) mod 2 = 0 \<Longrightarrow>
   \<exists>q' st'. runs strict settings data (at q k st i nomarks (Some t))
      (at q' (k + length (concat (map header_text hs))) st' (i + length (concat (map header_text hs))) nomarks
        (Some (t\<lparr>m_pieces := m_pieces t @ concat (map (\<lambda>(n, v). [n, v]) hs)\<rparr>))) \<and>
    same_line q q' \<and> pending q' st' (fold apply_header hs fr)"
proof (induction hs arbitrary: i k q st fr t)
  case Nil
  then show ?case by (intro exI [of _ q] exI [of _ st]) (simp add: runs.here same_line_def)
next
  case (Cons h hs)
  have i: "drop i data = header_text h @ (concat (map header_text hs) @ rest)" using Cons.prems(1) by simp
  let ?t = "t\<lparr>m_pieces := m_pieces t @ [fst h, snd h]\<rparr>"
  obtain q1 where r1: "runs strict settings data (at q k st i nomarks (Some t))
      (at q1 (k + length (header_text h)) s_header_value_lws (i + length (header_text h)) nomarks (Some ?t))"
    and q1: "same_line q q1" "pending q1 s_header_value_lws (apply_header h fr)"
    using run_header_line [OF i _ _ Cons.prems(4,5,6), of k strict] Cons.prems(2,3) by auto
  have e: "http_errno q1 = HPE_OK" using q1(1) Cons.prems(4) by (simp add: same_line_def)
  obtain q2 st2 where r2: "runs strict settings data (at q1 (k + length (header_text h)) s_header_value_lws (i + length (header_text h)) nomarks (Some ?t))
      (at q2 (k + length (header_text h) + length (concat (map header_text hs))) st2
        (i + length (header_text h) + length (concat (map header_text hs))) nomarks
        (Some (?t\<lparr>m_pieces := m_pieces ?t @ concat (map (\<lambda>(n, v). [n, v]) hs)\<rparr>)))"
    and q2: "same_line q1 q2" "pending q2 st2 (fold apply_header hs (apply_header h fr))"
    using Cons.IH [OF drop_at [OF i] _ _ e q1(2), of "k + length (header_text h)" ?t] Cons.prems(2,3,6) by auto
  show ?case
    using runs_trans [OF r1 r2] same_line_trans [OF q1(1) q2(1)] q2(2)
    by (intro exI [of _ q2] exI [of _ st2]) (cases h, simp add: add.assoc)
qed

end
