(* ===== verification/Http_Bodies.thy ===== *)
theory Http_Bodies
  imports Http_Headers
begin

text \<open>
  The end of a message: the empty line after the headers, a body of a given length or in chunks, and the
  completion of the message table.
\<close>

section \<open>Completion\<close>

definition returns :: "bool \<Rightarrow> 'u callbacks \<Rightarrow> bytes \<Rightarrow> 'u exec \<Rightarrow> nat \<Rightarrow> 'u exec \<Rightarrow> bool" where
  "returns strict cb data s n s' \<longleftrightarrow>
     (\<exists>z. runs strict cb data s z \<and> p z < length data \<and> exec_byte strict cb data z = Inr (Return n, s'))"

lemma returns_runs: "runs strict cb data s r \<Longrightarrow> returns strict cb data r n s' \<Longrightarrow> returns strict cb data s n s'"
  by (auto simp: returns_def intro: runs_trans)

lemma returns_now: "p s < length data \<Longrightarrow> exec_byte strict cb data s = Inr (Return n, s') \<Longrightarrow> returns strict cb data s n s'"
  by (auto simp: returns_def intro: runs.here)

definition complete_msg :: "bool \<Rightarrow> bool \<Rightarrow> http_msg \<Rightarrow> http_msg" where
  "complete_msg up ka t = t\<lparr>m_headers := Some (compose_headers (m_pieces t) (case m_headers t of None \<Rightarrow> Map.empty | Some hs \<Rightarrow> hs)),
     m_pieces := [], m_upgrade := if up then Some True else m_upgrade t, m_keepalive := Some ka, m_complete := Some True\<rparr>"

lemma needs_eof_iff: "http_message_needs_eof q \<longleftrightarrow> parser_type q \<noteq> HTTP_REQUEST \<and> status_code q div 100 \<noteq> 1 \<and>
    status_code q \<noteq> 204 \<and> status_code q \<noteq> 304 \<and> \<not> flags q F_SKIPBODY \<and> \<not> flags q F_CHUNKED \<and> content_length q = ULLONG_MAX"
  by (simp add: http_message_needs_eof_def)

lemma keepalive_complete [simp]: "m_keepalive (complete_msg up ka t) = Some ka"
  by (simp add: complete_msg_def)

lemma keep_alive_update [simp]: "http_should_keep_alive (q\<lparr>pstate := st, http_errno := e\<rparr>) = http_should_keep_alive q"
  by (simp add: http_should_keep_alive_def needs_eof_iff)

lemma notify_complete:
  assumes "http_errno q = HPE_OK" and "length (m_pieces t) mod 2 = 0"
  shows "CALLBACK_NOTIFY settings cb_message_complete (here q st i mk (Some t) b) f =
    Inr (Return (i + 1), here (q\<lparr>pstate := st, http_errno := HPE_PAUSED\<rparr>) st i mk
      (Some (complete_msg (upgrade q) (http_should_keep_alive q) t)) b)"
proof -
  have ka: "http_should_keep_alive (q\<lparr>pstate := st\<rparr>) = http_should_keep_alive q"
    by (simp add: http_should_keep_alive_def needs_eof_iff)
  have "on_message_complete (parser_info_of (q\<lparr>pstate := st\<rparr>)) t = (complete_msg (upgrade q) (http_should_keep_alive q) t, True)"
    using assms(2) by (simp add: on_message_complete_def complete_msg_def parser_info_of_def ka Let_def)
  then show ?thesis
    using assms(1) by (simp add: CALLBACK_NOTIFY_def on_notify_pause [where ev = "MessageComplete (parser_info_of (q\<lparr>pstate := st\<rparr>))"])
qed

text \<open>What a finished message leaves: the parser paused, ready for the next message.\<close>

definition finished_message :: "bool \<Rightarrow> http_parser \<Rightarrow> http_msg \<Rightarrow> http_msg option exec \<Rightarrow> bool" where
  "finished_message strict q t s \<longleftrightarrow> http_errno (px s) = HPE_PAUSED \<and> parser_type (px s) = parser_type q \<and>
     pstate (px s) = NEW_MESSAGE strict (px s) \<and> m_keepalive t = Some (http_should_keep_alive (px s)) \<and> nread (px s) \<le> 2 \<and> method (px s) = method q \<and> user s = Some t"

text \<open>Whether the connection stays open, for a message whose end is known.\<close>

definition keep_alive :: "nat \<Rightarrow> nat \<Rightarrow> (flag \<Rightarrow> bool) \<Rightarrow> bool" where
  "keep_alive major minor f \<longleftrightarrow> (if major > 0 \<and> minor > 0 then \<not> f F_CONNECTION_CLOSE else f F_CONNECTION_KEEP_ALIVE)"

lemma keep_alive: "\<not> http_message_needs_eof q \<Longrightarrow> http_should_keep_alive q = keep_alive (http_major q) (http_minor q) (flags q)"
  by (simp add: http_should_keep_alive_def keep_alive_def)

definition upgraded :: "http_parser \<Rightarrow> (flag \<Rightarrow> bool) \<Rightarrow> bool" where
  "upgraded q f \<longleftrightarrow> f F_UPGRADE \<and> f F_CONNECTION_UPGRADE \<or> method q = HTTP_CONNECT"

definition head_complete :: "http_parser \<Rightarrow> http_msg \<Rightarrow> http_msg" where
  "head_complete q t = on_headers_complete (parser_info_of q) t"

text \<open>The parser in \<open>s_headers_done\<close>, on the last byte of the head.\<close>

definition after_head :: "http_parser \<Rightarrow> http_parser" where
  "after_head q = q\<lparr>upgrade := upgraded q (flags q)\<rparr>"

lemma after_head_simps [simp]:
  "parser_type (after_head q) = parser_type q" "flags (after_head q) = flags q" "http_errno (after_head q) = http_errno q"
  "content_length (after_head q) = content_length q" "http_major (after_head q) = http_major q" "nread (after_head q) = nread q"
  "http_minor (after_head q) = http_minor q" "status_code (after_head q) = status_code q" "method (after_head q) = method q"
  "upgrade (after_head q) = upgraded q (flags q)" "after_head (counted q n) = counted (after_head q) n"
  by (simp_all add: after_head_def upgraded_def)

lemma blank_line_switch:
  assumes "http_errno q = HPE_OK" and "\<not> flags q F_TRAILING"
  shows "exec_switch strict settings data (here q s_headers_almost_done i mk (Some t) 10) =
    Inr (Reexecute, here (after_head q) s_headers_done i mk (Some (head_complete q t)) 10)"
proof -
  have "on_headers_complete (parser_info_of (after_head q)) t = head_complete q t"
    by (simp add: on_headers_complete_def parser_info_of_def head_complete_def after_head_def Let_def)
  moreover have "(after_head q)\<lparr>pstate := pstate q\<rparr> = after_head q" by (cases q) (simp add: after_head_def upgraded_def)
  ultimately show ?thesis
    using assms by (simp add: exec_switch_def exec_headers_almost_done_def step_simps invoke_cb_def settings_def upgraded_def
      after_head_def [symmetric] after_head_def [of q, symmetric, unfolded upgraded_def])
qed

section \<open>After the head\<close>

text \<open>A message without a body is complete with its head.\<close>

lemma no_body_switch:
  assumes "http_errno q = HPE_OK" and "length (m_pieces t) mod 2 = 0" and "\<not> flags q F_SKIPBODY" and "\<not> http_message_needs_eof q"
    and "method q = HTTP_CONNECT \<and> upgrade q \<or> \<not> flags q F_CHUNKED \<and> (content_length q = 0 \<or> content_length q = ULLONG_MAX)"
  shows "\<exists>s'. exec_switch strict settings data (here q s_headers_done i mk (Some t) 10) = Inr (Return (i + 1), s') \<and>
    finished_message strict q (complete_msg (upgrade q) (keep_alive (http_major q) (http_minor q) (flags q)) t) s'"
proof -
  let ?q = "q\<lparr>nread := 0\<rparr>"
  have e: "\<not> http_message_needs_eof ?q" "http_message_needs_eof (?q\<lparr>pstate := st, http_errno := e\<rparr>) = http_message_needs_eof q"
    "NEW_MESSAGE strict (?q\<lparr>pstate := st, http_errno := e\<rparr>) = NEW_MESSAGE strict ?q" for st e
    using assms(4) by (simp_all add: needs_eof_iff NEW_MESSAGE_def http_should_keep_alive_def start_state_def)
  note nc = notify_complete [of ?q t, OF _ assms(2)]
  show ?thesis
    using assms(1,3,4,5) e by (auto simp: exec_switch_def exec_headers_done_def step_simps nc finished_message_def keep_alive)
qed

lemma body_switch:
  assumes "http_errno q = HPE_OK" and "\<not> flags q F_SKIPBODY" and "method q \<noteq> HTTP_CONNECT"
  shows "\<not> flags q F_CHUNKED \<Longrightarrow> 0 < content_length q \<Longrightarrow> content_length q \<noteq> ULLONG_MAX \<Longrightarrow>
      exec_switch strict settings data (here q s_headers_done i mk u 10) = Inr (Break, here (q\<lparr>nread := 0\<rparr>) s_body_identity i mk u 10)"
    and "flags q F_CHUNKED \<Longrightarrow>
      exec_switch strict settings data (here q s_headers_done i mk u 10) = Inr (Break, here (q\<lparr>nread := 0\<rparr>) s_chunk_size_start i mk u 10)"
  using assms by (simp_all add: exec_switch_def exec_headers_done_def step_simps)

text \<open>The two bytes of the empty line; \<open>fr\<close> is what the headers said.\<close>

lemma run_blank:
  assumes "drop i data = 13 # 10 # rest" and "k + 2 \<le> head_limit" and "http_errno q = HPE_OK" and "pending q st fr"
    and "\<not> snd fr F_TRAILING"
  shows "\<exists>q'. same_line q q' \<and> framing q' = fr \<and>
    runs strict settings data (at q k st i nomarks (Some t)) (at q' (k + 1) s_headers_almost_done (i + 1) nomarks (Some t)) \<and>
    exec_byte strict settings data (at q' (k + 1) s_headers_almost_done (i + 1) nomarks (Some t)) =
      reexecute strict settings data 7 (here (counted (after_head q') (k + 2)) s_headers_done (i + 1) nomarks (Some (head_complete q' t)) 10)"
proof -
  obtain q0 where q0: "framing q0 = fr" "same_line q q0"
    and go: "\<And>strict (cb :: http_msg option callbacks) data i c rest k mk u z. drop i data = c # rest \<Longrightarrow> c \<noteq> 32 \<Longrightarrow> c \<noteq> 9 \<Longrightarrow> c \<noteq> 10 \<Longrightarrow>
      k < head_limit \<Longrightarrow> runs strict cb data (at q0 k s_header_field_start i mk u) z \<Longrightarrow> i < p z \<Longrightarrow> runs strict cb data (at q k st i mk u) z"
    using pending_runs [OF assms(4)] by blast
  have E: "exec_switch strict settings data (here (counted q0 (k + 1)) s_header_field_start i nomarks (Some t) 13) =
      Inr (Break, here (counted q0 (k + 1)) s_headers_almost_done i nomarks (Some t) 13)"
    by (simp add: exec_switch_def exec_header_field_start_def step_simps)
  from head_step [OF assms(1) _ _ E] have "runs strict settings data (at q0 k s_header_field_start i nomarks (Some t))
      (at q0 (k + 1) s_headers_almost_done (i + 1) nomarks (Some t))"
    using assms(2) by (simp add: PARSING_HEADER_def)
  from go [OF assms(1) _ _ _ _ this] have "runs strict settings data (at q k st i nomarks (Some t))
      (at q0 (k + 1) s_headers_almost_done (i + 1) nomarks (Some t))"
    using assms(2) by (simp add: at_def)
  moreover
  have d: "data ! (i + 1) = 10" using drop_Cons [OF conjunct1 [OF drop_Cons [OF assms(1)]]] by simp
  have "exec_switch strict settings data (here (counted q0 (k + 2)) s_headers_almost_done (i + 1) nomarks (Some t) 10) =
      Inr (Reexecute, here (after_head (counted q0 (k + 2))) s_headers_done (i + 1) nomarks (Some (head_complete (counted q0 (k + 2)) t)) 10)"
    using q0 assms(3,5) by (intro blank_line_switch) (auto simp: same_line_def framing_def)
  moreover have "head_complete (counted q0 n) t = head_complete q0 t" for n
    by (simp add: head_complete_def on_headers_complete_def parser_info_of_def Let_def)
  ultimately show ?thesis
    using q0 assms(2) d reexecute_again [of strict settings data _ _ 7]
    by (intro exI [of _ q0]) (simp add: exec_byte_head PARSING_HEADER_def del: reexecute.simps)
qed

definition needs_eof :: "http_parser \<Rightarrow> framing \<Rightarrow> bool" where
  "needs_eof q fr = http_message_needs_eof (q\<lparr>content_length := fst fr, flags := snd fr\<rparr>)"

lemma same_line_head: "same_line q q' \<Longrightarrow> head_complete q' t = head_complete q t"
  by (simp add: same_line_def head_complete_def on_headers_complete_def parser_info_of_def Let_def)

lemma same_line_eof: "same_line q q' \<Longrightarrow> framing q' = fr \<Longrightarrow> http_message_needs_eof q' = needs_eof q fr"
  by (auto simp: same_line_def needs_eof_def framing_def needs_eof_iff)

lemma pieces_head [simp]: "m_pieces (head_complete q t) = m_pieces t"
  by (simp add: head_complete_def on_headers_complete_def Let_def)

text \<open>The message with what its headers say about the connection.\<close>

definition close_msg :: "http_parser \<Rightarrow> (flag \<Rightarrow> bool) \<Rightarrow> http_msg \<Rightarrow> http_msg" where
  "close_msg q f t = complete_msg (upgraded q f) (keep_alive (http_major q) (http_minor q) f) t"

lemma run_no_body:
  assumes "drop i data = 13 # 10 # rest" and "k + 2 \<le> head_limit" and "http_errno q = HPE_OK" and "pending q st (l, f)"
    and "length (m_pieces t) mod 2 = 0" and "\<not> f F_TRAILING" and "\<not> f F_SKIPBODY" and "\<not> needs_eof q (l, f)"
    and "method q = HTTP_CONNECT \<or> \<not> f F_CHUNKED \<and> (l = 0 \<or> l = ULLONG_MAX)"
  shows "\<exists>s'. returns strict settings data (at q k st i nomarks (Some t)) (i + 2) s' \<and>
    finished_message strict q (close_msg q f (head_complete q t)) s'"
proof -
  obtain q' where q': "same_line q q'" "framing q' = (l, f)"
    and r: "runs strict settings data (at q k st i nomarks (Some t)) (at q' (k + 1) s_headers_almost_done (i + 1) nomarks (Some t))"
    and b: "exec_byte strict settings data (at q' (k + 1) s_headers_almost_done (i + 1) nomarks (Some t)) =
      reexecute strict settings data 7 (here (counted (after_head q') (k + 2)) s_headers_done (i + 1) nomarks (Some (head_complete q' t)) 10)"
    using run_blank [OF assms(1-4)] assms(6) by auto
  let ?q = "counted (after_head q') (k + 2)"
  have eof: "\<not> http_message_needs_eof ?q"
    using same_line_eof [OF q'] assms(8) by (simp add: needs_eof_iff)
  obtain s' where s': "exec_switch strict settings data (here ?q s_headers_done (i + 1) nomarks (Some (head_complete q' t)) 10) =
      Inr (Return (i + 1 + 1), s')"
    "finished_message strict ?q (complete_msg (upgrade ?q) (keep_alive (http_major ?q) (http_minor ?q) (flags ?q)) (head_complete q' t)) s'"
    using no_body_switch [of ?q "head_complete q' t" strict data "i + 1" nomarks] assms(3,5,7,9) q' eof
    by (auto simp: same_line_def framing_def upgraded_def)
  have "i + 1 < length data" using drop_Cons [OF conjunct1 [OF drop_Cons [OF assms(1)]]] by simp
  then have "returns strict settings data (at q k st i nomarks (Some t)) (i + 2) s'"
    using r b s'(1) reexecute_now [OF s'(1), of 6] by (intro returns_runs [OF r] returns_now) (simp_all add: at_def del: reexecute.simps)
  moreover have "finished_message strict q (close_msg q f (head_complete q t)) s'"
    using s'(2) q' same_line_head [OF q'(1)]
    by (simp add: finished_message_def close_msg_def same_line_def framing_def upgraded_def)
  ultimately show ?thesis by blast
qed

section \<open>Bodies of a given length\<close>

lemma exec_byte_body:
  assumes "\<not> PARSING_HEADER st"
  shows "exec_byte strict cb data (at q k st i mk u) = reexecute strict cb data 8 (here (counted q k) st i mk u (data ! i))"
  using assms by (simp add: exec_byte_def at_def Let_def del: reexecute.simps)

lemma take_body_all:
  assumes "drop i data = b @ rest" and "content_length q = length b"
  shows "take_body data (here q st i nomarks u c) =
    here (q\<lparr>content_length := 0\<rparr>) st (i + length b - 1) (nomarks(M_body := Some i)) u c"
proof -
  have "length data - i = length b + length rest" using assms(1) by (metis length_append length_drop)
  then show ?thesis using assms(2) by (simp add: take_body_def step_simps)
qed

lemma message_done_switch:
  assumes "http_errno q = HPE_OK" and "length (m_pieces t) mod 2 = 0" and "\<not> http_message_needs_eof q" and "nread q \<le> 2"
  shows "\<exists>s'. exec_switch strict settings data (here q s_message_done i mk (Some t) b) = Inr (Return (i + 1), s') \<and>
    finished_message strict q (complete_msg (upgrade q) (keep_alive (http_major q) (http_minor q) (flags q)) t) s'"
proof -
  have "NEW_MESSAGE strict (q\<lparr>pstate := st, http_errno := e\<rparr>) = NEW_MESSAGE strict q" for st e
    using assms(3) by (simp add: needs_eof_iff NEW_MESSAGE_def http_should_keep_alive_def start_state_def)
  then show ?thesis
    using assms(1,3,4) notify_complete [of q t, OF _ assms(2)]
    by (auto simp: exec_switch_def exec_body_def step_simps finished_message_def keep_alive)
qed

lemma body_byte:
  assumes "drop i data = b @ rest" and "b \<noteq> []" and "content_length q = length b" and "length b \<noteq> ULLONG_MAX"
    and "http_errno q = HPE_OK" and "length (m_pieces t) mod 2 = 0" and "\<not> http_message_needs_eof q" and "k \<le> 2"
  shows "\<exists>s'. exec_byte strict settings data (at q k s_body_identity i nomarks (Some t)) = Inr (Return (i + length b), s') \<and>
    finished_message strict q (complete_msg (upgrade q) (keep_alive (http_major q) (http_minor q) (flags q)) (on_body b t)) s'"
proof -
  let ?q = "q\<lparr>content_length := 0, pstate := s_message_done\<rparr>"
  let ?p = "i + length b - 1"
  have len: "Suc ?p = i + length b" "i \<le> Suc ?p" "Suc ?p \<le> length data"
    using assms(1,2) drop_at [OF assms(1)] by (cases b, simp_all) (metis add_Suc_right drop_all le_cases length_append length_drop
      list.size(4) nat_le_linear not_less_eq_eq ab_semigroup_add_class.add_ac(1) le_add1 add_le_cancel_left le_add_diff_inverse list.distinct(1) append_is_Nil_conv)
  have taken: "take (length b) (drop i data) = b" using assms(1) by simp
  have eof: "\<not> http_message_needs_eof (counted ?q k)" using assms(3,4,7) by (auto simp: needs_eof_iff)
  have "exec_switch strict settings data (here (counted q k) s_body_identity i nomarks (Some t) (data ! i)) =
      Inr (Reexecute, here (counted ?q k) s_message_done ?p nomarks (Some (on_body b t)) (data ! i))"
    using assms(2-5) len taken
    by (simp add: take_body_all [OF assms(1)] exec_switch_def exec_body_def body_length_ok_def check_def step_simps on_part)
  note again = reexecute_again [OF this, of 7]
  have "length (m_pieces (on_body b t)) mod 2 = 0" using assms(6) by (simp add: on_body_def)
  then obtain s' where s': "exec_switch strict settings data (here (counted ?q k) s_message_done ?p nomarks (Some (on_body b t)) (data ! i)) =
      Inr (Return (?p + 1), s')"
    "finished_message strict (counted ?q k) (complete_msg (upgrade (counted ?q k)) (keep_alive (http_major (counted ?q k))
      (http_minor (counted ?q k)) (flags (counted ?q k))) (on_body b t)) s'"
    using message_done_switch [OF _ _ eof, of "on_body b t" strict data ?p nomarks] assms(5,8) by auto
  have "finished_message strict q t' s' = finished_message strict (counted ?q k) t' s'" for t'
    by (simp add: finished_message_def)
  then show ?thesis
    using again reexecute_now [OF s'(1), of 6] s'(2) len(1)
    by (intro exI [of _ s']) (simp add: exec_byte_body PARSING_HEADER_def del: reexecute.simps)
qed

text \<open>The head of a message that has a body: the parser goes on in the state of the body.\<close>

lemma run_to_body:
  assumes "drop i data = 13 # 10 # rest" and "k + 2 \<le> head_limit" and "http_errno q = HPE_OK" and "pending q st (l, f)"
    and "\<not> f F_TRAILING" and "\<not> f F_SKIPBODY" and "method q \<noteq> HTTP_CONNECT"
    and "st' = s_body_identity \<and> \<not> f F_CHUNKED \<and> 0 < l \<and> l \<noteq> ULLONG_MAX \<or> st' = s_chunk_size_start \<and> f F_CHUNKED"
  shows "\<exists>q'. runs strict settings data (at q k st i nomarks (Some t)) (at q' 0 st' (i + 2) nomarks (Some (head_complete q t))) \<and>
    same_line q q' \<and> framing q' = (l, f) \<and> upgrade q' = upgraded q f"
proof -
  obtain q' where q': "same_line q q'" "framing q' = (l, f)"
    and r: "runs strict settings data (at q k st i nomarks (Some t)) (at q' (k + 1) s_headers_almost_done (i + 1) nomarks (Some t))"
    and b: "exec_byte strict settings data (at q' (k + 1) s_headers_almost_done (i + 1) nomarks (Some t)) =
      reexecute strict settings data 7 (here (counted (after_head q') (k + 2)) s_headers_done (i + 1) nomarks (Some (head_complete q' t)) 10)"
    using run_blank [OF assms(1-4)] assms(5) by auto
  let ?q = "counted (after_head q') (k + 2)"
  have "exec_switch strict settings data (here ?q s_headers_done (i + 1) nomarks (Some (head_complete q' t)) 10) =
      Inr (Break, here (counted (after_head q') 0) st' (i + 1) nomarks (Some (head_complete q' t)) 10)"
    using body_switch [of ?q] assms(3,6,7,8) q' by (auto simp: same_line_def framing_def)
  then have B: "exec_byte strict settings data (at q' (k + 1) s_headers_almost_done (i + 1) nomarks (Some t)) =
      Inr (Break, here (counted (after_head q') 0) st' (i + 1) nomarks (Some (head_complete q' t)) 10)"
    using b reexecute_now [of strict settings data _ _ _ 6] by (simp del: reexecute.simps)
  have "i + 1 < length data" using drop_Cons [OF conjunct1 [OF drop_Cons [OF assms(1)]]] by simp
  then have "runs strict settings data (at q' (k + 1) s_headers_almost_done (i + 1) nomarks (Some t))
      (at (after_head q') 0 st' (i + 2) nomarks (Some (head_complete q' t)))"
    by (intro runs.step [OF _ B]) (simp_all add: at_def runs.here)
  with r have "runs strict settings data (at q k st i nomarks (Some t)) (at (after_head q') 0 st' (i + 2) nomarks (Some (head_complete q t)))"
    using runs_trans same_line_head [OF q'(1)] by metis
  then show ?thesis using q'
    by (intro exI [of _ "after_head q'"]) (auto simp: same_line_def framing_def upgraded_def)
qed

lemma close_same_line:
  assumes "same_line q q'" and "upgrade q' = upgraded q f" and "\<And>g. g \<in> {F_CONNECTION_CLOSE, F_CONNECTION_KEEP_ALIVE} \<Longrightarrow> flags q' g = f g"
  shows "complete_msg (upgrade q') (keep_alive (http_major q') (http_minor q') (flags q')) t = close_msg q f t"
  using assms by (simp add: close_msg_def same_line_def keep_alive_def)

lemma finished_same_line: "same_line q q' \<Longrightarrow> finished_message strict q' t s \<Longrightarrow> finished_message strict q t s"
  by (simp add: finished_message_def same_line_def)

lemma run_plain_body:
  assumes "drop i data = 13 # 10 # b @ rest" and "k + 2 \<le> head_limit" and "http_errno q = HPE_OK" and "pending q st (l, f)"
    and "length (m_pieces t) mod 2 = 0" and "\<not> f F_TRAILING" and "\<not> f F_SKIPBODY" and "method q \<noteq> HTTP_CONNECT"
    and "\<not> f F_CHUNKED" and "b \<noteq> []" and "l = length b" and "l \<noteq> ULLONG_MAX"
  shows "\<exists>s'. returns strict settings data (at q k st i nomarks (Some t)) (i + 2 + length b) s' \<and>
    finished_message strict q (close_msg q f (on_body b (head_complete q t))) s'"
proof -
  obtain q' where r: "runs strict settings data (at q k st i nomarks (Some t)) (at q' 0 s_body_identity (i + 2) nomarks (Some (head_complete q t)))"
    and q': "same_line q q'" "framing q' = (l, f)" "upgrade q' = upgraded q f"
    using run_to_body [OF assms(1-4,6-8), of s_body_identity strict t] assms(9-12) by auto
  have d: "drop (i + 2) data = b @ rest" using drop_Cons [OF conjunct1 [OF drop_Cons [OF assms(1)]]] by simp
  obtain s' where s': "exec_byte strict settings data (at q' 0 s_body_identity (i + 2) nomarks (Some (head_complete q t))) =
      Inr (Return (i + 2 + length b), s')"
    "finished_message strict q' (complete_msg (upgrade q') (keep_alive (http_major q') (http_minor q') (flags q'))
      (on_body b (head_complete q t))) s'"
    using body_byte [OF d assms(10), of q' "head_complete q t" 0 strict] q' assms(3,5,11,12)
    by (auto simp: same_line_def framing_def needs_eof_iff)
  have "i + 2 < length data" using d assms(10) drop_Cons by (metis append_Cons neq_Nil_conv)
  then have "returns strict settings data (at q k st i nomarks (Some t)) (i + 2 + length b) s'"
    using s'(1) by (intro returns_runs [OF r] returns_now) (simp_all add: at_def)
  then show ?thesis
    using finished_same_line [OF q'(1) s'(2)] close_same_line [OF q'(1,3)] q'(2) by (auto simp: framing_def)
qed

end
