(* ===== verification/Http_Chunks.thy ===== *)
theory Http_Chunks
  imports Http_Bodies
begin

text \<open>Bodies in chunks: sizes in hexadecimal, each followed by its bytes, up to a chunk of size zero.\<close>

section \<open>Chunk sizes\<close>

definition hex_number :: "bytes \<Rightarrow> nat" where
  "hex_number ds = foldl (\<lambda>n c. n * 16 + the (unhex c)) 0 ds"

lemma foldl_hex_mono: "n \<le> foldl (\<lambda>n c. n * 16 + the (unhex c)) n v"
proof (induction v arbitrary: n)
  case (Cons c v)
  have "n \<le> n * 16 + the (unhex c)" by simp
  also have "\<dots> \<le> foldl (\<lambda>n c. n * 16 + the (unhex c)) (n * 16 + the (unhex c)) v" by (rule Cons.IH)
  finally show ?case by simp
qed simp

lemma unhex_char: "unhex c \<noteq> None \<Longrightarrow> c \<noteq> 13"
  by (auto simp: unhex_def IS_NUM_def char_codes)

definition hex_digits :: "bytes \<Rightarrow> bool" where
  "hex_digits ds \<longleftrightarrow> ds \<noteq> [] \<and> (\<forall>c \<in> set ds. unhex c \<noteq> None) \<and> length ds + 2 \<le> head_limit \<and> hex_number ds \<le> ULLONG_MAX - 16"

lemma run_hex:
  "drop i data = ds @ rest \<Longrightarrow> k + length ds \<le> head_limit \<Longrightarrow> flags q F_CHUNKED \<Longrightarrow> (\<forall>c \<in> set ds. unhex c \<noteq> None) \<Longrightarrow>
   foldl (\<lambda>n c. n * 16 + the (unhex c)) (content_length q) ds \<le> ULLONG_MAX - 16 \<Longrightarrow>
   runs strict cb data (at q k s_chunk_size i mk u)
     (at (q\<lparr>content_length := foldl (\<lambda>n c. n * 16 + the (unhex c)) (content_length q) ds\<rparr>) (k + length ds) s_chunk_size (i + length ds) mk u)"
proof (induction ds arbitrary: i k q)
  case Nil
  then show ?case by (auto intro: runs.here)
next
  case (Cons c ds)
  let ?n = "content_length q * 16 + the (unhex c)"
  have i: "drop i data = c # (ds @ rest)" using Cons.prems(1) by simp
  have n: "?n \<le> ULLONG_MAX - 16" using Cons.prems(5) foldl_hex_mono [of ?n ds] by simp
  then have "\<not> (ULLONG_MAX - 16) div 16 < content_length q" by simp
  then have E: "exec_switch strict cb data (here (counted q (k + 1)) s_chunk_size i mk u c) =
      Inr (Break, here (counted (q\<lparr>content_length := ?n\<rparr>) (k + 1)) s_chunk_size i mk u c)"
    using Cons.prems(3,4) n unhex_char [of c] by (auto simp: exec_switch_def exec_chunk_size_def check_def step_simps)
  have "runs strict cb data (at q k s_chunk_size i mk u) (at (q\<lparr>content_length := ?n\<rparr>) (k + 1) s_chunk_size (i + 1) mk u)"
    by (rule head_step [OF i _ _ E]) (use Cons.prems(2) in \<open>simp_all add: PARSING_HEADER_def\<close>)
  moreover have "runs strict cb data (at (q\<lparr>content_length := ?n\<rparr>) (k + 1) s_chunk_size (i + 1) mk u)
      (at (q\<lparr>content_length := ?n\<rparr>\<lparr>content_length := foldl (\<lambda>n c. n * 16 + the (unhex c)) (content_length (q\<lparr>content_length := ?n\<rparr>)) ds\<rparr>)
        (k + 1 + length ds) s_chunk_size (i + 1 + length ds) mk u)"
    using Cons.prems drop_Cons [OF i] by (intro Cons.IH) auto
  ultimately show ?case by (auto dest: runs_trans)
qed

lemma chunk_notify:
  assumes "http_errno q = HPE_OK" and "c = cb_chunk_header \<or> c = cb_chunk_complete"
  shows "CALLBACK_NOTIFY_ER settings c e (here q st i mk u b) f = f (here (q\<lparr>pstate := st\<rparr>) st i mk u b)"
  using assms by (auto simp: CALLBACK_NOTIFY_ER_def check_def invoke_cb_def settings_def upd_def Let_def)

definition sized :: "http_parser \<Rightarrow> nat \<Rightarrow> state \<Rightarrow> http_parser" where
  "sized q n st = (if n = 0 then q\<lparr>content_length := n, flags := (flags q)(F_TRAILING := True), pstate := st\<rparr>
     else q\<lparr>content_length := n, pstate := st\<rparr>)"

lemma run_chunk_size:
  assumes "drop i data = ds @ 13 # 10 # rest" and "hex_digits ds" and "flags q F_CHUNKED" and "http_errno q = HPE_OK"
    and "st = (if hex_number ds = 0 then s_header_field_start else s_chunk_data)"
  shows "runs strict settings data (at q 0 s_chunk_size_start i nomarks (Some t))
    (at (sized q (hex_number ds) st) 0 st (i + length ds + 2) nomarks (Some t))"
proof -
  obtain c cs where ds: "ds = c # cs" and c: "unhex c \<noteq> None" "\<forall>c \<in> set cs. unhex c \<noteq> None"
    and len: "length cs + 3 \<le> head_limit" and le: "hex_number ds \<le> ULLONG_MAX - 16"
    using assms(2) by (cases ds) (auto simp: hex_digits_def)
  let ?q1 = "q\<lparr>content_length := the (unhex c)\<rparr>"
  let ?q2 = "q\<lparr>content_length := hex_number ds\<rparr>"
  have n: "hex_number ds = foldl (\<lambda>n c. n * 16 + the (unhex c)) (content_length ?q1) cs" by (simp add: hex_number_def ds)
  have i: "drop i data = c # (cs @ 13 # 10 # rest)" using assms(1) ds by simp
  have i1: "drop (i + 1) data = cs @ 13 # 10 # rest" using drop_Cons [OF i] by simp
  have i2: "drop (i + 1 + length cs) data = 13 # 10 # rest" using drop_at [OF i1] .
  have i3: "drop (i + 1 + length cs + 1) data = 10 # rest" using drop_Cons [OF i2] by simp
  have E1: "exec_switch strict settings data (here (counted q (0 + 1)) s_chunk_size_start i nomarks (Some t) c) =
      Inr (Break, here (counted ?q1 1) s_chunk_size i nomarks (Some t) c)"
    using assms(3) c(1) by (auto simp: exec_switch_def exec_chunk_size_def check_def step_simps)
  have "runs strict settings data (at q 0 s_chunk_size_start i nomarks (Some t)) (at ?q1 1 s_chunk_size (i + 1) nomarks (Some t))"
    by (rule head_step [OF i _ _ E1]) (simp_all add: PARSING_HEADER_def)
  moreover have "runs strict settings data (at ?q1 1 s_chunk_size (i + 1) nomarks (Some t))
      (at ?q2 (1 + length cs) s_chunk_size (i + 1 + length cs) nomarks (Some t))"
    using run_hex [OF i1, of 1 ?q1 strict settings nomarks "Some t"] c(2) len le n assms(3) by simp
  moreover
  have E2: "exec_switch strict settings data (here (counted ?q2 (1 + length cs + 1)) s_chunk_size (i + 1 + length cs) nomarks (Some t) 13) =
      Inr (Break, here (counted ?q2 (1 + length cs + 1)) s_chunk_size_almost_done (i + 1 + length cs) nomarks (Some t) 13)"
    using assms(3) by (simp add: exec_switch_def exec_chunk_size_def check_def step_simps)
  have "runs strict settings data (at ?q2 (1 + length cs) s_chunk_size (i + 1 + length cs) nomarks (Some t))
      (at ?q2 (1 + length cs + 1) s_chunk_size_almost_done (i + 1 + length cs + 1) nomarks (Some t))"
    by (rule head_step [OF i2 _ _ E2]) (use len in \<open>simp_all add: PARSING_HEADER_def\<close>)
  moreover
  have E3: "exec_switch strict settings data (here (counted ?q2 (1 + length cs + 1 + 1)) s_chunk_size_almost_done (i + 1 + length cs + 1) nomarks (Some t) 10) =
      Inr (Break, here (counted (sized q (hex_number ds) st) 0) st (i + 1 + length cs + 1) nomarks (Some t) 10)"
    using assms(3,4,5) by (auto simp: exec_switch_def exec_chunk_size_def check_def step_simps CALLBACK_NOTIFY_def chunk_notify sized_def)
  have "runs strict settings data (at ?q2 (1 + length cs + 1) s_chunk_size_almost_done (i + 1 + length cs + 1) nomarks (Some t))
      (at (sized q (hex_number ds) st) 0 st (i + length ds + 2) nomarks (Some t))"
    using head_step [OF i3 _ _ E3] len ds by (simp add: PARSING_HEADER_def)
  ultimately show ?thesis by (meson runs_trans)
qed

section \<open>Chunks\<close>

lemma body_step:
  assumes "drop i data = c # rest" and "\<not> PARSING_HEADER st"
    and "exec_switch strict cb data (here (counted q k) st i mk u c) = Inr (Break, here (counted q' k') st' i' mk' u' b)" and "i \<le> i'"
  shows "runs strict cb data (at q k st i mk u) (at q' k' st' (i' + 1) mk' u')"
proof -
  have i: "i < length data" "data ! i = c" using drop_Cons [OF assms(1)] by simp_all
  have "exec_byte strict cb data (at q k st i mk u) = Inr (Break, here (counted q' k') st' i' mk' u' b)"
    using exec_byte_body [OF assms(2), of strict cb data q k i mk u] reexecute_now [OF assms(3), of 7] i(2)
    by (simp del: reexecute.simps)
  from runs.step [OF _ this] show ?thesis using i(1) assms(4) by (simp add: at_def runs.here)
qed

definition chunk_text :: "bytes \<times> bytes \<Rightarrow> bytes" where
  "chunk_text c = (case c of (ds, b) \<Rightarrow> ds @ [13, 10] @ b @ [13, 10])"

definition chunk_ok :: "bytes \<times> bytes \<Rightarrow> bool" where
  "chunk_ok c \<longleftrightarrow> (case c of (ds, b) \<Rightarrow> hex_digits ds \<and> b \<noteq> [] \<and> hex_number ds = length b)"

lemma run_chunk_data:
  assumes "drop i data = b @ 13 # 10 # rest" and "b \<noteq> []" and "content_length q = length b" and "length b \<le> ULLONG_MAX - 16"
    and "flags q F_CHUNKED" and "http_errno q = HPE_OK"
  shows "runs strict settings data (at q 0 s_chunk_data i nomarks (Some t))
    (at (q\<lparr>content_length := 0, pstate := s_chunk_size_start\<rparr>) 0 s_chunk_size_start (i + length b + 2) nomarks (Some (on_body b t)))"
proof -
  let ?mk = "nomarks(M_body := Some i)"
  let ?q0 = "q\<lparr>content_length := 0\<rparr>"
  obtain c cs where b: "b = c # cs" using assms(2) by (cases b) auto
  have i: "drop i data = c # (cs @ 13 # 10 # rest)" using assms(1) b by simp
  have i1: "drop (i + length b) data = 13 # 10 # rest" using drop_at [OF assms(1)] .
  have i2: "drop (i + length b + 1) data = 10 # rest" using drop_Cons [OF i1] by simp
  have last: "i + length b - 1 + 1 = i + length b" "i \<le> i + length b - 1" using b by simp_all
  have E0: "exec_switch strict settings data (here (counted q 0) s_chunk_data i nomarks (Some t) c) =
      Inr (Break, here (counted ?q0 0) s_chunk_data_almost_done (i + length b - 1) ?mk (Some t) c)"
    using assms(2-5) by (simp add: take_body_all [OF assms(1)] exec_switch_def exec_chunk_data_def check_def body_length_ok_def step_simps)
  have "runs strict settings data (at q 0 s_chunk_data i nomarks (Some t)) (at ?q0 0 s_chunk_data_almost_done (i + length b) ?mk (Some t))"
    using body_step [OF i _ E0] last by (simp add: PARSING_HEADER_def)
  moreover
  have taken: "take (length b) (drop i data) = b" using assms(1) by simp
  have E1: "exec_switch strict settings data (here (counted ?q0 0) s_chunk_data_almost_done (i + length b) ?mk (Some t) 13) =
      Inr (Break, here (counted (?q0\<lparr>pstate := s_chunk_data_done\<rparr>) 0) s_chunk_data_done (i + length b) nomarks (Some (on_body b t)) 13)"
    using assms(5,6) drop_Cons [OF i1] taken
    by (simp add: exec_switch_def exec_chunk_data_def check_def step_simps CALLBACK_DATA_def on_part)
  have "runs strict settings data (at ?q0 0 s_chunk_data_almost_done (i + length b) ?mk (Some t))
      (at (?q0\<lparr>pstate := s_chunk_data_done\<rparr>) 0 s_chunk_data_done (i + length b + 1) nomarks (Some (on_body b t)))"
    by (rule body_step [OF i1 _ E1]) (simp_all add: PARSING_HEADER_def)
  moreover
  have E2: "exec_switch strict settings data (here (counted (?q0\<lparr>pstate := s_chunk_data_done\<rparr>) 0) s_chunk_data_done (i + length b + 1) nomarks (Some (on_body b t)) 10) =
      Inr (Break, here (counted (?q0\<lparr>pstate := s_chunk_size_start\<rparr>) 0) s_chunk_size_start (i + length b + 1) nomarks (Some (on_body b t)) 10)"
    using assms(5,6) by (simp add: exec_switch_def exec_chunk_data_def check_def step_simps CALLBACK_NOTIFY_def chunk_notify)
  have "runs strict settings data (at (?q0\<lparr>pstate := s_chunk_data_done\<rparr>) 0 s_chunk_data_done (i + length b + 1) nomarks (Some (on_body b t)))
      (at (?q0\<lparr>pstate := s_chunk_size_start\<rparr>) 0 s_chunk_size_start (i + length b + 2) nomarks (Some (on_body b t)))"
    using body_step [OF i2 _ E2] by (simp add: PARSING_HEADER_def)
  ultimately show ?thesis by (meson runs_trans)
qed

text \<open>What the chunks leave as it is.\<close>

definition same_body :: "http_parser \<Rightarrow> http_parser \<Rightarrow> bool" where
  "same_body q q' \<longleftrightarrow> same_line q q' \<and> flags q' = flags q \<and> upgrade q' = upgrade q"

lemma run_chunk:
  assumes "drop i data = chunk_text c @ rest" and "chunk_ok c" and "flags q F_CHUNKED" and "http_errno q = HPE_OK"
  shows "\<exists>q'. same_body q q' \<and> runs strict settings data (at q 0 s_chunk_size_start i nomarks (Some t))
    (at q' 0 s_chunk_size_start (i + length (chunk_text c)) nomarks (Some (on_body (snd c) t)))"
proof -
  obtain ds b where c: "c = (ds, b)" by (cases c)
  have ok: "hex_digits ds" "b \<noteq> []" "hex_number ds = length b" using assms(2) c by (auto simp: chunk_ok_def)
  have i: "drop i data = ds @ 13 # 10 # (b @ 13 # 10 # rest)" using assms(1) c by (simp add: chunk_text_def)
  have i1: "drop (i + length ds + 2) data = b @ 13 # 10 # rest"
    using drop_Cons [OF conjunct1 [OF drop_Cons [OF drop_at [OF i]]]] by simp
  let ?q1 = "q\<lparr>content_length := length b, pstate := s_chunk_data\<rparr>"
  let ?q2 = "q\<lparr>content_length := 0, pstate := s_chunk_size_start\<rparr>"
  have "runs strict settings data (at q 0 s_chunk_size_start i nomarks (Some t)) (at ?q1 0 s_chunk_data (i + length ds + 2) nomarks (Some t))"
    using run_chunk_size [OF i ok(1) assms(3,4), of s_chunk_data strict t] ok(2,3) by (simp add: sized_def)
  moreover have "runs strict settings data (at ?q1 0 s_chunk_data (i + length ds + 2) nomarks (Some t))
      (at ?q2 0 s_chunk_size_start (i + length ds + 2 + length b + 2) nomarks (Some (on_body b t)))"
    using run_chunk_data [OF i1 ok(2), of ?q1 strict t] ok assms(3,4) by (simp add: hex_digits_def)
  moreover have "length (chunk_text c) = length ds + 2 + length b + 2" using c by (simp add: chunk_text_def)
  ultimately show ?thesis
    using c by (intro exI [of _ ?q2] conjI) (simp_all add: same_body_def same_line_def add.assoc, blast intro: runs_trans)
qed

lemma run_chunks:
  "drop i data = concat (map chunk_text cs) @ rest \<Longrightarrow> (\<forall>c \<in> set cs. chunk_ok c) \<Longrightarrow> flags q F_CHUNKED \<Longrightarrow> http_errno q = HPE_OK \<Longrightarrow>
   \<exists>q'. same_body q q' \<and> runs strict settings data (at q 0 s_chunk_size_start i nomarks (Some t))
    (at q' 0 s_chunk_size_start (i + length (concat (map chunk_text cs))) nomarks (Some (fold on_body (map snd cs) t)))"
proof (induction cs arbitrary: i q t)
  case Nil
  then show ?case by (intro exI [of _ q]) (simp add: runs.here same_body_def same_line_def)
next
  case (Cons c cs)
  have i: "drop i data = chunk_text c @ (concat (map chunk_text cs) @ rest)" using Cons.prems(1) by simp
  obtain q1 where q1: "same_body q q1" "runs strict settings data (at q 0 s_chunk_size_start i nomarks (Some t))
      (at q1 0 s_chunk_size_start (i + length (chunk_text c)) nomarks (Some (on_body (snd c) t)))"
    using run_chunk [OF i _ Cons.prems(3,4), of strict t] Cons.prems(2) by auto
  obtain q2 where q2: "same_body q1 q2" "runs strict settings data (at q1 0 s_chunk_size_start (i + length (chunk_text c)) nomarks (Some (on_body (snd c) t)))
      (at q2 0 s_chunk_size_start (i + length (chunk_text c) + length (concat (map chunk_text cs))) nomarks
        (Some (fold on_body (map snd cs) (on_body (snd c) t))))"
    using Cons.IH [OF drop_at [OF i], of q1 "on_body (snd c) t"] Cons.prems q1(1) by (auto simp: same_body_def same_line_def)
  show ?case
    using q1(1) q2(1) runs_trans [OF q1(2) q2(2)]
    by (intro exI [of _ q2]) (simp add: same_body_def same_line_def add.assoc)
qed

text \<open>The chunk of size zero and the empty line after it.\<close>

lemma run_last_chunk:
  assumes "drop i data = zs @ [13, 10, 13, 10] @ rest" and "hex_digits zs" and "hex_number zs = 0"
    and "flags q F_CHUNKED" and "http_errno q = HPE_OK" and "length (m_pieces t) mod 2 = 0"
  shows "\<exists>s'. returns strict settings data (at q 0 s_chunk_size_start i nomarks (Some t)) (i + length zs + 4) s' \<and>
    finished_message strict q (complete_msg (upgrade q) (keep_alive (http_major q) (http_minor q) (flags q)) t) s'"
proof -
  let ?j = "i + length zs + 2"
  let ?q1 = "sized q 0 s_header_field_start"
  let ?q2 = "?q1\<lparr>pstate := s_message_done\<rparr>"
  have four: "n + 4 = Suc (Suc (Suc (Suc n)))" for n by simp
  have i: "drop i data = zs @ 13 # 10 # (13 # 10 # rest)" using assms(1) by simp
  have j: "drop ?j data = 13 # 10 # rest" using drop_Cons [OF conjunct1 [OF drop_Cons [OF drop_at [OF i]]]] by simp
  have j1: "drop (?j + 1) data = 10 # rest" using drop_Cons [OF j] by simp
  have r1: "runs strict settings data (at q 0 s_chunk_size_start i nomarks (Some t)) (at ?q1 0 s_header_field_start ?j nomarks (Some t))"
    using run_chunk_size [OF i assms(2,4,5), of s_header_field_start strict t] assms(3) by simp
  have E: "exec_switch strict settings data (here (counted ?q1 (0 + 1)) s_header_field_start ?j nomarks (Some t) 13) =
      Inr (Break, here (counted ?q1 1) s_headers_almost_done ?j nomarks (Some t) 13)"
    by (simp add: exec_switch_def exec_header_field_start_def step_simps)
  have r2: "runs strict settings data (at ?q1 0 s_header_field_start ?j nomarks (Some t)) (at ?q1 1 s_headers_almost_done (?j + 1) nomarks (Some t))"
    by (rule head_step [OF j _ _ E]) (simp_all add: PARSING_HEADER_def)
  have "exec_switch strict settings data (here (counted ?q1 2) s_headers_almost_done (?j + 1) nomarks (Some t) 10) =
      Inr (Reexecute, here (counted ?q2 2) s_message_done (?j + 1) nomarks (Some t) 10)"
    using assms(5) by (simp add: exec_switch_def exec_headers_almost_done_def step_simps sized_def CALLBACK_NOTIFY_NOADVANCE_def chunk_notify)
  note again = reexecute_again [OF this, of 7]
  have "\<not> http_message_needs_eof (counted ?q2 2)" using assms(4) by (simp add: needs_eof_iff sized_def)
  then obtain s' where s': "exec_switch strict settings data (here (counted ?q2 2) s_message_done (?j + 1) nomarks (Some t) 10) =
      Inr (Return (?j + 1 + 1), s')"
    "finished_message strict (counted ?q2 2) (complete_msg (upgrade ?q2) (keep_alive (http_major ?q2) (http_minor ?q2) (flags ?q2)) t) s'"
    using message_done_switch [of "counted ?q2 2" t strict data "?j + 1" nomarks 10] assms(5,6) by (auto simp: sized_def)
  have "exec_byte strict settings data (at ?q1 1 s_headers_almost_done (?j + 1) nomarks (Some t)) = Inr (Return (i + length zs + 4), s')"
    using again reexecute_now [OF s'(1), of 6] drop_Cons [OF j1]
      exec_byte_head [of 1 s_headers_almost_done strict settings data ?q1 "?j + 1" nomarks "Some t"]
    by (simp add: PARSING_HEADER_def numeral_2_eq_2 four del: reexecute.simps)
  then have "returns strict settings data (at q 0 s_chunk_size_start i nomarks (Some t)) (i + length zs + 4) s'"
    using drop_Cons [OF j1] by (intro returns_runs [OF runs_trans [OF r1 r2]] returns_now) (simp_all add: at_def)
  moreover have "finished_message strict q (complete_msg (upgrade q) (keep_alive (http_major q) (http_minor q) (flags q)) t) s'"
  proof -
    have "keep_alive (http_major ?q2) (http_minor ?q2) (flags ?q2) = keep_alive (http_major q) (http_minor q) (flags q)"
      and "upgrade ?q2 = upgrade q" by (simp_all add: keep_alive_def sized_def)
    moreover have "finished_message strict (counted ?q2 2) t' s' = finished_message strict q t' s'" for t'
      by (simp add: finished_message_def sized_def)
    ultimately show ?thesis using s'(2) by simp
  qed
  ultimately show ?thesis by blast
qed

lemma on_body_pieces [simp]: "m_pieces (on_body b t) = m_pieces t" "m_pieces (fold on_body bs t) = m_pieces t"
proof -
  show one: "m_pieces (on_body b t) = m_pieces t" for b t by (simp add: on_body_def)
  show "m_pieces (fold on_body bs t) = m_pieces t" by (induction bs arbitrary: t) (simp_all add: one)
qed

lemma run_chunked_body:
  assumes "drop i data = 13 # 10 # concat (map chunk_text cs) @ zs @ [13, 10, 13, 10] @ rest" and "k + 2 \<le> head_limit"
    and "http_errno q = HPE_OK" and "pending q st (l, f)" and "length (m_pieces t) mod 2 = 0" and "\<not> f F_TRAILING" and "\<not> f F_SKIPBODY"
    and "method q \<noteq> HTTP_CONNECT" and "f F_CHUNKED" and "\<forall>c \<in> set cs. chunk_ok c" and "hex_digits zs" and "hex_number zs = 0"
  shows "\<exists>s'. returns strict settings data (at q k st i nomarks (Some t)) (i + 2 + length (concat (map chunk_text cs)) + length zs + 4) s' \<and>
    finished_message strict q (close_msg q f (fold on_body (map snd cs) (head_complete q t))) s'"
proof -
  obtain q1 where r1: "runs strict settings data (at q k st i nomarks (Some t)) (at q1 0 s_chunk_size_start (i + 2) nomarks (Some (head_complete q t)))"
    and q1: "same_line q q1" "framing q1 = (l, f)" "upgrade q1 = upgraded q f"
    using run_to_body [OF assms(1-4,6-8), of s_chunk_size_start strict t] assms(9) by auto
  have d: "drop (i + 2) data = concat (map chunk_text cs) @ zs @ [13, 10, 13, 10] @ rest"
    using drop_Cons [OF conjunct1 [OF drop_Cons [OF assms(1)]]] by simp
  obtain q2 where q2: "same_body q1 q2"
    and r2: "runs strict settings data (at q1 0 s_chunk_size_start (i + 2) nomarks (Some (head_complete q t)))
      (at q2 0 s_chunk_size_start (i + 2 + length (concat (map chunk_text cs))) nomarks (Some (fold on_body (map snd cs) (head_complete q t))))"
    using run_chunks [OF d assms(10), of q1 strict "head_complete q t"] q1 assms(3,9) by (auto simp: same_line_def framing_def)
  have q: "same_line q q2" "upgrade q2 = upgraded q f" "flags q2 = f" "http_errno q2 = HPE_OK"
    using q1 q2 assms(3) by (auto simp: same_body_def same_line_def framing_def)
  obtain s' where s': "returns strict settings data (at q2 0 s_chunk_size_start (i + 2 + length (concat (map chunk_text cs))) nomarks
      (Some (fold on_body (map snd cs) (head_complete q t)))) (i + 2 + length (concat (map chunk_text cs)) + length zs + 4) s'"
    "finished_message strict q2 (complete_msg (upgrade q2) (keep_alive (http_major q2) (http_minor q2) (flags q2))
      (fold on_body (map snd cs) (head_complete q t))) s'"
    using run_last_chunk [OF drop_at [OF d] assms(11,12), of q2 "fold on_body (map snd cs) (head_complete q t)" strict] q assms(5,9) by auto
  show ?thesis
    using returns_runs [OF runs_trans [OF r1 r2] s'(1)] finished_same_line [OF q(1) s'(2)] close_same_line [OF q(1,2)] q(3) by auto
qed

end
