(* ===== verification/Http_Text.thy ===== *)
theory Http_Text
  imports Http_Lines Http_Chunks
begin

text \<open>
  The texts of requests and responses, and the message \<open>execute\<close> assembles from them: the parser undoes the
  printing of a message.
\<close>

section \<open>Bodies\<close>

text \<open>A body as it stands, or chunks, each with its size, and the final size zero.\<close>

datatype payload = Plain bytes | Chunks "(bytes \<times> bytes) list" bytes

fun payload_text :: "payload \<Rightarrow> bytes" where
  "payload_text (Plain b) = b"
| "payload_text (Chunks cs z) = concat (map chunk_text cs) @ z @ [13, 10, 13, 10]"

fun payload_bytes :: "payload \<Rightarrow> bytes" where
  "payload_bytes (Plain b) = b"
| "payload_bytes (Chunks cs z) = concat (map snd cs)"

text \<open>
  The body fits what the headers say; \<open>bare\<close> is a message that has no body without a length. The parser takes
  no body for \<open>CONNECT\<close>.
\<close>

fun payload_ok :: "http_method \<Rightarrow> bool \<Rightarrow> framing \<Rightarrow> payload \<Rightarrow> bool" where
  "payload_ok m bare (l, f) (Plain b) \<longleftrightarrow> \<not> f F_CHUNKED \<and>
     (if b = [] then m = HTTP_CONNECT \<and> (bare \<or> l \<noteq> ULLONG_MAX) \<or> l = 0 \<or> l = ULLONG_MAX \<and> bare
      else l = length b \<and> l \<noteq> ULLONG_MAX \<and> m \<noteq> HTTP_CONNECT)"
| "payload_ok m bare (l, f) (Chunks cs z) \<longleftrightarrow> f F_CHUNKED \<and> m \<noteq> HTTP_CONNECT \<and> (\<forall>c \<in> set cs. chunk_ok c) \<and>
     hex_digits z \<and> hex_number z = 0"

definition with_body :: "bytes \<Rightarrow> http_msg \<Rightarrow> http_msg" where
  "with_body b t = (if b = [] then t else t\<lparr>m_body := Some b\<rparr>)"

lemma fold_on_body: "fold on_body bs t = t\<lparr>m_body := foldl concat_field (m_body t) bs\<rparr>"
  by (induction bs arbitrary: t) (simp_all add: on_body_def)

lemma fold_chunks:
  assumes "m_body t = None" and "\<forall>c \<in> set cs. chunk_ok c"
  shows "fold on_body (map snd cs) t = with_body (concat (map snd cs)) t"
proof -
  have "concat (map snd cs) = [] \<longleftrightarrow> cs = []" using assms(2) by (cases cs) (auto simp: chunk_ok_def)
  moreover have "t\<lparr>m_body := None\<rparr> = t" using assms(1) by (cases t) simp
  ultimately show ?thesis using assms(1) by (auto simp: fold_on_body foldl_concat with_body_def)
qed

definition bare :: "http_parser \<Rightarrow> bool" where
  "bare q \<longleftrightarrow> parser_type q = HTTP_REQUEST \<or> status_code q div 100 = 1 \<or> status_code q = 204 \<or> status_code q = 304"

lemma message_end:
  assumes "drop i data = 13 # 10 # payload_text pl @ rest" and "k + 2 \<le> head_limit" and "http_errno q = HPE_OK" and "pending q st (l, f)"
    and "length (m_pieces t) mod 2 = 0" and "\<not> f F_TRAILING" and "\<not> f F_SKIPBODY" and "payload_ok (method q) (bare q) (l, f) pl"
    and "m_body t = None"
  shows "\<exists>s'. returns strict settings data (at q k st i nomarks (Some t)) (i + 2 + length (payload_text pl)) s' \<and>
    finished_message strict q (close_msg q f (with_body (payload_bytes pl) (head_complete q t))) s'"
proof (cases pl)
  case (Plain b)
  show ?thesis
  proof (cases "b = []")
    case True
    have "\<not> needs_eof q (l, f)"
      using assms(8) True Plain by (auto simp: needs_eof_def needs_eof_iff bare_def)
    then show ?thesis
      using run_no_body [OF _ assms(2-7), where strict = strict and data = data and rest = rest] assms(1,8) True Plain
      by (auto simp: with_body_def)
  next
    case False
    have "m_body (head_complete q t) = None" using assms(9) by (simp add: head_complete_def on_headers_complete_def Let_def)
    then have "on_body b (head_complete q t) = with_body b (head_complete q t)" using False by (simp add: on_body_def with_body_def)
    then show ?thesis
      using run_plain_body [OF _ assms(2-7), where strict = strict and data = data and rest = rest and b = b] assms(1,8) False Plain by auto
  qed
next
  case (Chunks cs z)
  have six: "6 + n = Suc (Suc (Suc (Suc (Suc (Suc n)))))" for n by simp
  have "m_body (head_complete q t) = None" using assms(9) by (simp add: head_complete_def on_headers_complete_def Let_def)
  then have "fold on_body (map snd cs) (head_complete q t) = with_body (concat (map snd cs)) (head_complete q t)"
    using fold_chunks assms(8) Chunks by auto
  then show ?thesis
    using run_chunked_body [OF _ assms(2-7), where strict = strict and data = data and rest = rest and cs = cs and zs = z] assms(1,8) Chunks
    by (auto simp: add.assoc six)
qed

section \<open>Headers\<close>

definition headers_framing :: "(bytes \<times> bytes) list \<Rightarrow> framing" where
  "headers_framing hs = fold apply_header hs (ULLONG_MAX, \<lambda>_. False)"

lemma apply_header_flags: "snd (apply_header h fr) g \<Longrightarrow> g \<noteq> F_TRAILING \<and> g \<noteq> F_SKIPBODY \<or> snd fr g"
  by (cases h; cases fr) (auto simp: apply_header_def name_kind_def split: if_splits)

lemma headers_flags:
  assumes "g = F_TRAILING \<or> g = F_SKIPBODY"
  shows "\<not> snd (headers_framing hs) g"
proof -
  have one: "snd (apply_header h fr) g \<Longrightarrow> snd fr g" for h fr using assms apply_header_flags by blast
  have "snd (fold apply_header hs fr) g \<Longrightarrow> snd fr g" for fr
    by (induction hs arbitrary: fr) (simp, metis one fold_simps(2))
  then show ?thesis by (fastforce simp: headers_framing_def)
qed

definition headers_text :: "(bytes \<times> bytes) list \<Rightarrow> bytes" where
  "headers_text hs = concat (map header_text hs)"

lemma run_head_end:
  assumes "drop i data = headers_text hs @ 13 # 10 # payload_text pl @ rest" and "k + length (headers_text hs) + 2 \<le> head_limit"
    and "\<forall>h \<in> set hs. header_ok h" and "http_errno q = HPE_OK" and "framing q = (ULLONG_MAX, \<lambda>_. False)" and "m_pieces t = []"
    and "m_body t = None" and "payload_ok (method q) (bare q) (headers_framing hs) pl"
  shows "\<exists>s'. returns strict settings data (at q k s_header_field_start i nomarks (Some t))
      (i + length (headers_text hs) + 2 + length (payload_text pl)) s' \<and>
    finished_message strict q (close_msg q (snd (headers_framing hs)) (with_body (payload_bytes pl)
      (head_complete q (t\<lparr>m_pieces := concat (map (\<lambda>(n, v). [n, v]) hs)\<rparr>)))) s'"
proof -
  obtain l f where lf: "headers_framing hs = (l, f)" by (cases "headers_framing hs")
  let ?t = "t\<lparr>m_pieces := concat (map (\<lambda>(n, v). [n, v]) hs)\<rparr>"
  have "pending q s_header_field_start (ULLONG_MAX, \<lambda>_. False)" using assms(5) by (simp add: pending_def)
  then obtain q' st' where r: "runs strict settings data (at q k s_header_field_start i nomarks (Some t))
      (at q' (k + length (headers_text hs)) st' (i + length (headers_text hs)) nomarks (Some ?t))"
    and q': "same_line q q'" "pending q' st' (l, f)"
    using run_header_lines [of i data hs "13 # 10 # payload_text pl @ rest" k q s_header_field_start "(ULLONG_MAX, \<lambda>_. False)" t strict]
      assms(1-4,6) lf by (auto simp: headers_text_def headers_framing_def)
  have even: "length (m_pieces ?t) mod 2 = 0" by (induction hs) auto
  have line: "bare q' = bare q" "method q' = method q" "http_errno q' = HPE_OK" "head_complete q' t' = head_complete q t'"
    "close_msg q' f t' = close_msg q f t'" for t'
    using q'(1) assms(4) same_line_head [OF q'(1)] by (simp_all add: same_line_def bare_def close_msg_def upgraded_def)
  obtain s' where s': "returns strict settings data (at q' (k + length (headers_text hs)) st' (i + length (headers_text hs)) nomarks (Some ?t))
      (i + length (headers_text hs) + 2 + length (payload_text pl)) s'"
    "finished_message strict q' (close_msg q f (with_body (payload_bytes pl) (head_complete q ?t))) s'"
    using message_end [OF drop_at [OF assms(1)] _ line(3) q'(2) even, where strict = strict and k = "k + length (headers_text hs)"] assms(2,7,8) headers_flags [of _ hs] lf line by auto
  show ?thesis using returns_runs [OF r s'(1)] finished_same_line [OF q'(1) s'(2)] lf by auto
qed

section \<open>Execute on a text\<close>

text \<open>A parser between two messages; a chunked message leaves a count of two bytes behind.\<close>

definition ready :: "http_parser_type \<Rightarrow> state \<Rightarrow> http_parser \<Rightarrow> bool" where
  "ready ty st q \<longleftrightarrow> http_errno q = HPE_OK \<and> pstate q = st \<and> parser_type q = ty \<and> nread q \<le> 2"

lemma lparser_execute_returns:
  assumes "returns strict settings (drop (unat from) data) (at q (nread q) (pstate q) 0 nomarks (Some t)) n s'"
    and "finished_message strict q0 t' s'" and "parser_type q0 = parser_type q" and "http_errno q = HPE_OK" and "unat from \<le> length data"
    and "initial_marks (pstate q) = nomarks"
  shows "\<exists>q'. lparser_execute strict q data from t = Inr ((n, None), q', t') \<and> http_errno q' = HPE_OK \<and>
    parser_type q' = parser_type q \<and> method q' = method q0 \<and> nread q' \<le> 2 \<and>
    pstate q' = (if strict \<and> m_keepalive t' = Some False then s_dead else start_state q')"
proof -
  have "at q (nread q) (pstate q) 0 nomarks (Some t) = here q (pstate q) 0 (initial_marks (pstate q)) (Some t) 0"
    using assms(6) by (simp add: at_def counted_nread)
  then have "http_parser_execute strict settings q (drop (unat from) data) (Some t) = Inr (n, px s', Some t')"
    using assms(1-4) runs_execute [of strict settings "drop (unat from) data" q "Some t"]
    by (auto simp: returns_def finished_message_def)
  then show ?thesis
    using assms(2,3,5)
    by (auto simp: lparser_execute_def http_parser_pause_def finished_message_def NEW_MESSAGE_def start_state_def)
qed

section \<open>Requests\<close>

record request =
  r_method :: http_method
  r_url :: bytes
  r_major :: nat
  r_minor :: nat
  r_headers :: "(bytes \<times> bytes) list"
  r_payload :: payload

definition request_head :: "request \<Rightarrow> bytes" where
  "request_head r = method_text (r_method r) @ [32] @ r_url r @ [32] @ version_text (r_major r) (r_minor r) @ [13, 10] @
     headers_text (r_headers r) @ [13, 10]"

definition request_text :: "request \<Rightarrow> bytes" where
  "request_text r = request_head r @ payload_text (r_payload r)"

definition request_ok :: "bool \<Rightarrow> request \<Rightarrow> bool" where
  "request_ok strict r \<longleftrightarrow> url_ok strict (r_method r) (r_url r) \<and> 0 < r_major r \<and> r_major r < 10 \<and> r_minor r < 10 \<and>
     (\<forall>h \<in> set (r_headers r). header_ok h) \<and> payload_ok (r_method r) True (headers_framing (r_headers r)) (r_payload r) \<and>
     length (request_head r) + 2 \<le> head_limit"

definition request_msg :: "request \<Rightarrow> http_msg" where
  "request_msg r = (let f = snd (headers_framing (r_headers r)); b = payload_bytes (r_payload r) in
     \<lparr>m_pieces = [], m_is_request = Some True, m_method = Some (method_text (r_method r)), m_request_url = Some (r_url r),
      m_status = None, m_status_code = None, m_headers = Some (map_of (rev (r_headers r))), m_body = (if b = [] then None else Some b),
      m_keepalive = Some (keep_alive (r_major r) (r_minor r) f),
      m_upgrade = (if f F_UPGRADE \<and> f F_CONNECTION_UPGRADE \<or> r_method r = HTTP_CONNECT then Some True else None),
      m_http_major = Some (r_major r), m_http_minor = Some (r_minor r), m_complete = Some True\<rparr>)"

lemma run_request_line:
  assumes "drop i data = method_text m @ 32 # url @ 32 # version_text major minor @ [13, 10] @ rest"
    and "k + length (method_text m) + length url + 12 \<le> head_limit" and "http_errno q = HPE_OK" and "url_ok strict m url"
    and "0 < major" and "major < 10" and "minor < 10"
  shows "runs strict settings data (at q k s_start_req i nomarks (Some t))
    (at (q\<lparr>flags := \<lambda>_. False, content_length := ULLONG_MAX, method := m, index := length (method_text m) + 1,
         pstate := s_req_http_start, http_major := major, http_minor := minor\<rparr>)
      (k + length (method_text m) + 1 + length url + 1 + 10) s_header_field_start
      (i + length (method_text m) + 1 + length url + 1 + 10) nomarks (Some (on_url url (on_message_begin t))))"
proof -
  let ?n = "length (method_text m) + 1"
  let ?q1 = "q\<lparr>flags := \<lambda>_. False, content_length := ULLONG_MAX, pstate := s_req_method, method := m, index := ?n\<rparr>"
  let ?q2 = "?q1\<lparr>pstate := s_req_http_start\<rparr>"
  have r1: "runs strict settings data (at q k s_start_req i nomarks (Some t))
      (at ?q1 (k + length (method_text m) + 1) s_req_spaces_before_url (i + length (method_text m) + 1) nomarks (Some (on_message_begin t)))"
    using run_request_start [OF assms(1) _ assms(3), of k strict t] assms(2) by simp
  have i1: "drop (i + length (method_text m) + 1) data = url @ 32 # version_text major minor @ [13, 10] @ rest"
    using drop_Cons [OF drop_at [OF assms(1)]] by simp
  have r2: "runs strict settings data
      (at ?q1 (k + length (method_text m) + 1) s_req_spaces_before_url (i + length (method_text m) + 1) nomarks (Some (on_message_begin t)))
      (at ?q2 (k + length (method_text m) + 1 + length url + 1) s_req_http_start (i + length (method_text m) + 1 + length url + 1) nomarks
        (Some (on_url url (on_message_begin t))))"
    using run_request_url [OF i1, of "k + length (method_text m) + 1" strict ?q1 "on_message_begin t"] assms(2,3,4) by simp
  have i2: "drop (i + length (method_text m) + 1 + length url + 1) data = version_text major minor @ [13, 10] @ rest"
    using drop_Cons [OF drop_at [OF i1]] by simp
  show ?thesis
    using runs_trans [OF runs_trans [OF r1 r2] run_version [OF i2 _ assms(5,6,7)]] assms(2) by simp
qed

text \<open>The table when the message is complete.\<close>

lemma request_msg_complete:
  assumes "method q = r_method r" and "http_major q = r_major r" and "http_minor q = r_minor r"
  shows "close_msg q (snd (headers_framing (r_headers r))) (with_body (payload_bytes (r_payload r))
    (head_complete q ((on_url (r_url r) (on_message_begin empty_msg))\<lparr>m_pieces := concat (map (\<lambda>(n, v). [n, v]) (r_headers r))\<rparr>))) =
   request_msg r"
  using assms
  by (simp add: close_msg_def complete_msg_def with_body_def head_complete_def on_headers_complete_def on_url_def on_message_begin_def
      empty_msg_def request_msg_def Let_def parser_info_of_def upgraded_def method_text_def compose_headers_map)

lemma request_returns:
  assumes "request_ok strict r" and "ready HTTP_REQUEST s_start_req q" and "drop i data = request_text r @ rest"
  shows "\<exists>s' q'. returns strict settings data (at q (nread q) s_start_req i nomarks (Some empty_msg)) (i + length (request_text r)) s' \<and>
    finished_message strict q' (request_msg r) s' \<and> parser_type q' = parser_type q"
proof -
  let ?m = "method_text (r_method r)"
  let ?tail = "headers_text (r_headers r) @ 13 # 10 # payload_text (r_payload r) @ rest"
  have q: "http_errno q = HPE_OK" "nread q \<le> 2" "parser_type q = HTTP_REQUEST" using assms(2) by (auto simp: ready_def)
  have len: "length (request_head r) = length ?m + 1 + length (r_url r) + 1 + 10 + length (headers_text (r_headers r)) + 2"
    by (simp add: request_head_def version_text_def)
  have ok: "url_ok strict (r_method r) (r_url r)" "0 < r_major r" "r_major r < 10" "r_minor r < 10" "\<forall>h \<in> set (r_headers r). header_ok h"
    "payload_ok (r_method r) True (headers_framing (r_headers r)) (r_payload r)" "length (request_head r) + 2 \<le> head_limit"
    using assms(1) by (auto simp: request_ok_def)
  have i: "drop i data = ?m @ 32 # r_url r @ 32 # version_text (r_major r) (r_minor r) @ [13, 10] @ ?tail"
    using assms(3) by (simp add: request_text_def request_head_def)
  let ?q = "q\<lparr>flags := \<lambda>_. False, content_length := ULLONG_MAX, method := r_method r, index := length ?m + 1,
    pstate := s_req_http_start, http_major := r_major r, http_minor := r_minor r\<rparr>"
  let ?t = "on_url (r_url r) (on_message_begin empty_msg)"
  let ?k = "nread q + length ?m + 1 + length (r_url r) + 1 + 10"
  let ?i = "i + length ?m + 1 + length (r_url r) + 1 + 10"
  have r: "runs strict settings data (at q (nread q) s_start_req i nomarks (Some empty_msg)) (at ?q ?k s_header_field_start ?i nomarks (Some ?t))"
    by (rule run_request_line [OF i _ q(1) ok(1-4)]) (use len ok(7) q(2) in simp)
  have "i + length (?m @ 32 # r_url r @ 32 # version_text (r_major r) (r_minor r) @ [13, 10]) = ?i" by (simp add: version_text_def)
  moreover have "drop (i + length (?m @ 32 # r_url r @ 32 # version_text (r_major r) (r_minor r) @ [13, 10])) data = ?tail"
    by (rule drop_at) (simp add: i)
  ultimately have i3: "drop ?i data = ?tail" by metis
  obtain s' where s': "returns strict settings data (at ?q ?k s_header_field_start ?i nomarks (Some ?t))
      (?i + length (headers_text (r_headers r)) + 2 + length (payload_text (r_payload r))) s'"
    "finished_message strict ?q (close_msg ?q (snd (headers_framing (r_headers r))) (with_body (payload_bytes (r_payload r))
      (head_complete ?q (?t\<lparr>m_pieces := concat (map (\<lambda>(n, v). [n, v]) (r_headers r))\<rparr>)))) s'"
    using run_head_end [OF i3, of ?k ?q ?t strict] len ok(5,6,7) q
    by (auto simp: framing_def bare_def on_url_def on_message_begin_def empty_msg_def)
  have "finished_message strict ?q (request_msg r) s'" using s'(2) request_msg_complete [of ?q r] by simp
  moreover have "i + length (request_text r) = ?i + length (headers_text (r_headers r)) + 2 + length (payload_text (r_payload r))"
    using len by (simp add: request_text_def)
  ultimately show ?thesis
    using returns_runs [OF r s'(1)] by (intro exI [of _ s'] exI [of _ ?q]) (simp add: ac_simps)
qed

lemma request_execute:
  assumes "request_ok strict r" and "ready HTTP_REQUEST s_start_req q" and "length pre < 2 ^ 64"
  shows "\<exists>q'. lparser_execute strict q (pre @ request_text r @ rest) (of_nat (length pre)) empty_msg =
      Inr ((length (request_text r), None), q', request_msg r) \<and>
    ready HTTP_REQUEST (if strict \<and> m_keepalive (request_msg r) = Some False then s_dead else s_start_req) q'"
proof -
  let ?data = "pre @ request_text r @ rest"
  have from_pre: "unat (of_nat (length pre) :: 64 word) = length pre" using assms(3) by (simp add: unat_of_nat)
  have q: "http_errno q = HPE_OK" "pstate q = s_start_req" "parser_type q = HTTP_REQUEST" using assms(2) by (auto simp: ready_def)
  have "drop 0 (drop (length pre) ?data) = request_text r @ rest" by simp
  from request_returns [OF assms(1,2) this] obtain s' q0
    where "returns strict settings (drop (length pre) ?data) (at q (nread q) s_start_req 0 nomarks (Some empty_msg)) (length (request_text r)) s'"
      "finished_message strict q0 (request_msg r) s'" "parser_type q0 = parser_type q" by auto
  then show ?thesis
    using lparser_execute_returns [of strict "of_nat (length pre)" ?data q empty_msg "length (request_text r)" s' q0 "request_msg r"] q from_pre
    by (auto simp: ready_def start_state_def initial_marks_def split: if_splits)
qed

section \<open>Responses\<close>

record response =
  s_major :: nat
  s_minor :: nat
  s_code :: nat
  s_reason :: bytes
  s_headers :: "(bytes \<times> bytes) list"
  s_payload :: payload

definition response_head :: "response \<Rightarrow> bytes" where
  "response_head r = version_text (s_major r) (s_minor r) @ [32] @
     status_text (s_code r div 100) (s_code r div 10 mod 10) (s_code r mod 10) @ [32] @ s_reason r @ [13, 10] @
     headers_text (s_headers r) @ [13, 10]"

definition response_text :: "response \<Rightarrow> bytes" where
  "response_text r = response_head r @ payload_text (s_payload r)"

definition no_body_status :: "nat \<Rightarrow> bool" where
  "no_body_status c \<longleftrightarrow> c div 100 = 1 \<or> c = 204 \<or> c = 304"

definition response_ok :: "response \<Rightarrow> bool" where
  "response_ok r \<longleftrightarrow> s_major r < 10 \<and> s_minor r < 10 \<and> s_code r < 1000 \<and> s_reason r \<noteq> [] \<and> 13 \<notin> set (s_reason r) \<and>
     10 \<notin> set (s_reason r) \<and> (\<forall>h \<in> set (s_headers r). header_ok h) \<and>
     payload_ok HTTP_GET (no_body_status (s_code r)) (headers_framing (s_headers r)) (s_payload r) \<and>
     length (response_head r) + 2 \<le> head_limit"

definition response_msg :: "response \<Rightarrow> http_msg" where
  "response_msg r = (let f = snd (headers_framing (s_headers r)); b = payload_bytes (s_payload r) in
     \<lparr>m_pieces = [], m_is_request = None, m_method = None, m_request_url = None, m_status = Some (s_reason r),
      m_status_code = Some (s_code r), m_headers = Some (map_of (rev (s_headers r))), m_body = (if b = [] then None else Some b),
      m_keepalive = Some (keep_alive (s_major r) (s_minor r) f),
      m_upgrade = (if f F_UPGRADE \<and> f F_CONNECTION_UPGRADE then Some True else None),
      m_http_major = Some (s_major r), m_http_minor = Some (s_minor r), m_complete = Some True\<rparr>)"

lemma payload_ok_method: "m \<noteq> HTTP_CONNECT \<Longrightarrow> payload_ok m b fr pl \<longleftrightarrow> payload_ok HTTP_GET b fr pl"
  by (cases fr; cases pl) auto

lemma code_digits: "(c div 100 * 10 + c div 10 mod 10) * 10 + c mod 10 = (c :: nat)"
proof -
  have "c div 100 = c div 10 div 10" by (simp add: div_mult2_eq [symmetric])
  then show ?thesis by (metis div_mult_mod_eq)
qed

definition status_line :: "nat \<Rightarrow> nat \<Rightarrow> nat \<Rightarrow> bytes \<Rightarrow> bytes" where
  "status_line major minor c v =
     version_text major minor @ [32] @ status_text (c div 100) (c div 10 mod 10) (c mod 10) @ [32] @ v @ [13, 10]"

lemma run_status_line:
  assumes "drop i data = status_line major minor c v @ rest" and "k + length v + 15 \<le> head_limit" and "http_errno q = HPE_OK"
    and "major < 10" and "minor < 10" and "c < 1000" and "v \<noteq> []" and "13 \<notin> set v" and "10 \<notin> set v"
  shows "runs strict settings data (at q k s_start_res i nomarks (Some t))
    (at (q\<lparr>flags := \<lambda>_. False, content_length := ULLONG_MAX, http_major := major, http_minor := minor, status_code := c,
         index := 0, pstate := s_res_line_almost_done\<rparr>)
      (k + 13 + length v + 2) s_header_field_start (i + 13 + length v + 2) nomarks (Some (on_status v (on_message_begin t))))"
proof -
  let ?status = "status_text (c div 100) (c div 10 mod 10) (c mod 10)"
  let ?q1 = "q\<lparr>flags := \<lambda>_. False, content_length := ULLONG_MAX, pstate := s_res_H\<rparr>"
  let ?q2 = "?q1\<lparr>http_major := major, http_minor := minor, status_code := c\<rparr>"
  have i: "drop i data = 72 # (tl (version_text major minor) @ [32] @ ?status @ [32] @ (v @ 13 # 10 # rest))"
    using assms(1) by (simp add: status_line_def version_text_def)
  have r1: "runs strict settings data (at q k s_start_res i nomarks (Some t)) (at ?q1 (k + 1) s_res_H (i + 1) nomarks (Some (on_message_begin t)))"
    using run_response_start [OF i _ assms(3), of k strict t] assms(2) by simp
  have i1: "drop (i + 1) data = tl (version_text major minor) @ [32] @ ?status @ [32] @ (v @ 13 # 10 # rest)"
    using drop_Cons [OF i] by simp
  have r2: "runs strict settings data (at ?q1 (k + 1) s_res_H (i + 1) nomarks (Some (on_message_begin t)))
      (at ?q2 (k + 13) s_res_status_start (i + 13) nomarks (Some (on_message_begin t)))"
    using run_status [OF i1, of "k + 1" strict settings ?q1 nomarks "Some (on_message_begin t)", unfolded code_digits] assms(2,4,5,6)
    by (simp add: less_mult_imp_div_less add.commute)
  have "length (tl (version_text major minor) @ [32] @ ?status @ [32]) = 12" by (simp add: version_text_def status_text_def)
  then have i2: "drop (i + 13) data = v @ 13 # 10 # rest"
    using drop_at [of "i + 1" data "tl (version_text major minor) @ [32] @ ?status @ [32]" "v @ 13 # 10 # rest"] i1
    by (simp add: add.commute)
  have r3: "runs strict settings data (at ?q2 (k + 13) s_res_status_start (i + 13) nomarks (Some (on_message_begin t)))
      (at (?q2\<lparr>index := 0, pstate := s_res_line_almost_done\<rparr>) (k + 13 + length v + 2) s_header_field_start (i + 13 + length v + 2) nomarks
        (Some (on_status v (on_message_begin t))))"
    using run_reason [OF i2 _ assms(8,9,7), of "k + 13" ?q2 strict "on_message_begin t"] assms(2,3) by simp
  show ?thesis using runs_trans [OF runs_trans [OF r1 r2] r3] by simp
qed

lemma response_msg_complete:
  assumes "method q \<noteq> HTTP_CONNECT" and "http_major q = s_major r" and "http_minor q = s_minor r" and "status_code q = s_code r"
  shows "close_msg q (snd (headers_framing (s_headers r))) (with_body (payload_bytes (s_payload r))
    (head_complete q ((on_status (s_reason r) (on_message_begin empty_msg))\<lparr>m_pieces := concat (map (\<lambda>(n, v). [n, v]) (s_headers r))\<rparr>))) =
   response_msg r"
  using assms
  by (simp add: close_msg_def complete_msg_def with_body_def head_complete_def on_headers_complete_def on_status_def on_message_begin_def
      empty_msg_def response_msg_def Let_def parser_info_of_def upgraded_def compose_headers_map)

lemma response_returns:
  assumes "response_ok r" and "ready HTTP_RESPONSE s_start_res q" and "method q \<noteq> HTTP_CONNECT" and "drop i data = response_text r @ rest"
  shows "\<exists>s' q'. returns strict settings data (at q (nread q) s_start_res i nomarks (Some empty_msg)) (i + length (response_text r)) s' \<and>
    finished_message strict q' (response_msg r) s' \<and> parser_type q' = parser_type q \<and> method q' = method q"
proof -
  let ?tail = "headers_text (s_headers r) @ 13 # 10 # payload_text (s_payload r) @ rest"
  let ?line = "status_line (s_major r) (s_minor r) (s_code r) (s_reason r)"
  have q: "http_errno q = HPE_OK" "nread q \<le> 2" "parser_type q = HTTP_RESPONSE" using assms(2) by (auto simp: ready_def)
  have len: "length (response_head r) = 13 + length (s_reason r) + 2 + length (headers_text (s_headers r)) + 2"
    and line: "length ?line = 13 + length (s_reason r) + 2"
    by (simp_all add: response_head_def status_line_def version_text_def status_text_def)
  have ok: "s_major r < 10" "s_minor r < 10" "s_code r < 1000" "s_reason r \<noteq> []" "13 \<notin> set (s_reason r)" "10 \<notin> set (s_reason r)"
    "\<forall>h \<in> set (s_headers r). header_ok h"
    "payload_ok HTTP_GET (no_body_status (s_code r)) (headers_framing (s_headers r)) (s_payload r)" "length (response_head r) + 2 \<le> head_limit"
    using assms(1) by (auto simp: response_ok_def)
  have i: "drop i data = ?line @ ?tail"
    using assms(4) by (simp add: response_text_def response_head_def status_line_def)
  let ?q = "q\<lparr>flags := \<lambda>_. False, content_length := ULLONG_MAX, http_major := s_major r, http_minor := s_minor r,
    status_code := s_code r, index := 0, pstate := s_res_line_almost_done\<rparr>"
  let ?t = "on_status (s_reason r) (on_message_begin empty_msg)"
  let ?k = "nread q + 13 + length (s_reason r) + 2"
  let ?i = "i + 13 + length (s_reason r) + 2"
  have r: "runs strict settings data (at q (nread q) s_start_res i nomarks (Some empty_msg)) (at ?q ?k s_header_field_start ?i nomarks (Some ?t))"
    by (rule run_status_line [OF i _ q(1) ok(1-6)]) (use len ok(9) q(2) in simp)
  have i3: "drop ?i data = ?tail" using drop_at [OF i] line by (simp add: ac_simps)
  have pl: "payload_ok (method q) (bare ?q) (headers_framing (s_headers r)) (s_payload r)"
    using ok(8) payload_ok_method [OF assms(3)] q(3) by (simp add: bare_def no_body_status_def)
  obtain s' where s': "returns strict settings data (at ?q ?k s_header_field_start ?i nomarks (Some ?t))
      (?i + length (headers_text (s_headers r)) + 2 + length (payload_text (s_payload r))) s'"
    "finished_message strict ?q (close_msg ?q (snd (headers_framing (s_headers r))) (with_body (payload_bytes (s_payload r))
      (head_complete ?q (?t\<lparr>m_pieces := concat (map (\<lambda>(n, v). [n, v]) (s_headers r))\<rparr>)))) s'"
    using run_head_end [OF i3, of ?k ?q ?t strict] len ok(7,9) pl q
    by (auto simp: framing_def on_status_def on_message_begin_def empty_msg_def)
  have "finished_message strict ?q (response_msg r) s'" using s'(2) response_msg_complete [of ?q r] assms(3) by simp
  moreover have "i + length (response_text r) = ?i + length (headers_text (s_headers r)) + 2 + length (payload_text (s_payload r))"
    using len by (simp add: response_text_def)
  ultimately show ?thesis
    using returns_runs [OF r s'(1)] by (intro exI [of _ s'] exI [of _ ?q]) (simp add: ac_simps)
qed

lemma response_execute:
  assumes "response_ok r" and "ready HTTP_RESPONSE s_start_res q" and "method q \<noteq> HTTP_CONNECT" and "length pre < 2 ^ 64"
  shows "\<exists>q'. lparser_execute strict q (pre @ response_text r @ rest) (of_nat (length pre)) empty_msg =
      Inr ((length (response_text r), None), q', response_msg r) \<and> method q' = method q \<and>
    ready HTTP_RESPONSE (if strict \<and> m_keepalive (response_msg r) = Some False then s_dead else s_start_res) q'"
proof -
  let ?data = "pre @ response_text r @ rest"
  have from_pre: "unat (of_nat (length pre) :: 64 word) = length pre" using assms(4) by (simp add: unat_of_nat)
  have q: "http_errno q = HPE_OK" "pstate q = s_start_res" "parser_type q = HTTP_RESPONSE" using assms(2) by (auto simp: ready_def)
  have "drop 0 (drop (length pre) ?data) = response_text r @ rest" by simp
  from response_returns [OF assms(1,2,3) this, of strict] obtain s' q0
    where "returns strict settings (drop (length pre) ?data) (at q (nread q) s_start_res 0 nomarks (Some empty_msg)) (length (response_text r)) s'"
      "finished_message strict q0 (response_msg r) s'" "parser_type q0 = parser_type q" "method q0 = method q" by auto
  then show ?thesis
    using lparser_execute_returns [of strict "of_nat (length pre)" ?data q empty_msg "length (response_text r)" s' q0 "response_msg r"] q from_pre
    by (auto simp: ready_def start_state_def initial_marks_def split: if_splits)
qed

section \<open>Sizes with bytes that are no digits\<close>

text \<open>Sizes in which every byte from 128 on is written as the digit 0.\<close>

definition low_digit :: "byte \<Rightarrow> byte" where
  "low_digit c = (if 128 \<le> c then 48 else c)"

fun low_sizes :: "payload \<Rightarrow> payload" where
  "low_sizes (Plain b) = Plain b"
| "low_sizes (Chunks cs z) = Chunks (map (\<lambda>(ds, b). (map low_digit ds, b)) cs) (map low_digit z)"

lemma unhex_low [simp]: "unhex (low_digit c) = unhex c"
  by (auto simp: low_digit_def unhex_def IS_NUM_def char_codes word_le_nat_alt)

lemma hex_low [simp]: "hex_number (map low_digit ds) = hex_number ds" "hex_digits (map low_digit ds) = hex_digits ds"
  by (simp_all add: hex_number_def hex_digits_def foldl_map)

lemma payload_low [simp]: "payload_ok m b fr (low_sizes pl) = payload_ok m b fr pl" "payload_bytes (low_sizes pl) = payload_bytes pl"
proof -
  have "chunk_ok (map low_digit ds, b) = chunk_ok (ds, b)" for ds b by (simp add: chunk_ok_def)
  then show "payload_ok m b fr (low_sizes pl) = payload_ok m b fr pl" by (cases fr; cases pl) auto
  show "payload_bytes (low_sizes pl) = payload_bytes pl" by (cases pl) (simp_all add: comp_def case_prod_beta)
qed

lemma response_low: "response_ok (r\<lparr>s_payload := low_sizes (s_payload r)\<rparr>) = response_ok r"
    "response_msg (r\<lparr>s_payload := low_sizes (s_payload r)\<rparr>) = response_msg r"
  by (simp_all add: response_ok_def response_head_def response_msg_def Let_def)

end
