(* ===== verification/Http_Methods.thy ===== *)
theory Http_Methods
  imports Http_Lines
begin

text \<open>The methods a request parser accepts are exactly the 27 names of its table.\<close>

section \<open>Scanning\<close>

lemma scan_method_exact:
  "scan_method m i cs = Some m' \<Longrightarrow> i \<le> length (method_strings m) \<Longrightarrow> pre = take i (method_text m) \<Longrightarrow>
   i + length cs \<le> length (method_strings m') \<and> pre @ cs = take (i + length cs) (method_text m')"
proof (induction cs arbitrary: m i pre)
  case (Cons c cs)
  have c: "c \<noteq> 0" using Cons.prems(1) by (auto split: if_splits)
  obtain d where d: "matcher_at (method_strings m) i = Some d" using Cons.prems(1) c by (auto split: option.splits)
  obtain m1 where m1: "scan_method m1 (i + 1) cs = Some m'"
    "c = d \<and> m1 = m \<or> other_method m i c = Some m1" using Cons.prems(1) c d by (auto split: if_splits option.splits)
  have letter: "method_text x ! i = chr (method_strings x ! i)" if "i < length (method_strings x)" for x
    using that by (simp add: method_text_def ascii_def chr_def char_byte_def)
  have "i < length (method_strings m1) \<and> pre @ [c] = take (i + 1) (method_text m1)"
    using m1(2)
  proof
    assume a: "c = d \<and> m1 = m"
    then have "i < length (method_strings m)" using d c Cons.prems(2) by (auto simp: matcher_at_def split: if_splits)
    moreover from this have "c = method_text m ! i" using a d letter by (simp add: matcher_at_def)
    ultimately show ?thesis using a Cons.prems(3) by (simp add: take_Suc_conv_app_nth method_text_def ascii_def)
  next
    assume a: "other_method m i c = Some m1"
    note o = other_method_prefix [OF a]
    then have "take i (method_text m) = take i (method_text m1)" by (simp add: method_text_def ascii_def take_map)
    moreover have "c = method_text m1 ! i" using o letter by simp
    ultimately show ?thesis using o Cons.prems(3) by (simp add: take_Suc_conv_app_nth method_text_def ascii_def)
  qed
  then have "i + 1 + length cs \<le> length (method_strings m') \<and> (pre @ [c]) @ cs = take (i + 1 + length cs) (method_text m')"
    using m1(1) by (intro Cons.IH) auto
  then show ?case by simp
qed (simp add: method_text_def)

lemma method_text_inj: "method_text m = method_text m' \<Longrightarrow> m = m'"
proof -
  assume e: "method_text m = method_text m'"
  obtain f where f: "first_method (hd (method_text m)) = Some f" "scan_method f 1 (tl (method_text m)) = Some m"
    using scan_method_text by blast
  obtain f' where "first_method (hd (method_text m')) = Some f'" "scan_method f' 1 (tl (method_text m')) = Some m'"
    using scan_method_text by blast
  then show ?thesis using e f by simp
qed

section \<open>Failures\<close>

lemma other_method_space: "other_method m i 32 = None"
  by (simp add: other_method_def chr_def char_byte_def)

lemma matcher_letter: "i < length (method_strings m) \<Longrightarrow> \<exists>d. matcher_at (method_strings m) i = Some d \<and> d \<noteq> 0 \<and> d \<noteq> 32"
  using method_letters [of "method_text m ! i" m] by (auto simp: matcher_at_def method_text_def ascii_def chr_def char_byte_def)

text \<open>One byte of a method.\<close>

lemma method_byte:
  assumes "index q \<le> length (method_strings (method q))" and "c \<noteq> 32 \<or> index q < length (method_strings (method q))"
  shows "(\<exists>m. c \<noteq> 0 \<and> scan_method (method q) (index q) [c] = Some m \<and>
      exec_switch strict cb data (here q s_req_method i mk u c) = Inr (Break, here (q\<lparr>method := m, index := index q + 1\<rparr>) s_req_method i mk u c)) \<or>
    (c = 0 \<or> scan_method (method q) (index q) [c] = None) \<and>
      exec_switch strict cb data (here q s_req_method i mk u c) = Inr (Error, here (q\<lparr>http_errno := HPE_INVALID_METHOD\<rparr>) s_req_method i mk u c)"
proof (cases "c = 0")
  case True
  then show ?thesis by (simp add: exec_switch_def exec_req_method_def goto_error_def SET_ERRNO_def upd_def)
next
  case False
  have at_end: "matcher_at (method_strings m) (length (method_strings m)) = Some 0" for m by (simp add: matcher_at_def)
  obtain d where d: "matcher_at (method_strings (method q)) (index q) = Some d" "c \<noteq> 32 \<or> d \<noteq> 0"
    using assms matcher_letter [of "index q" "method q"] at_end [of "method q"] by (cases "index q = length (method_strings (method q))") auto
  have i: "(index q + 1) mod 256 = index q + 1" using assms(1) method_length [of "method q"] by simp
  show ?thesis
  proof (cases "c = d")
    case True
    then show ?thesis using False d i by (auto simp: exec_switch_def exec_req_method_def step_simps)
  next
    case ne: False
    then show ?thesis
      using False d i by (cases "other_method (method q) (index q) c")
        (auto simp: exec_switch_def exec_req_method_def step_simps SET_ERRNO_def)
  qed
qed

lemma scan_method_step:
  "scan_method m i [c] = Some m' \<Longrightarrow> scan_method m i (c # cs) = scan_method m' (i + 1) cs"
  by (auto split: if_splits option.splits)

lemma method_fails:
  "drop i data = cs @ [32] \<Longrightarrow> 32 \<notin> set cs \<Longrightarrow> index q \<le> length (method_strings (method q)) \<Longrightarrow>
   \<nexists>m. scan_method (method q) (index q) cs = Some m \<and> index q + length cs = length (method_strings m) \<Longrightarrow>
   \<exists>z t'. runs strict cb data (at q (index q) s_req_method i mk u) z \<and> p z < length data \<and>
     exec_byte strict cb data z = Inr (Error, t') \<and> http_errno (px t') = HPE_INVALID_METHOD \<and> user t' = u"
proof (induction cs arbitrary: q i)
  case Nil
  have i: "i < length data" "data ! i = 32" using drop_Cons [of i data 32 "[]"] Nil(1) by auto
  have lt: "index q < length (method_strings (method q))" using Nil(3,4) by auto
  then obtain d where d: "matcher_at (method_strings (method q)) (index q) = Some d" "d \<noteq> 0" "d \<noteq> 32" using matcher_letter by blast
  have k: "index q < head_limit" using lt method_length [of "method q"] by simp
  have "exec_switch strict cb data (here (counted q (index q + 1)) s_req_method i mk u 32) =
      Inr (Error, here (counted (q\<lparr>http_errno := HPE_INVALID_METHOD\<rparr>) (index q + 1)) s_req_method i mk u 32)"
    using d other_method_space by (simp add: exec_switch_def exec_req_method_def goto_error_def SET_ERRNO_def upd_def)
  then have "exec_byte strict cb data (at q (index q) s_req_method i mk u) =
      Inr (Error, here (counted (q\<lparr>http_errno := HPE_INVALID_METHOD\<rparr>) (index q + 1)) s_req_method i mk u 32)"
    using exec_byte_head [OF k, of s_req_method strict cb data q i mk u] reexecute_now [of strict cb data _ Error _ 7] i
    by (simp add: PARSING_HEADER_def del: reexecute.simps)
  then show ?case using i by (intro exI conjI) (rule runs.here, simp add: at_def, assumption, simp_all)
next
  case (Cons c cs)
  have d: "drop i data = c # (cs @ [32])" using Cons.prems(1) by simp
  have i: "i < length data" "data ! i = c" using drop_Cons [OF d] by auto
  have k: "index q < head_limit" using Cons.prems(3) method_length [of "method q"] by simp
  have c: "c \<noteq> 32" using Cons.prems(2) by simp
  let ?s = "here (counted q (index q + 1)) s_req_method i mk u c"
  consider (ok) m where "scan_method (method q) (index q) [c] = Some m"
      "exec_switch strict cb data ?s = Inr (Break, here (counted (q\<lparr>method := m, index := index q + 1\<rparr>) (index q + 1)) s_req_method i mk u c)"
    | (bad) "exec_switch strict cb data ?s = Inr (Error, here (counted (q\<lparr>http_errno := HPE_INVALID_METHOD\<rparr>) (index q + 1)) s_req_method i mk u c)"
    using method_byte [of "counted q (index q + 1)" c strict cb data i mk u] Cons.prems(3) c by auto
  then show ?case
  proof cases
    case ok
    let ?q = "q\<lparr>method := m, index := index q + 1\<rparr>"
    have r: "runs strict cb data (at q (index q) s_req_method i mk u) (at ?q (index ?q) s_req_method (i + 1) mk u)"
      using head_step [OF d k _ ok(2)] by (simp add: PARSING_HEADER_def)
    have "index ?q \<le> length (method_strings (method ?q))"
      using scan_method_exact [OF ok(1) Cons.prems(3) refl] by simp
    moreover have "\<nexists>m. scan_method (method ?q) (index ?q) cs = Some m \<and> index ?q + length cs = length (method_strings m)"
      using Cons.prems(4) scan_method_step [OF ok(1), of cs] by auto
    ultimately obtain z t' where "runs strict cb data (at ?q (index ?q) s_req_method (i + 1) mk u) z" "p z < length data"
        "exec_byte strict cb data z = Inr (Error, t')" "http_errno (px t') = HPE_INVALID_METHOD" "user t' = u"
      using Cons.IH [of "i + 1" ?q] drop_Cons [OF d] Cons.prems(2) by auto
    then show ?thesis using runs_trans [OF r] by blast
  next
    case bad
    then have "exec_byte strict cb data (at q (index q) s_req_method i mk u) =
        Inr (Error, here (counted (q\<lparr>http_errno := HPE_INVALID_METHOD\<rparr>) (index q + 1)) s_req_method i mk u c)"
      using exec_byte_head [OF k, of s_req_method strict cb data q i mk u] reexecute_now [of strict cb data _ Error _ 7] i
      by (simp add: PARSING_HEADER_def del: reexecute.simps)
    then show ?thesis using i by (intro exI conjI) (rule runs.here, simp add: at_def, assumption, simp_all)
  qed
qed

section \<open>The whole method\<close>

lemma runs_finish:
  "runs strict cb data s z \<Longrightarrow> p z = length data \<Longrightarrow> length data - p s < n \<Longrightarrow>
   \<exists>c'. execute_loop strict cb data n (s\<lparr>ch := c\<rparr>) = leftover cb data (z\<lparr>ch := c'\<rparr>)"
proof (induction arbitrary: n c rule: runs.induct)
  case (here s)
  then show ?case by (cases n) auto
next
  case (step s s1 s2)
  obtain k where n: "n = Suc k" using step.prems(2) by (cases n) auto
  have "execute_loop strict cb data n (s\<lparr>ch := c\<rparr>) =
      execute_loop strict cb data k ((s1\<lparr>p := p s1 + 1, ch := 0\<rparr>)\<lparr>ch := ch s1\<rparr>)"
    using step.hyps(1,2) n exec_byte_ch [where strict = strict and cb = cb and data = data and s = s and c = c] by simp
  then show ?case using step.IH [of k "ch s1"] step.prems step.hyps(1,3) n by simp
qed

lemma leftover_nothing: "http_errno q = HPE_OK \<Longrightarrow>
   leftover cb data (here q st i nomarks u c) = Inr (Return (length data), here (q\<lparr>pstate := st\<rparr>) st i nomarks u c)"
  by (simp add: leftover_def count_marks_def check_def CALLBACK_DATA_NOADVANCE_def CALLBACK_DATA_ER_def RETURN_def upd_def)

lemma method_not_started:
  assumes "drop i data = c # rest" and "k < head_limit" and "c \<noteq> 13" and "c \<noteq> 10" and "first_method c = None"
  shows "\<exists>t'. exec_byte strict cb data (at q k s_start_req i mk u) = Inr (Error, t') \<and> http_errno (px t') = HPE_INVALID_METHOD \<and> user t' = u"
proof -
  have "\<exists>t'. exec_switch strict cb data (here (counted q (k + 1)) s_start_req i mk u c) = Inr (Error, t') \<and>
      http_errno (px t') = HPE_INVALID_METHOD \<and> user t' = u"
    using assms(3-5) by (auto simp: exec_switch_def exec_start_req_def step_simps SET_ERRNO_def)
  then show ?thesis
    using exec_byte_head [OF assms(2), of s_start_req strict cb data q i mk u] reexecute_now [of strict cb data _ Error _ 7] drop_Cons [OF assms(1)]
    by (auto simp: PARSING_HEADER_def simp del: reexecute.simps)
qed

definition fresh :: http_parser where
  "fresh = http_parser_init HTTP_REQUEST"

lemma fresh_simps: "http_errno fresh = HPE_OK" "pstate fresh = s_start_req" "nread fresh = 0" "initial_marks s_start_req = nomarks"
  "at fresh 0 s_start_req 0 nomarks u = here fresh s_start_req 0 nomarks u 0" "parser_type fresh = HTTP_REQUEST"
  by (auto simp: fresh_def http_parser_init_def initial_marks_def at_def counted_def)

lemma fresh_initial: "initial_exec fresh u = at fresh 0 s_start_req 0 nomarks u"
  by (simp add: initial_exec_def fresh_simps here_def)

lemma method_accepted:
  assumes "bs = method_text m"
  shows "\<exists>q'. http_parser_execute strict settings fresh (bs @ [32]) (Some t) = Inr (length bs + 1, q', Some (on_message_begin t)) \<and>
    http_errno q' = HPE_OK \<and> method q' = m"
proof -
  let ?data = "bs @ [32]"
  have len: "length bs < 255" using method_length [of m] assms by (simp add: method_text_def ascii_def)
  have "runs strict settings ?data (at fresh 0 s_start_req 0 nomarks (Some t))
     (at (fresh\<lparr>flags := \<lambda>_. False, content_length := ULLONG_MAX, pstate := s_req_method, method := m, index := length bs + 1\<rparr>)
       (length bs + 1) s_req_spaces_before_url (length bs + 1) nomarks (Some (on_message_begin t)))" (is "runs _ _ _ _ ?z")
    using run_request_start [of 0 ?data m "[]" 0 fresh strict t] assms len by (simp add: fresh_simps)
  from runs_finish [OF this, of "length bs + 2" 0] obtain c where
    "execute_loop strict settings ?data (length ?data + 1) (initial_exec fresh (Some t)) = leftover settings ?data (?z\<lparr>ch := c\<rparr>)"
    by (auto simp: fresh_initial at_def simp del: execute_loop.simps)
  moreover have "http_errno fresh = HPE_OK" by (simp add: fresh_simps)
  ultimately show ?thesis
    by (auto simp: http_parser_execute_def at_def leftover_nothing simp del: execute_loop.simps)
qed

lemma fresh_error:
  assumes "runs strict settings data (at fresh 0 s_start_req 0 nomarks (Some t)) z" and "p z < length data"
    and "exec_byte strict settings data z = Inr (Error, t')" and "http_errno (px t') = HPE_INVALID_METHOD" and "user t' = Some u"
  shows "\<exists>n q'. http_parser_execute strict settings fresh data (Some t) = Inr (n, q', Some u) \<and> http_errno q' = HPE_INVALID_METHOD"
proof -
  have "execute_loop strict settings data (length data + 1) (initial_exec fresh (Some t)) = error_exit t'"
    using runs_exit [OF assms(1-3), of "length data + 1"] by (simp add: fresh_initial at_def del: execute_loop.simps)
  moreover have "data \<noteq> []" using assms(2) by auto
  ultimately show ?thesis
    using assms(4,5) by (auto simp: http_parser_execute_def fresh_simps error_exit_def RETURN_def upd_def simp del: execute_loop.simps)
qed

lemma method_rejected:
  assumes "bs \<noteq> []" and "32 \<notin> set bs" and "hd bs \<noteq> 13" and "hd bs \<noteq> 10" and "\<nexists>m. bs = method_text m"
  shows "\<exists>n q' u. http_parser_execute strict settings fresh (bs @ [32]) (Some t) = Inr (n, q', Some u) \<and> http_errno q' = HPE_INVALID_METHOD"
proof -
  obtain c cs where bs: "bs = c # cs" using assms(1) by (cases bs) auto
  have d: "drop 0 (bs @ [32]) = c # (cs @ [32])" using bs by simp
  show ?thesis
  proof (cases "first_method c")
    case None
    from method_not_started [OF d _ _ _ None, of 0 strict settings fresh nomarks "Some t"] assms(3,4) bs obtain t'
      where "exec_byte strict settings (bs @ [32]) (at fresh 0 s_start_req 0 nomarks (Some t)) = Inr (Error, t')"
        "http_errno (px t') = HPE_INVALID_METHOD" "user t' = Some t" by auto
    then show ?thesis using fresh_error [OF runs.here _ \<open>exec_byte _ _ _ _ = _\<close>] by (simp add: at_def) blast
  next
    case (Some f)
    let ?q = "fresh\<lparr>flags := \<lambda>_. False, content_length := ULLONG_MAX, method := f, index := 1, pstate := s_req_method\<rparr>"
    have r: "runs strict settings (bs @ [32]) (at fresh 0 s_start_req 0 nomarks (Some t))
        (at ?q (index ?q) s_req_method 1 nomarks (Some (on_message_begin t)))"
      using method_start [OF d _ _ Some, of 0 fresh strict t] by (simp add: fresh_simps)
    have one: "1 \<le> length (method_strings f)" using first_method_text [OF Some] by (cases f) simp_all
    have "\<nexists>m. scan_method f 1 cs = Some m \<and> 1 + length cs = length (method_strings m)"
    proof
      assume "\<exists>m. scan_method f 1 cs = Some m \<and> 1 + length cs = length (method_strings m)"
      then obtain m where m: "scan_method f 1 cs = Some m" "1 + length cs = length (method_strings m)" by blast
      have "[c] @ cs = take (1 + length cs) (method_text m)"
        using scan_method_exact [OF m(1) one, of "[c]"] first_method_text [OF Some] by simp
      then show False using m(2) bs assms(5) by (auto simp: method_text_def ascii_def)
    qed
    then obtain z t' where "runs strict settings (bs @ [32]) (at ?q (index ?q) s_req_method 1 nomarks (Some (on_message_begin t))) z"
        "p z < length (bs @ [32])" "exec_byte strict settings (bs @ [32]) z = Inr (Error, t')" "http_errno (px t') = HPE_INVALID_METHOD"
        "user t' = Some (on_message_begin t)"
      using method_fails [of 1 "bs @ [32]" cs ?q strict settings nomarks "Some (on_message_begin t)"] bs assms(2) one by auto
    then show ?thesis using fresh_error [OF runs_trans [OF r]] by blast
  qed
qed

end
