(* ===== verification/Http_Contract.thy ===== *)
theory Http_Contract
  imports Http_Text Http_Methods
begin

text \<open>
  The properties of the message parser and of \<open>execute\<close>: it always ends safely, it recognises methods and
  header names exactly, and it reads back what a request or a response prints.
\<close>

section \<open>Every call ends\<close>

text \<open>
  C28. \<open>http_parser_execute\<close> ends on every parser made by \<open>http_parser_init\<close> and used through execute and pause
  with any callbacks that change the parser only by failing or pausing it: it trips no assertion, reads
  neither outside the data nor outside its tables, needs no more rounds than there are bytes and looks at no
  byte more than eight times, and returns at most the length of the data (one for an unexpected end).
\<close>

theorem http_execute_total:
  assumes "in_use strict cb q"
  shows "\<exists>n q' u'. http_parser_execute strict cb q data u = Inr (n, q', u') \<and> n \<le> max 1 (length data) \<and> in_use strict cb q'"
  by (rule execute_in_use [OF assms])

theorem http_execute_total_witness:
  "\<exists>n q' u'. http_parser_execute True settings (http_parser_init HTTP_BOTH) [72, 84, 88] (Some empty_msg) = Inr (n, q', u') \<and> n \<le> 3"
  using http_execute_total [OF in_use.init, of True settings HTTP_BOTH "[72, 84, 88]" "Some empty_msg"] by auto

section \<open>Names\<close>

text \<open>
  C29. A request parser accepts exactly the methods of its table: given a word and a space, \<open>execute\<close> reports no
  error exactly when the word is one of the 27 names, which is then the method; otherwise the error is
  \<open>HPE_INVALID_METHOD\<close>.
\<close>

theorem methods_recognised:
  assumes "bs \<noteq> []" and "32 \<notin> set bs" and "hd bs \<noteq> 13" and "hd bs \<noteq> 10"
  shows "\<exists>n e q' t'. lparser_execute strict (lnew (Some HTTP_REQUEST)) (bs @ [32]) 0 t = Inr ((n, e), q', t') \<and>
    e = (if \<exists>m. bs = method_text m then None else Some HPE_INVALID_METHOD) \<and> (\<forall>m. bs = method_text m \<longrightarrow> method q' = m)"
proof (cases "\<exists>m. bs = method_text m")
  case True
  then obtain m where m: "bs = method_text m" by blast
  have "m' = m" if "bs = method_text m'" for m' using method_text_inj m that by metis
  then show ?thesis
    using method_accepted [OF m, of strict t] m by (auto simp: lparser_execute_def lnew_def fresh_def)
next
  case False
  then show ?thesis
    using method_rejected [OF assms, of strict t] by (auto simp: lparser_execute_def lnew_def fresh_def)
qed

theorem methods_recognised_witness:
  "\<exists>n q' t'. lparser_execute True (lnew (Some HTTP_REQUEST)) [80, 85, 84, 32] 0 empty_msg = Inr ((n, None), q', t') \<and> method q' = HTTP_PUT"
proof -
  have put: "[80, 85, 84] = method_text HTTP_PUT" by (simp add: method_text_def ascii_def)
  obtain n e q' t' where x: "lparser_execute True (lnew (Some HTTP_REQUEST)) ([80, 85, 84] @ [32]) 0 empty_msg = Inr ((n, e), q', t')"
    "e = (if \<exists>m. [80, 85, 84] = method_text m then None else Some HPE_INVALID_METHOD)"
    "\<forall>m. [80, 85, 84] = method_text m \<longrightarrow> method q' = m"
    using methods_recognised [of "[80, 85, 84]" True empty_msg] by auto
  have "e = None" using put x(2) by metis
  moreover have "method q' = HTTP_PUT" using put x(3) by blast
  ultimately show ?thesis using x(1) by auto
qed

text \<open>
  C30. The loop over a header name recognises \<open>Connection\<close>, \<open>Proxy-Connection\<close>, \<open>Content-Length\<close>,
  \<open>Transfer-Encoding\<close> and \<open>Upgrade\<close>, in any mixture of cases, and takes every other name for a general one; it
  stops at the colon.
\<close>

theorem header_names_recognised:
  assumes "header_name (c # cs)"
  shows "\<exists>h i. field_loop strict (cs @ 58 # rest) pos b (q\<lparr>index := 0, header_state := first_header_state (TOKEN strict c)\<rparr>) =
      Inr (pos + length cs, 58, q\<lparr>index := i, header_state := h\<rparr>) \<and>
    value_kind h = name_kind (map tokens (c # cs))"
proof -
  have c: "tokens c \<noteq> 0" "\<forall>c \<in> set cs. tokens c \<noteq> 0" using assms by (auto simp: header_name_def)
  let ?q = "q\<lparr>index := 0, header_state := first_header_state (tokens c)\<rparr>"
  obtain h i where "field_loop strict (cs @ 58 # rest) pos b ?q = Inr (pos + length cs, 58, ?q\<lparr>index := i, header_state := h\<rparr>)"
    "follows ([tokens c] @ map tokens cs) (?q\<lparr>index := i, header_state := h\<rparr>)"
    using field_loop_name [OF first_letter_follows c(2), where strict = strict and rest = rest and pos = pos and b = b] by blast
  then show ?thesis using follows_kind token_char [OF c(1), of strict] by fastforce
qed

theorem header_names_recognised_witness:
  "\<exists>h i. field_loop False [80, 71, 82, 65, 68, 69, 58] 0 0 (fresh\<lparr>index := 0, header_state := first_header_state (TOKEN False 85)\<rparr>) =
      Inr (6, 58, fresh\<lparr>index := i, header_state := h\<rparr>) \<and> value_kind h = h_upgrade"
proof -
  have t: "map tokens [85, 80, 71, 82, 65, 68, 69] = [117, 112, 103, 114, 97, 100, 101]" by (simp add: tokens_def IS_NUM_def char_byte_def)
  then have "header_name [85, 80, 71, 82, 65, 68, 69]" by (simp add: header_name_def)
  from header_names_recognised [OF this, of False "[]" 0 0 fresh] show ?thesis
    using t by (simp add: name_kind_def ascii_def eval_nat_numeral del: field_loop.simps)
qed

section \<open>Messages\<close>

text \<open>
  C31. \<open>execute\<close> reads back a printed request: for any method, a URL the URL scanner accepts, a version, headers
  (among them lengths, chunked coding, connection options and upgrades) and the body they announce, plain
  or in chunks, up to the limit on the head, at any offset of the data and whatever follows, it consumes
  exactly the text of the request, reports no error, and the table has its method, URL, version, headers
  (the last one of a name), body, upgrade and keep-alive mark, and is complete. The parser is then ready
  for the next request (in strict mode, unless the connection is to be closed). The sizes of chunks are
  numerals in the digits of \<open>unhex\<close>, up to the bound on their value.
\<close>

theorem request_parsed:
  assumes "request_ok strict r" and "ready HTTP_REQUEST s_start_req q" and "length pre < 2 ^ 64"
  shows "\<exists>q'. lparser_execute strict q (pre @ request_text r @ rest) (of_nat (length pre)) empty_msg =
      Inr ((length (request_text r), None), q', request_msg r) \<and>
    ready HTTP_REQUEST (if strict \<and> m_keepalive (request_msg r) = Some False then s_dead else s_start_req) q'"
  by (rule request_execute [OF assms])

text \<open>\<open>POST /a HTTP/1.1\<close> with the header \<open>Content-Length: 2\<close> and the body \<open>hi\<close>\<close>

definition demo_request :: request where
  "demo_request = \<lparr>r_method = HTTP_POST, r_url = [47, 97], r_major = 1, r_minor = 1,
     r_headers = [(ascii ''Content-Length'', [50])], r_payload = Plain [104, 105]\<rparr>"

lemma demo_header: "map tokens (ascii ''Content-Length'') = ascii ''content-length''"
  by (simp add: ascii_def tokens_def IS_NUM_def char_byte_def)

lemma demo_framing: "headers_framing [(ascii ''Content-Length'', [50])] = (2, \<lambda>_. False)"
  by (simp add: headers_framing_def apply_header_def demo_header kind_of_names number_def digit_def)

lemma demo_header_ok: "header_ok (ascii ''Content-Length'', [50])"
proof -
  have "header_name (ascii ''Content-Length'')"
    by (simp add: header_name_def ascii_def tokens_def IS_NUM_def char_byte_def)
  then show ?thesis by (simp add: header_ok_def line_text_def demo_header kind_of_names number_def digit_def IS_NUM_def char_byte_def)
qed

lemma demo_request_ok: "request_ok strict demo_request"
proof -
  have "url_ok strict HTTP_POST [47, 97]"
    by (simp add: url_ok_def url_start_def target_states_def parse_url_char_def char_codes IS_URL_CHAR_def BIT_AT_def normal_url_char_def)
  moreover have "length (request_head demo_request) + 2 \<le> head_limit"
    by (simp add: request_head_def demo_request_def method_text_def ascii_def version_text_def headers_text_def header_text_def)
  ultimately show ?thesis using demo_header_ok by (simp add: request_ok_def demo_request_def demo_framing)
qed

theorem request_parsed_witness:
  "\<exists>q' t. lparser_execute True (http_parser_init HTTP_REQUEST) ([13] @ request_text demo_request @ [71]) 1 empty_msg =
      Inr ((length (request_text demo_request), None), q', t) \<and> m_request_url t = Some [47, 97] \<and> m_body t = Some [104, 105] \<and>
    m_keepalive t = Some True \<and> ready HTTP_REQUEST s_start_req q'"
proof -
  have msg: "m_request_url (request_msg demo_request) = Some [47, 97]" "m_body (request_msg demo_request) = Some [104, 105]"
    "m_keepalive (request_msg demo_request) = Some True"
    by (simp_all add: request_msg_def demo_request_def demo_framing keep_alive_def Let_def)
  have "ready HTTP_REQUEST s_start_req (http_parser_init HTTP_REQUEST)" by (simp add: ready_def http_parser_init_def)
  from request_parsed [OF demo_request_ok this, of "[13]" True "[71]"] show ?thesis using msg by auto
qed

text \<open>
  C32. \<open>execute\<close> reads back a printed response in the same way: status line, headers and body, where a response
  without a length must have a status that allows no body.
\<close>

theorem response_parsed:
  assumes "response_ok r" and "ready HTTP_RESPONSE s_start_res q" and "method q \<noteq> HTTP_CONNECT" and "length pre < 2 ^ 64"
  shows "\<exists>q'. lparser_execute strict q (pre @ response_text r @ rest) (of_nat (length pre)) empty_msg =
      Inr ((length (response_text r), None), q', response_msg r) \<and> method q' = method q \<and>
    ready HTTP_RESPONSE (if strict \<and> m_keepalive (response_msg r) = Some False then s_dead else s_start_res) q'"
  by (rule response_execute [OF assms])

text \<open>\<open>HTTP/1.1 200 OK\<close> with \<open>Transfer-Encoding: Chunked\<close> and the chunks \<open>ab\<close> and \<open>c\<close>\<close>

definition demo_response :: response where
  "demo_response = \<lparr>s_major = 1, s_minor = 1, s_code = 200, s_reason = [79, 75],
     s_headers = [(ascii ''Transfer-Encoding'', ascii ''Chunked'')], s_payload = Chunks [([50], [97, 98]), ([49], [99])] [48]\<rparr>"

lemma demo_coding: "map tokens (ascii ''Transfer-Encoding'') = ascii ''transfer-encoding''" "map LOWER (ascii ''Chunked'') = ascii ''chunked''"
  by (simp_all add: ascii_def tokens_def IS_NUM_def char_byte_def LOWER_def)

lemma demo_coding_framing:
  "headers_framing [(ascii ''Transfer-Encoding'', ascii ''Chunked'')] = (ULLONG_MAX, (\<lambda>_. False)(F_CHUNKED := True))"
  by (simp add: headers_framing_def apply_header_def demo_coding kind_of_names)

lemma demo_response_ok: "response_ok demo_response"
proof -
  have "header_name (ascii ''Transfer-Encoding'')"
    by (simp add: header_name_def ascii_def tokens_def IS_NUM_def char_byte_def)
  moreover have "line_text (ascii ''Chunked'')" by (simp add: line_text_def ascii_def)
  ultimately have "header_ok (ascii ''Transfer-Encoding'', ascii ''Chunked'')"
    by (simp add: header_ok_def demo_coding kind_of_names)
  moreover have "length (response_head demo_response) + 2 \<le> head_limit"
    by (simp add: response_head_def demo_response_def ascii_def version_text_def status_text_def headers_text_def header_text_def)
  ultimately show ?thesis
    by (simp add: response_ok_def demo_response_def demo_coding_framing chunk_ok_def hex_digits_def hex_number_def unhex_def IS_NUM_def char_codes)
qed

theorem response_parsed_witness:
  "\<exists>q' t. lparser_execute True (http_parser_init HTTP_RESPONSE) (response_text demo_response @ []) 0 empty_msg =
      Inr ((length (response_text demo_response), None), q', t) \<and> m_status_code t = Some 200 \<and> m_body t = Some [97, 98, 99]"
proof -
  have msg: "m_status_code (response_msg demo_response) = Some 200" "m_body (response_msg demo_response) = Some [97, 98, 99]"
    by (simp_all add: response_msg_def demo_response_def Let_def)
  have "ready HTTP_RESPONSE s_start_res (http_parser_init HTTP_RESPONSE)" "method (http_parser_init HTTP_RESPONSE) \<noteq> HTTP_CONNECT"
    by (simp_all add: ready_def http_parser_init_def)
  from response_parsed [OF demo_response_ok this, of "[]" True "[]"] show ?thesis using msg by auto
qed

text \<open>
  The digits of a chunk size are not checked: a byte from 128 on counts as the digit 0, where the parser
  means to stop with \<open>HPE_INVALID_CHUNK_SIZE\<close>. A response whose chunk sizes have such bytes in place of
  zeros is executed without an error and fills in the table of the response with the zeros, its body cut
  at the same places.
\<close>

theorem high_bytes_are_zero_digits:
  assumes "response_ok (r\<lparr>s_payload := low_sizes (s_payload r)\<rparr>)" and "ready HTTP_RESPONSE s_start_res q"
    and "method q \<noteq> HTTP_CONNECT" and "length pre < 2 ^ 64"
  shows "\<exists>q'. lparser_execute strict q (pre @ response_text r @ rest) (of_nat (length pre)) empty_msg =
      Inr ((length (response_text r), None), q', response_msg (r\<lparr>s_payload := low_sizes (s_payload r)\<rparr>))"
  using response_execute [of r q pre strict rest] assms response_low by auto

text \<open>The chunks of \<open>demo_response\<close> with a byte 128 in front of the size 2 and for the size 0\<close>

theorem high_bytes_are_zero_digits_witness:
  "\<exists>q' t. lparser_execute True (http_parser_init HTTP_RESPONSE)
      (response_text (demo_response\<lparr>s_payload := Chunks [([128, 50], [97, 98]), ([49], [99])] [128]\<rparr>) @ []) 0 empty_msg =
      Inr ((length (response_text (demo_response\<lparr>s_payload := Chunks [([128, 50], [97, 98]), ([49], [99])] [128]\<rparr>)), None), q', t) \<and>
    m_body t = Some [97, 98, 99]"
proof -
  let ?r = "demo_response\<lparr>s_payload := Chunks [([128, 50], [97, 98]), ([49], [99])] [128]\<rparr>"
  let ?low = "?r\<lparr>s_payload := low_sizes (s_payload ?r)\<rparr>"
  have low: "?low = demo_response\<lparr>s_payload := Chunks [([48, 50], [97, 98]), ([49], [99])] [48]\<rparr>"
    by (simp add: low_digit_def)
  have "payload_ok HTTP_GET b (ULLONG_MAX, (\<lambda>_. False)(F_CHUNKED := True)) (Chunks [([48, 50], [97, 98]), ([49], [99])] [48])" for b
    by (simp add: chunk_ok_def hex_digits_def hex_number_def unhex_def IS_NUM_def char_codes)
  then have "response_ok ?low"
    using demo_response_ok unfolding low by (simp add: response_ok_def response_head_def demo_response_def demo_coding_framing)
  moreover have "m_body (response_msg ?low) = Some [97, 98, 99]"
    unfolding low by (simp add: response_msg_def demo_response_def Let_def)
  moreover have "ready HTTP_RESPONSE s_start_res (http_parser_init HTTP_RESPONSE)" "method (http_parser_init HTTP_RESPONSE) \<noteq> HTTP_CONNECT"
    by (simp_all add: ready_def http_parser_init_def)
  ultimately show ?thesis using high_bytes_are_zero_digits [of ?r "http_parser_init HTTP_RESPONSE" "[]" True "[]"] by auto
qed

end
