(* ===== verification/Lua_Socket.thy ===== *)
theory Lua_Socket
  imports Lua_Values
begin

text \<open>
  The socket module \<open>src/lua-socket.c\<close> (its POSIX branch). System calls and resolver calls go to a
  kernel, a parameter that answers a call in dependence on all calls made before; the model records
  the calls in a log, so that what the module asks of the system is part of its behaviour.
\<close>

section \<open>The system\<close>

datatype syscall =
    SysSocket int int int
  | SysFcntl int int int
  | SysGetAddrInfo bytes bytes int int int
  | SysFreeAddrInfo bytes
  | SysConnect int bytes
  | SysBind int bytes
  | SysListen int int
  | SysAccept int
  | SysRecv int nat
  | SysSend int bytes int
  | SysRecvFrom int nat nat
  | SysSendTo int bytes int bytes
  | SysGetNameInfo bytes
  | SysGetPeerName int nat
  | SysGetSockName int nat
  | SysGetSockOpt int int int nat
  | SysSetSockOpt int int int bytes
  | SysClose int

text \<open>
  The answer to a call: what it returns, \<open>errno\<close>, the data it stores through a pointer (received
  bytes, an option value, a socket address, the address part of an \<open>addrinfo\<close>, a host name) and a
  second datum (a sender address, a service name).
\<close>

record answer =
  r_ret :: int
  r_errno :: int
  r_data :: bytes
  r_data2 :: bytes

type_synonym log = "syscall list"
type_synonym kernel = "log \<Rightarrow> syscall \<Rightarrow> answer"

text \<open>
  Platform constants, the option \<open>SO_NOSIGPIPE\<close> where the platform has it, and the number of bytes the C stack
  has room for.
\<close>

record platform =
  AF_INET :: int
  AF_INET6 :: int
  SOCK_STREAM :: int
  MSG_NOSIGNAL :: int
  F_GETFL :: int
  F_SETFL :: int
  O_NONBLOCK :: int
  SOL_SOCKET :: int
  SO_NOSIGPIPE :: "int option"
  sockaddr_in_size :: nat
  sockaddr_in6_size :: nat
  stack_room :: nat

datatype sock_error = SockArg nat

text \<open>What an operation does to the log stays, also when it ends in an error.\<close>

type_synonym 'a io = "log \<Rightarrow> (sock_error, 'a) res \<times> log"

definition ret :: "'a \<Rightarrow> 'a io" where
  "ret x log = (Inr x, log)"

definition fail :: "sock_error err \<Rightarrow> 'a io" where
  "fail e log = (Inl e, log)"

definition sbind :: "'a io \<Rightarrow> ('a \<Rightarrow> 'b io) \<Rightarrow> 'b io" where
  "sbind m f log = (case m log of (Inl e, log) \<Rightarrow> (Inl e, log) | (Inr x, log) \<Rightarrow> f x log)"

definition sys :: "kernel \<Rightarrow> syscall \<Rightarrow> answer io" where
  "sys k c log = (Inr (k log c), log @ [c])"

text \<open>The \<open>ssize_t\<close> that \<open>recv\<close> and \<open>send\<close> return is kept in an \<open>int\<close>.\<close>

definition int_ret :: "answer \<Rightarrow> int" where
  "int_ret a = to_int32 (r_ret a)"

definition int_arg :: "lua_env \<Rightarrow> nat \<Rightarrow> lval \<Rightarrow> int io" where
  "int_arg L n v = (case lua_tointegerx L v of
     None \<Rightarrow> fail (Raise (SockArg n)) | Some i \<Rightarrow> ret (to_int32 (sint i)))"

definition str_arg :: "lua_env \<Rightarrow> nat \<Rightarrow> lval \<Rightarrow> bytes io" where
  "str_arg L n v = (case lua_tolstring L v of None \<Rightarrow> fail (Raise (SockArg n)) | Some s \<Rightarrow> ret s)"

text \<open>\<open>luaL_optinteger\<close>\<close>

definition opt_arg :: "lua_env \<Rightarrow> nat \<Rightarrow> 64 word \<Rightarrow> lval \<Rightarrow> (64 word) io" where
  "opt_arg L n d v = (if v = LNil then ret d else
     case lua_tointegerx L v of None \<Rightarrow> fail (Raise (SockArg n)) | Some i \<Rightarrow> ret i)"

text \<open>A port argument: checked to be an integer, then taken as a string.\<close>

definition port_arg :: "lua_env \<Rightarrow> nat \<Rightarrow> lval \<Rightarrow> bytes io" where
  "port_arg L n v = sbind (int_arg L n v) (\<lambda>_. str_arg L n v)"

section \<open>Socket objects\<close>

record socket_t =
  fd :: int
  family :: int
  type :: int
  protocol :: int

definition setsock :: "platform \<Rightarrow> kernel \<Rightarrow> int \<Rightarrow> int \<Rightarrow> int \<Rightarrow> int \<Rightarrow> socket_t io" where
  "setsock P k f fam ty proto =
     sbind (case SO_NOSIGPIPE P of None \<Rightarrow> ret ()
       | Some opt \<Rightarrow> sbind (sys k (SysSetSockOpt f (SOL_SOCKET P) opt (le32 1))) (\<lambda>_. ret ()))
     (\<lambda>_. ret \<lparr>fd = f, family = fam, type = ty, protocol = proto\<rparr>)"

text \<open>What a method returns to Lua: values, or a new socket object.\<close>

datatype outcome = Values "lval list" | NewSocket socket_t

definition lua_int :: "int \<Rightarrow> lval" where
  "lua_int i = LInt (word_of_int i)"

definition push_result :: "int \<Rightarrow> outcome" where
  "push_result err = (if err = 0 then Values [LBool True] else Values [LBool False, lua_int err])"

definition getsockaddrlen :: "platform \<Rightarrow> socket_t \<Rightarrow> nat option" where
  "getsockaddrlen P s = (if family s = AF_INET P then Some (sockaddr_in_size P)
     else if family s = AF_INET6 P then Some (sockaddr_in6_size P) else None)"

text \<open>\<open>getaddrinfo\<close> for a numeric host; the first address of the result is all that is used.\<close>

definition getsockaddrarg :: "kernel \<Rightarrow> socket_t \<Rightarrow> bytes \<Rightarrow> bytes \<Rightarrow> answer io" where
  "getsockaddrarg k s host port = sys k (SysGetAddrInfo host port (family s) (type s) (protocol s))"

text \<open>\<open>lua_tonumber(L, -1)\<close> at the end of \<open>_makeaddr\<close> leaves the port a string.\<close>

definition makeaddr :: "kernel \<Rightarrow> bytes \<Rightarrow> lval list io" where
  "makeaddr k addr = sbind (sys k (SysGetNameInfo addr)) (\<lambda>a.
     if r_ret a \<noteq> 0 then ret [LNil, lua_int (r_ret a)] else ret [LStr (r_data a), LStr (r_data2 a)])"

section \<open>Module functions\<close>

definition socket :: "platform \<Rightarrow> kernel \<Rightarrow> lua_env \<Rightarrow> lval \<Rightarrow> lval \<Rightarrow> lval \<Rightarrow> outcome io" where
  "socket P k L a1 a2 a3 = sbind (int_arg L 1 a1) (\<lambda>fam. sbind (int_arg L 2 a2) (\<lambda>ty.
     sbind (opt_arg L 3 0 a3) (\<lambda>proto. let proto = to_int32 (sint proto) in
     sbind (sys k (SysSocket fam ty proto)) (\<lambda>a.
     if r_ret a < 0 then ret (Values [LNil, lua_int (r_errno a)])
     else sbind (setsock P k (r_ret a) fam ty proto) (\<lambda>s. ret (NewSocket s))))))"

text \<open>
  \<open>resolve\<close> over the list of results of \<open>getaddrinfo\<close>: family, socket type, binary address. \<open>ntop\<close>
  is \<open>inet_ntop\<close> with a buffer of the given size, \<open>None\<close> when the text does not fit; the buffer here
  has the size of a binary IPv6 address. An entry is its family and its address, nil for no text.
\<close>

definition addr2string :: "(int \<Rightarrow> bytes \<Rightarrow> nat \<Rightarrow> bytes option) \<Rightarrow> int \<Rightarrow> bytes \<Rightarrow> bytes option" where
  "addr2string ntop fam addr = ntop fam addr 16"

fun resolve_loop :: "platform \<Rightarrow> (int \<Rightarrow> bytes \<Rightarrow> nat \<Rightarrow> bytes option) \<Rightarrow> (int \<times> int \<times> bytes) list \<Rightarrow>
    (int \<times> bytes option) list" where
  "resolve_loop P ntop [] = []"
| "resolve_loop P ntop ((fam, ty, addr) # rs) =
     (if (fam = AF_INET P \<or> fam = AF_INET6 P) \<and> ty = SOCK_STREAM P
      then (fam, addr2string ntop fam addr) # resolve_loop P ntop rs
      else resolve_loop P ntop rs)"

definition resolve :: "platform \<Rightarrow> (int \<Rightarrow> bytes \<Rightarrow> nat \<Rightarrow> bytes option) \<Rightarrow>
    (bytes \<Rightarrow> int + (int \<times> int \<times> bytes) list) \<Rightarrow> bytes \<Rightarrow> int + (int \<times> bytes option) list" where
  "resolve P ntop query host = (case query host of Inl err \<Rightarrow> Inl err | Inr rs \<Rightarrow> Inr (resolve_loop P ntop rs))"

text \<open>\<open>pton\<close> is \<open>inet_pton\<close>; the result is the canonical text, or nil.\<close>

definition normalize_ip :: "platform \<Rightarrow> (int \<Rightarrow> bytes \<Rightarrow> bytes option) \<Rightarrow> (int \<Rightarrow> bytes \<Rightarrow> nat \<Rightarrow> bytes option) \<Rightarrow>
    bytes \<Rightarrow> bool \<Rightarrow> lval" where
  "normalize_ip P pton ntop host ipv6 = (let domain = (if ipv6 then AF_INET6 P else AF_INET P) in
     case pton domain host of None \<Rightarrow> LNil
   | Some buf \<Rightarrow> (case ntop domain buf 46 of None \<Rightarrow> LNil | Some str \<Rightarrow> LStr str))"

section \<open>Methods\<close>

definition sock_setblocking :: "platform \<Rightarrow> kernel \<Rightarrow> socket_t \<Rightarrow> lval \<Rightarrow> outcome io" where
  "sock_setblocking P k s v = sbind (sys k (SysFcntl (fd s) (F_GETFL P) 0)) (\<lambda>a.
     let flag = (if r_ret a = -1 then 0 else r_ret a);
         flag = (if lua_toboolean v then flag AND NOT (O_NONBLOCK P) else flag OR O_NONBLOCK P)
     in sbind (sys k (SysFcntl (fd s) (F_SETFL P) flag)) (\<lambda>_. ret (Values [])))"

definition sock_connect :: "kernel \<Rightarrow> lua_env \<Rightarrow> socket_t \<Rightarrow> lval \<Rightarrow> lval \<Rightarrow> outcome io" where
  "sock_connect k L s a2 a3 = sbind (str_arg L 2 a2) (\<lambda>host. sbind (port_arg L 3 a3) (\<lambda>port.
     sbind (getsockaddrarg k s host port) (\<lambda>r.
     if r_ret r \<noteq> 0 then ret (push_result (r_ret r)) else
     sbind (sys k (SysConnect (fd s) (r_data r))) (\<lambda>a.
     sbind (sys k (SysFreeAddrInfo (r_data r))) (\<lambda>_.
     ret (push_result (if r_ret a \<noteq> 0 then r_errno a else r_ret a)))))))"

text \<open>A local array of \<open>len\<close> bytes, and what a call that may store \<open>len\<close> bytes leaves in it.\<close>

definition with_array :: "platform \<Rightarrow> nat \<Rightarrow> 'a io \<Rightarrow> 'a io" where
  "with_array P len m = (if len = 0 \<or> stack_room P < len then fail (UB BadArraySize) else m)"

definition received :: "nat \<Rightarrow> answer \<Rightarrow> bytes io" where
  "received len a = (if int len < int_ret a then fail (UB OutOfBounds)
     else if int (length (r_data a)) < int_ret a then fail (UB UninitRead)
     else ret (take (nat (int_ret a)) (r_data a)))"

definition len_arg :: "lua_env \<Rightarrow> nat \<Rightarrow> lval \<Rightarrow> nat io" where
  "len_arg L n v = (case lua_tointegerx L v of None \<Rightarrow> fail (Raise (SockArg n)) | Some i \<Rightarrow> ret (unat i))"

definition sock_recv :: "platform \<Rightarrow> kernel \<Rightarrow> lua_env \<Rightarrow> socket_t \<Rightarrow> lval \<Rightarrow> outcome io" where
  "sock_recv P k L s a2 = sbind (len_arg L 2 a2) (\<lambda>len. with_array P len (
     sbind (sys k (SysRecv (fd s) len)) (\<lambda>a.
     if int_ret a < 0 then ret (Values [LNil, lua_int (r_errno a)])
     else sbind (received len a) (\<lambda>bs. ret (Values [LStr bs])))))"

definition sock_send :: "platform \<Rightarrow> kernel \<Rightarrow> lua_env \<Rightarrow> socket_t \<Rightarrow> lval \<Rightarrow> lval \<Rightarrow> outcome io" where
  "sock_send P k L s a2 a3 = sbind (str_arg L 2 a2) (\<lambda>buf. sbind (opt_arg L 3 0 a3) (\<lambda>from.
     if length buf \<le> unat from then fail (Raise (SockArg 3)) else
     sbind (sys k (SysSend (fd s) (drop (unat from) buf) (MSG_NOSIGNAL P))) (\<lambda>a.
     if int_ret a < 0 then ret (Values [LNil, lua_int (r_errno a)])
     else ret (Values [lua_int (int_ret a)]))))"

definition sock_recvfrom :: "platform \<Rightarrow> kernel \<Rightarrow> lua_env \<Rightarrow> socket_t \<Rightarrow> lval \<Rightarrow> outcome io" where
  "sock_recvfrom P k L s a2 = sbind (len_arg L 2 a2) (\<lambda>len. with_array P len (
     case getsockaddrlen P s of None \<Rightarrow> fail (Raise (SockArg 1)) | Some addrlen \<Rightarrow>
     sbind (sys k (SysRecvFrom (fd s) len addrlen)) (\<lambda>a.
     if int_ret a < 0 then ret (Values [LNil, lua_int (r_errno a)])
     else sbind (received len a) (\<lambda>bs. sbind (makeaddr k (r_data2 a)) (\<lambda>addr.
       ret (Values (LStr bs # addr)))))))"

text \<open>
  When the address cannot be parsed, nil and the error number are pushed, but only one value is
  returned: the error number. The result of \<open>getaddrinfo\<close> is never freed.
\<close>

definition sock_sendto :: "platform \<Rightarrow> kernel \<Rightarrow> lua_env \<Rightarrow> socket_t \<Rightarrow> lval \<Rightarrow> lval \<Rightarrow> lval \<Rightarrow> lval \<Rightarrow> outcome io" where
  "sock_sendto P k L s a2 a3 a4 a5 = sbind (str_arg L 2 a2) (\<lambda>host. sbind (port_arg L 3 a3) (\<lambda>port.
     sbind (str_arg L 4 a4) (\<lambda>buf. sbind (opt_arg L 5 0 a5) (\<lambda>from.
     if length buf \<le> unat from then fail (Raise (SockArg 5)) else
     sbind (getsockaddrarg k s host port) (\<lambda>r.
     if r_ret r \<noteq> 0 then ret (Values [lua_int (r_ret r)]) else
     sbind (sys k (SysSendTo (fd s) (drop (unat from) buf) (MSG_NOSIGNAL P) (r_data r))) (\<lambda>a.
     if int_ret a < 0 then ret (Values [LNil, lua_int (r_errno a)])
     else ret (Values [lua_int (int_ret a)])))))))"

definition sock_bind :: "kernel \<Rightarrow> lua_env \<Rightarrow> socket_t \<Rightarrow> lval \<Rightarrow> lval \<Rightarrow> outcome io" where
  "sock_bind k L s a2 a3 = sbind (str_arg L 2 a2) (\<lambda>host. sbind (port_arg L 3 a3) (\<lambda>port.
     sbind (getsockaddrarg k s host port) (\<lambda>r.
     if r_ret r \<noteq> 0 then ret (push_result (r_ret r)) else
     sbind (sys k (SysBind (fd s) (r_data r))) (\<lambda>a.
     sbind (sys k (SysFreeAddrInfo (r_data r))) (\<lambda>_.
     ret (push_result (if r_ret a \<noteq> 0 then r_errno a else r_ret a)))))))"

definition sock_listen :: "kernel \<Rightarrow> lua_env \<Rightarrow> socket_t \<Rightarrow> lval \<Rightarrow> outcome io" where
  "sock_listen k L s a2 = sbind (opt_arg L 2 256 a2) (\<lambda>backlog.
     sbind (sys k (SysListen (fd s) (to_int32 (sint backlog)))) (\<lambda>a.
     ret (push_result (if r_ret a \<noteq> 0 then r_errno a else r_ret a))))"

definition sock_accept :: "platform \<Rightarrow> kernel \<Rightarrow> socket_t \<Rightarrow> outcome io" where
  "sock_accept P k s = sbind (sys k (SysAccept (fd s))) (\<lambda>a.
     if r_ret a < 0 then ret (Values [LNil, lua_int (r_errno a)])
     else sbind (setsock P k (r_ret a) (family s) (type s) (protocol s)) (\<lambda>s. ret (NewSocket s)))"

definition sock_fileno :: "socket_t \<Rightarrow> outcome io" where
  "sock_fileno s = ret (Values [lua_int (fd s)])"

definition sock_getpeername :: "platform \<Rightarrow> kernel \<Rightarrow> socket_t \<Rightarrow> outcome io" where
  "sock_getpeername P k s = (case getsockaddrlen P s of None \<Rightarrow> fail (Raise (SockArg 1)) | Some len \<Rightarrow>
     sbind (sys k (SysGetPeerName (fd s) len)) (\<lambda>a.
     if r_ret a < 0 then ret (Values [LNil, lua_int (r_errno a)])
     else sbind (makeaddr k (r_data a)) (\<lambda>addr. ret (Values addr))))"

definition sock_getsockname :: "platform \<Rightarrow> kernel \<Rightarrow> socket_t \<Rightarrow> outcome io" where
  "sock_getsockname P k s = (case getsockaddrlen P s of None \<Rightarrow> fail (Raise (SockArg 1)) | Some len \<Rightarrow>
     sbind (sys k (SysGetSockName (fd s) len)) (\<lambda>a.
     if r_ret a < 0 then ret (Values [LNil, lua_int (r_errno a)])
     else sbind (makeaddr k (r_data a)) (\<lambda>addr. ret (Values addr))))"

text \<open>
  \<open>socklen_t buflen\<close> is unsigned with 32 bits. An option read as a flag starts from the four bytes
  of the integer 0, of which the call overwrites a prefix.
\<close>

definition sock_getsockopt :: "kernel \<Rightarrow> lua_env \<Rightarrow> socket_t \<Rightarrow> lval \<Rightarrow> lval \<Rightarrow> lval \<Rightarrow> outcome io" where
  "sock_getsockopt k L s a2 a3 a4 = sbind (int_arg L 2 a2) (\<lambda>level. sbind (int_arg L 3 a3) (\<lambda>optname.
     sbind (opt_arg L 4 0 a4) (\<lambda>n. let buflen = unat (ucast n :: 32 word) in
     if 1024 < buflen then fail (Raise (SockArg 4))
     else if buflen = 0 then
       sbind (sys k (SysGetSockOpt (fd s) level optname 4)) (\<lambda>a.
       if r_ret a < 0 then ret (Values [LNil, lua_int (r_errno a)])
       else if 4 < length (r_data a) then fail (UB OutOfBounds)
       else ret (Values [lua_int (sint (of_le32 (r_data a @ replicate (4 - length (r_data a)) 0)))]))
     else
       sbind (sys k (SysGetSockOpt (fd s) level optname buflen)) (\<lambda>a.
       if r_ret a < 0 then ret (Values [LNil, lua_int (r_errno a)])
       else if buflen < length (r_data a) then fail (UB OutOfBounds)
       else ret (Values [LStr (r_data a)])))))"

definition sock_setsockopt :: "kernel \<Rightarrow> lua_env \<Rightarrow> socket_t \<Rightarrow> lval \<Rightarrow> lval \<Rightarrow> lval \<Rightarrow> outcome io" where
  "sock_setsockopt k L s a2 a3 a4 = sbind (int_arg L 2 a2) (\<lambda>level. sbind (int_arg L 3 a3) (\<lambda>optname.
     sbind (case a4 of
         LStr b \<Rightarrow> ret b
       | LInt i \<Rightarrow> sbind (int_arg L 4 a4) (\<lambda>flag. ret (le32 (word_of_int flag)))
       | LNum d \<Rightarrow> sbind (int_arg L 4 a4) (\<lambda>flag. ret (le32 (word_of_int flag)))
       | _ \<Rightarrow> fail (Raise (SockArg 4))) (\<lambda>buf.
     sbind (sys k (SysSetSockOpt (fd s) level optname buf)) (\<lambda>a.
     if r_ret a < 0 then ret (Values [LBool False, lua_int (r_errno a)])
     else ret (Values [LBool True])))))"

text \<open>\<open>close\<close>, which is also the finalizer of the object.\<close>

definition sock_close :: "kernel \<Rightarrow> socket_t \<Rightarrow> socket_t io" where
  "sock_close k s = (if fd s \<noteq> -1 then sbind (sys k (SysClose (fd s))) (\<lambda>_. ret (s\<lparr>fd := -1\<rparr>)) else ret s)"

section \<open>Sequences of method calls\<close>

datatype call =
    SetBlocking lval
  | Connect lval lval
  | Recv lval
  | Send lval lval
  | RecvFrom lval
  | SendTo lval lval lval lval
  | Bind lval lval
  | Listen lval
  | Accept
  | FileNo
  | GetPeerName
  | GetSockName
  | GetSockOpt lval lval lval
  | SetSockOpt lval lval lval
  | Close

text \<open>The table of methods of a socket object: each call returns an outcome and the object after it.\<close>

fun invoke :: "platform \<Rightarrow> kernel \<Rightarrow> lua_env \<Rightarrow> socket_t \<Rightarrow> call \<Rightarrow> (outcome \<times> socket_t) io" where
  "invoke P k L s (SetBlocking v) = sbind (sock_setblocking P k s v) (\<lambda>r. ret (r, s))"
| "invoke P k L s (Connect a b) = sbind (sock_connect k L s a b) (\<lambda>r. ret (r, s))"
| "invoke P k L s (Recv a) = sbind (sock_recv P k L s a) (\<lambda>r. ret (r, s))"
| "invoke P k L s (Send a b) = sbind (sock_send P k L s a b) (\<lambda>r. ret (r, s))"
| "invoke P k L s (RecvFrom a) = sbind (sock_recvfrom P k L s a) (\<lambda>r. ret (r, s))"
| "invoke P k L s (SendTo a b c d) = sbind (sock_sendto P k L s a b c d) (\<lambda>r. ret (r, s))"
| "invoke P k L s (Bind a b) = sbind (sock_bind k L s a b) (\<lambda>r. ret (r, s))"
| "invoke P k L s (Listen a) = sbind (sock_listen k L s a) (\<lambda>r. ret (r, s))"
| "invoke P k L s Accept = sbind (sock_accept P k s) (\<lambda>r. ret (r, s))"
| "invoke P k L s FileNo = sbind (sock_fileno s) (\<lambda>r. ret (r, s))"
| "invoke P k L s GetPeerName = sbind (sock_getpeername P k s) (\<lambda>r. ret (r, s))"
| "invoke P k L s GetSockName = sbind (sock_getsockname P k s) (\<lambda>r. ret (r, s))"
| "invoke P k L s (GetSockOpt a b c) = sbind (sock_getsockopt k L s a b c) (\<lambda>r. ret (r, s))"
| "invoke P k L s (SetSockOpt a b c) = sbind (sock_setsockopt k L s a b c) (\<lambda>r. ret (r, s))"
| "invoke P k L s Close = sbind (sock_close k s) (\<lambda>s. ret (Values [], s))"


section \<open>What the calls ask of the system\<close>

lemmas io_defs = ret_def sbind_def sys_def fail_def int_arg_def str_arg_def opt_arg_def port_arg_def len_arg_def

lemma sbind_cases:
  assumes "sbind m f log = (r, log')"
  obtains (raised) e where "m log = (Inl e, log')" "r = Inl e" | (returned) x log1 where "m log = (Inr x, log1)" "f x log1 = (r, log')"
  using assms by (auto simp: sbind_def split: prod.splits sum.splits)

text \<open>\<open>emits Q m\<close>: a run of \<open>m\<close> only appends calls with \<open>Q\<close> to the log.\<close>

definition emits :: "(syscall \<Rightarrow> bool) \<Rightarrow> 'a io \<Rightarrow> bool" where
  "emits Q m \<longleftrightarrow> (\<forall>log. \<exists>new. snd (m log) = log @ new \<and> (\<forall>c \<in> set new. Q c))"

named_theorems emit_rules "calls that an operation appends to the log"

lemma emits_ret [emit_rules]: "emits Q (ret x)"
  by (simp add: emits_def ret_def)

lemma emits_fail [emit_rules]: "emits Q (fail e)"
  by (simp add: emits_def fail_def)

lemma emits_sys [emit_rules]: "Q c \<Longrightarrow> emits Q (sys k c)"
  by (simp add: emits_def sys_def)

lemma emitsE:
  assumes "emits Q m" and "m log = (r, log')"
  obtains new where "log' = log @ new" "\<forall>c \<in> set new. Q c"
  using assms unfolding emits_def by (metis snd_conv)

lemma emits_sbind [emit_rules]:
  assumes "emits Q m" and "\<And>x. emits Q (f x)"
  shows "emits Q (sbind m f)"
  unfolding emits_def
proof
  fix log
  obtain r log' where run: "sbind m f log = (r, log')" by fastforce
  have "\<exists>new. log' = log @ new \<and> (\<forall>c \<in> set new. Q c)"
  proof (rule sbind_cases [OF run])
    fix e assume "m log = (Inl e, log')"
    then show ?thesis by (rule emitsE [OF assms(1)]) blast
  next
    fix x log1 assume m: "m log = (Inr x, log1)" and f: "f x log1 = (r, log')"
    obtain a where "log1 = log @ a" "\<forall>c \<in> set a. Q c" by (rule emitsE [OF assms(1) m])
    moreover obtain b where "log' = log1 @ b" "\<forall>c \<in> set b. Q c" by (rule emitsE [OF assms(2) f])
    ultimately show ?thesis by auto
  qed
  then show "\<exists>new. snd (sbind m f log) = log @ new \<and> (\<forall>c \<in> set new. Q c)" by (simp add: run)
qed

lemma emits_args [emit_rules]:
  "emits Q (int_arg L n v)" "emits Q (str_arg L n v)" "emits Q (opt_arg L n d v)" "emits Q (len_arg L n v)"
  by (auto simp: int_arg_def str_arg_def opt_arg_def len_arg_def split: option.splits intro: emit_rules)

lemma emits_port [emit_rules]: "emits Q (port_arg L n v)"
  unfolding port_arg_def by (intro emit_rules)

lemma emits_received [emit_rules]: "emits Q (received n a)"
  by (auto simp: received_def intro: emit_rules)

lemma emits_with_array [emit_rules]: "emits Q m \<Longrightarrow> emits Q (with_array P n m)"
  by (auto simp: with_array_def intro: emit_rules)

lemma emits_setsock [emit_rules]:
  "(\<And>opt. SO_NOSIGPIPE P = Some opt \<Longrightarrow> Q (SysSetSockOpt f (SOL_SOCKET P) opt (le32 1))) \<Longrightarrow> emits Q (setsock P k f fam ty proto)"
  by (auto simp: setsock_def split: option.splits intro!: emit_rules)

lemma emits_makeaddr [emit_rules]: "(\<And>a. Q (SysGetNameInfo a)) \<Longrightarrow> emits Q (makeaddr k a)"
  by (auto simp: makeaddr_def intro!: emit_rules)

lemma emits_getsockaddrarg [emit_rules]:
  "(\<And>h p f t r. Q (SysGetAddrInfo h p f t r)) \<Longrightarrow> emits Q (getsockaddrarg k s h p)"
  by (auto simp: getsockaddrarg_def intro!: emit_rules)

text \<open>The descriptor a call works on, and whether it closes it.\<close>

fun sys_fd :: "syscall \<Rightarrow> int option" where
  "sys_fd (SysFcntl f c x) = Some f"
| "sys_fd (SysConnect f a) = Some f"
| "sys_fd (SysBind f a) = Some f"
| "sys_fd (SysListen f n) = Some f"
| "sys_fd (SysAccept f) = Some f"
| "sys_fd (SysRecv f n) = Some f"
| "sys_fd (SysSend f b n) = Some f"
| "sys_fd (SysRecvFrom f n m) = Some f"
| "sys_fd (SysSendTo f b n a) = Some f"
| "sys_fd (SysGetPeerName f n) = Some f"
| "sys_fd (SysGetSockName f n) = Some f"
| "sys_fd (SysGetSockOpt f l n m) = Some f"
| "sys_fd (SysSetSockOpt f l n b) = Some f"
| "sys_fd (SysClose f) = Some f"
| "sys_fd _ = None"

text \<open>On a platform that has it, \<open>SO_NOSIGPIPE\<close> is set on a descriptor as soon as it is there.\<close>

definition sets_nosigpipe :: "platform \<Rightarrow> syscall \<Rightarrow> bool" where
  "sets_nosigpipe P c \<longleftrightarrow> (case (SO_NOSIGPIPE P, c) of
     (Some opt, SysSetSockOpt f l n b) \<Rightarrow> l = SOL_SOCKET P \<and> n = opt \<and> b = le32 1 | _ \<Rightarrow> False)"

definition uses :: "platform \<Rightarrow> int \<Rightarrow> syscall \<Rightarrow> bool" where
  "uses P f c \<longleftrightarrow> (sys_fd c \<in> {None, Some f} \<or> sets_nosigpipe P c) \<and> c \<noteq> SysClose f"

lemma uses_simps [simp]:
  "uses P f (SysFcntl f a b)" "uses P f (SysConnect f c)" "uses P f (SysBind f c)" "uses P f (SysListen f a)"
  "uses P f (SysAccept f)" "uses P f (SysRecv f n)" "uses P f (SysSend f c a)" "uses P f (SysRecvFrom f n m)"
  "uses P f (SysSendTo f c a d)" "uses P f (SysGetPeerName f n)" "uses P f (SysGetSockName f n)"
  "uses P f (SysGetSockOpt f a b n)" "uses P f (SysSetSockOpt f a b c)" "uses P f (SysGetNameInfo c)"
  "uses P f (SysGetAddrInfo c d a b e)" "uses P f (SysFreeAddrInfo c)"
"SO_NOSIGPIPE P = Some opt \<Longrightarrow> uses P f (SysSetSockOpt g (SOL_SOCKET P) opt (le32 1))"
  by (simp_all add: uses_def sets_nosigpipe_def)

lemmas method_defs = sock_setblocking_def sock_connect_def sock_recv_def sock_send_def sock_recvfrom_def
  sock_sendto_def sock_bind_def sock_listen_def sock_accept_def sock_fileno_def sock_getpeername_def
  sock_getsockname_def sock_getsockopt_def sock_setsockopt_def






section \<open>Errors, bounds and resources\<close>

text \<open>
  An operation that raises an error has not called the system, and its error depends on the arguments alone.
\<close>

definition quiet :: "(kernel \<Rightarrow> 'a io) \<Rightarrow> bool" where
  "quiet m \<longleftrightarrow> (\<forall>k log e log'. m k log = (Inl (Raise e), log') \<longrightarrow>
     log' = log \<and> (\<forall>k2 log2. m k2 log2 = (Inl (Raise e), log2)))"

text \<open>Once the system has been called, no error is raised any more.\<close>

definition no_raise :: "'a io \<Rightarrow> bool" where
  "no_raise m \<longleftrightarrow> (\<forall>log e. fst (m log) \<noteq> Inl (Raise e))"

definition pure_step :: "'a io \<Rightarrow> bool" where
  "pure_step m \<longleftrightarrow> (\<exists>e. m = fail e) \<or> (\<exists>x. m = ret x)"

named_theorems raise_rules "operations that raise no error, or raise it before the first system call"

lemma no_raise_ret [raise_rules]: "no_raise (ret x)"
  by (simp add: no_raise_def ret_def)

lemma no_raise_ub [raise_rules]: "no_raise (fail (UB f))"
  by (simp add: no_raise_def fail_def)

lemma no_raise_sys [raise_rules]: "no_raise (sys k c)"
  by (simp add: no_raise_def sys_def)

lemma no_raise_sbind [raise_rules]:
  assumes "no_raise m" and "\<And>x. no_raise (f x)"
  shows "no_raise (sbind m f)"
  unfolding no_raise_def
proof (intro allI)
  fix log e
  obtain r log' where run: "sbind m f log = (r, log')" by fastforce
  have "r \<noteq> Inl (Raise e)"
  proof (rule sbind_cases [OF run])
    fix e' assume "m log = (Inl e', log')" "r = Inl e'"
    then show ?thesis using assms(1) unfolding no_raise_def by (metis fst_conv sum.inject(1))
  next
    fix x log1 assume "f x log1 = (r, log')"
    then show ?thesis using assms(2) [of x] unfolding no_raise_def by (metis fst_conv)
  qed
  then show "fst (sbind m f log) \<noteq> Inl (Raise e)" by (simp add: run)
qed

lemma no_raise_if [raise_rules]: "no_raise m \<Longrightarrow> no_raise n \<Longrightarrow> no_raise (if c then m else n)"
  by simp

lemma no_raise_received [raise_rules]: "no_raise (received n a)"
  by (auto simp: received_def intro: raise_rules)

lemma no_raise_setsock [raise_rules]: "no_raise (setsock P k f fam ty proto)"
  by (auto simp: setsock_def split: option.splits intro!: raise_rules)

lemma no_raise_makeaddr [raise_rules]: "no_raise (makeaddr k a)"
  by (auto simp: makeaddr_def intro!: raise_rules)

lemma no_raise_getsockaddrarg [raise_rules]: "no_raise (getsockaddrarg k s h p)"
  by (auto simp: getsockaddrarg_def intro!: raise_rules)

lemma pure_args [raise_rules]:
  "pure_step (ret x)" "pure_step (fail e)" "pure_step (int_arg L n v)" "pure_step (str_arg L n v)"
  "pure_step (opt_arg L n d v)" "pure_step (len_arg L n v)"
  by (auto simp: pure_step_def int_arg_def str_arg_def opt_arg_def len_arg_def split: option.splits)

lemma pure_sbind [raise_rules]: "pure_step m \<Longrightarrow> (\<And>x. pure_step (f x)) \<Longrightarrow> pure_step (sbind m f)"
  unfolding pure_step_def
  by (elim disjE exE) (auto simp: sbind_def fail_def ret_def fun_eq_iff)

lemma pure_port [raise_rules]: "pure_step (port_arg L n v)"
  unfolding port_arg_def by (intro raise_rules)

lemma quiet_no_raise: "(\<And>k. no_raise (m k)) \<Longrightarrow> quiet m"
  unfolding quiet_def no_raise_def by (metis fst_conv)

lemma quiet_fail: "quiet (\<lambda>k. fail e)"
  by (simp add: quiet_def fail_def)

lemma quiet_arg:
  assumes "pure_step m" and f: "\<And>x. quiet (\<lambda>k. f k x)"
  shows "quiet (\<lambda>k. sbind m (f k))"
  using assms(1) unfolding pure_step_def
proof (elim disjE exE)
  fix e assume "m = fail e"
  then show ?thesis by (simp add: quiet_def sbind_def fail_def)
next
  fix x assume "m = ret x"
  then have "sbind m (f k) = f k x" for k by (simp add: sbind_def ret_def fun_eq_iff)
  then show ?thesis using f [of x] by (simp only:)
qed

lemma quiet_if: "quiet m \<Longrightarrow> quiet n \<Longrightarrow> quiet (\<lambda>k. if c then m k else n k)"
  by (cases c) simp_all

lemma quiet_option: "quiet m \<Longrightarrow> (\<And>x. quiet (\<lambda>k. f k x)) \<Longrightarrow> quiet (\<lambda>k. case v of None \<Rightarrow> m k | Some x \<Rightarrow> f k x)"
  by (cases v) simp_all

lemmas quiet_rules = quiet_fail quiet_arg quiet_if quiet_option

lemma pure_flag [raise_rules]:
  "pure_step (case v of LStr b \<Rightarrow> ret b
     | LInt i \<Rightarrow> sbind (int_arg L 4 v) (\<lambda>flag. ret (le32 (word_of_int flag)))
     | LNum d \<Rightarrow> sbind (int_arg L 4 v) (\<lambda>flag. ret (le32 (word_of_int flag)))
     | _ \<Rightarrow> fail (Raise (SockArg 4)))"
  by (cases v) (auto intro!: pure_args pure_sbind)

lemma methods_quiet:
  "quiet (\<lambda>k. sock_setblocking P k s a)" "quiet (\<lambda>k. sock_connect k L s a b)"
  "quiet (\<lambda>k. sock_recv P k L s a)" "quiet (\<lambda>k. sock_send P k L s a b)"
  "quiet (\<lambda>k. sock_recvfrom P k L s a)" "quiet (\<lambda>k. sock_sendto P k L s a b c d)"
  "quiet (\<lambda>k. sock_bind k L s a b)" "quiet (\<lambda>k. sock_listen k L s a)"
  "quiet (\<lambda>k. sock_accept P k s)" "quiet (\<lambda>k. sock_fileno s)"
  "quiet (\<lambda>k. sock_getpeername P k s)" "quiet (\<lambda>k. sock_getsockname P k s)"
  "quiet (\<lambda>k. sock_getsockopt k L s a b c)" "quiet (\<lambda>k. sock_setsockopt k L s a b c)"
  unfolding method_defs Let_def with_array_def
  by ((rule quiet_arg, (intro raise_rules)[1]) | rule quiet_fail quiet_if quiet_option
     | (rule quiet_no_raise, (intro raise_rules)[1]))+

lemma sbind_ret_raise: "sbind m (\<lambda>r. ret (r, s)) log = (Inl e, log') \<longleftrightarrow> m log = (Inl e, log')"
  by (auto simp: sbind_def ret_def split: prod.splits sum.splits)

lemma quiet_ret: "quiet m \<Longrightarrow> quiet (\<lambda>k. sbind (m k) (\<lambda>r. ret (r, s)))"
  unfolding quiet_def sbind_ret_raise by assumption

lemma invoke_quiet: "quiet (\<lambda>k. invoke P k L s c)"
proof (cases "c = Close")
  case True
  then have "no_raise (invoke P k L s c)" for k
    by (simp add: sock_close_def no_raise_sbind no_raise_sys no_raise_ret)
  then show ?thesis by (rule quiet_no_raise)
next
  case False
  then show ?thesis by (cases c) (simp_all add: quiet_ret methods_quiet)
qed

text \<open>A kernel that keeps to what \<open>recv\<close> documents: it stores as many bytes as it returns, at most as many as asked for.\<close>

definition recv_ok :: "kernel \<Rightarrow> bool" where
  "recv_ok k \<longleftrightarrow> (\<forall>log f n. let a = k log (SysRecv f n) in
     r_ret a = -1 \<or> r_ret a = int (length (r_data a)) \<and> length (r_data a) \<le> n)"

lemma to_int32_le: "0 \<le> x \<Longrightarrow> to_int32 x \<le> x"
proof (cases "x \<le> INT_MAX")
  case False
  then show ?thesis using to_int32_range(2) [of x] by linarith
qed simp

section \<open>Properties\<close>


text \<open>
  C34. A method that raises an argument error raises it before its first system call: the log is as it was,
  and the same call on the same object raises the same error whatever the kernel would answer.
\<close>

theorem errors_precede_system_calls:
  assumes "invoke P k L s c log = (Inl (Raise e), log')"
  shows "log' = log \<and> (\<forall>k2 log2. invoke P k2 L s c log2 = (Inl (Raise e), log2))"
  using invoke_quiet [of P L s c] assms unfolding quiet_def by blast

text \<open>
  C35. With a kernel that keeps to what \<open>recv\<close> documents, and a length between 1 and the room on the C
  stack, \<open>recv\<close> makes one system call and reads no byte the kernel has not stored. What the call returns is
  narrowed to an \<open>int\<close>: when that is negative Lua gets nil and the error number, otherwise as many of the
  received bytes, which for a length below two gigabytes are all of them.
\<close>

theorem recv_exact:
  assumes "recv_ok k" and "lua_tointegerx L v = Some n" and "0 < unat n" and "unat n \<le> stack_room P"
  shows "let a = k log (SysRecv (fd s) (unat n)); nread = to_int32 (r_ret a) in
    sock_recv P k L s v log = (Inr (Values (if nread < 0 then [LNil, lua_int (r_errno a)]
      else [LStr (take (nat nread) (r_data a))])), log @ [SysRecv (fd s) (unat n)]) \<and>
    (0 \<le> r_ret a \<longrightarrow> unat n < 2 ^ 31 \<longrightarrow> 0 \<le> nread \<and> take (nat nread) (r_data a) = r_data a)"
proof -
  define a where "a = k log (SysRecv (fd s) (unat n))"
  have "r_ret a = -1 \<or> r_ret a = int (length (r_data a)) \<and> length (r_data a) \<le> unat n"
    using assms(1) unfolding recv_ok_def Let_def a_def by blast
  then have ok: "0 \<le> r_ret a \<Longrightarrow> r_ret a = int (length (r_data a)) \<and> length (r_data a) \<le> unat n" "-1 \<le> r_ret a"
    by auto
  have small: "to_int32 (r_ret a) = r_ret a" if "r_ret a < 2 ^ 31" using ok(2) that by (simp add: to_int32_id)
  have le: "to_int32 (r_ret a) \<le> r_ret a" if "0 \<le> r_ret a" using to_int32_le [OF that] .
  have neg: "to_int32 (r_ret a) < 0" if "r_ret a < 0" using small that by simp
  have fits: "\<not> int (unat n) < int_ret a" "\<not> int (length (r_data a)) < int_ret a" if r: "0 \<le> int_ret a"
  proof -
    have nonneg: "0 \<le> r_ret a" using r neg unfolding int_ret_def by linarith
    then show "\<not> int (unat n) < int_ret a" "\<not> int (length (r_data a)) < int_ret a"
      using ok(1) le unfolding int_ret_def by linarith+
  qed
  have "sock_recv P k L s v log = (Inr (Values (if to_int32 (r_ret a) < 0 then [LNil, lua_int (r_errno a)]
      else [LStr (take (nat (to_int32 (r_ret a))) (r_data a))])), log @ [SysRecv (fd s) (unat n)])"
    using assms(2-) fits
    by (cases "int_ret a < 0")
       (simp_all add: sock_recv_def sbind_def len_arg_def ret_def with_array_def sys_def a_def [symmetric]
         received_def fail_def int_ret_def)
  moreover have "0 \<le> to_int32 (r_ret a) \<and> take (nat (to_int32 (r_ret a))) (r_data a) = r_data a"
    if "0 \<le> r_ret a" "unat n < 2 ^ 31"
  proof -
    have "length (r_data a) < 2 ^ 31" using ok(1) [OF that(1)] that(2) by linarith
    then have "r_ret a < 2 ^ 31" using ok(1) [OF that(1)] by simp
    then show ?thesis using ok(1) [OF that(1)] small that(1) by simp
  qed
  ultimately show ?thesis unfolding Let_def a_def [symmetric] by blast
qed

text \<open>
  C36. \<open>connect\<close> and \<open>bind\<close> give back what the resolver allocated: when the arguments are accepted the
  log grows by the resolver call and, when that succeeds, by the call on the descriptor and the
  release of the very address list, whatever that call answers.
\<close>

theorem addresses_released:
  assumes "lua_tolstring L host = Some h" and "lua_tointegerx L port = Some n" and "lua_tolstring L port = Some p"
  shows "let q = SysGetAddrInfo h p (family s) (type s) (protocol s); r = k log q in
    (\<exists>out. sock_connect k L s host port log = (Inr out, log @ [q] @ (if r_ret r \<noteq> 0 then []
       else [SysConnect (fd s) (r_data r), SysFreeAddrInfo (r_data r)]))) \<and>
    (\<exists>out. sock_bind k L s host port log = (Inr out, log @ [q] @ (if r_ret r \<noteq> 0 then []
       else [SysBind (fd s) (r_data r), SysFreeAddrInfo (r_data r)])))"
  using assms
  by (auto simp: sock_connect_def sock_bind_def getsockaddrarg_def io_defs)


section \<open>The properties on concrete calls\<close>

definition linux :: platform where
  "linux = \<lparr>AF_INET = 2, AF_INET6 = 10, SOCK_STREAM = 1, MSG_NOSIGNAL = 16384, F_GETFL = 3, F_SETFL = 4,
     O_NONBLOCK = 2048, SOL_SOCKET = 1, SO_NOSIGPIPE = None, sockaddr_in_size = 16, sockaddr_in6_size = 28, stack_room = 8000000\<rparr>"

text \<open>A kernel that knows no host, and one that resolves and sends 5 bytes; each receives 3 bytes.\<close>

fun unknown_host :: kernel where
  "unknown_host log (SysGetAddrInfo a b c d e) = \<lparr>r_ret = 5, r_errno = 0, r_data = [], r_data2 = []\<rparr>"
| "unknown_host log (SysRecv f n) = (if 3 \<le> n then \<lparr>r_ret = 3, r_errno = 0, r_data = [1, 2, 3], r_data2 = []\<rparr>
     else \<lparr>r_ret = -1, r_errno = 11, r_data = [], r_data2 = []\<rparr>)"
| "unknown_host log c = \<lparr>r_ret = 0, r_errno = 0, r_data = [], r_data2 = []\<rparr>"

fun sends_five :: kernel where
  "sends_five log (SysSendTo f b n a) = \<lparr>r_ret = 5, r_errno = 0, r_data = [], r_data2 = []\<rparr>"
| "sends_five log c = \<lparr>r_ret = 0, r_errno = 0, r_data = [9], r_data2 = []\<rparr>"

definition tcp :: socket_t where
  "tcp = \<lparr>fd = 7, family = 2, type = 1, protocol = 6\<rparr>"


theorem errors_precede_system_calls_witness:
  "\<forall>k2 log2. invoke linux k2 plain_env tcp (Send (LStr [1]) (LInt 1)) log2 = (Inl (Raise (SockArg 3)), log2)"
proof -
  have "invoke linux unknown_host plain_env tcp (Send (LStr [1]) (LInt 1)) [] = (Inl (Raise (SockArg 3)), [])"
    by (simp add: sock_send_def io_defs tcp_def)
  then show ?thesis using errors_precede_system_calls by blast
qed

theorem recv_exact_witness:
  "sock_recv linux unknown_host plain_env tcp (LInt 10) [] = (Inr (Values [LStr [1, 2, 3]]), [SysRecv 7 10])"
proof -
  have "recv_ok unknown_host" by (simp add: recv_ok_def)
  then show ?thesis
    using recv_exact [of unknown_host plain_env "LInt 10" 10 linux "[]" tcp]
    by (simp add: Let_def linux_def tcp_def)
qed

theorem addresses_released_witness:
  "\<exists>out. sock_connect sends_five plain_env tcp (LStr [49]) (LInt 5) [] = (Inr out,
     [SysGetAddrInfo [49] [53] 2 1 6, SysConnect 7 [9], SysFreeAddrInfo [9]])"
  using addresses_released [of plain_env "LStr [49]" "[49]" "LInt 5" 5 "[53]" tcp sends_five "[]"]
  by (simp add: Let_def tcp_def itoa_def utoa.simps)


end
