(* ===== verification/Ev_Heap.thy ===== *)
theory Ev_Heap
  imports Prelude
begin

text \<open>
  The timer heap of \<open>deps/libev/ev.c\<close>: \<open>downheap\<close>, \<open>upheap\<close>, \<open>adjustheap\<close> and \<open>reheap\<close> on the 4-heap
  with cached times (the default build options \<open>EV_USE_4HEAP\<close> and \<open>EV_HEAP_CACHE_AT\<close>). Times are
  values of a linear order, since the heap only compares them. An array is a function from its indices;
  the positions of the watchers (\<open>ev_active\<close>) are kept beside it. The lemmas show that the routines
  restore the heap order and the positions, and keep the entries.
\<close>

section \<open>The routines\<close>

type_synonym wid = nat
type_synonym 't anhe = "'t \<times> wid"

record 't heap =
  entry :: "nat \<Rightarrow> 't anhe"
  position :: "wid \<Rightarrow> nat"

abbreviation ANHE_at :: "'t anhe \<Rightarrow> 't" where "ANHE_at \<equiv> fst"
abbreviation ANHE_w :: "'t anhe \<Rightarrow> wid" where "ANHE_w \<equiv> snd"

abbreviation (input) DHEAP :: nat where "DHEAP \<equiv> 4"
abbreviation (input) HEAP0 :: nat where "HEAP0 \<equiv> 3"

definition HPARENT :: "nat \<Rightarrow> nat" where
  "HPARENT k = (k - HEAP0 - 1) div DHEAP + HEAP0"

text \<open>\<open>heap [k] = he; ev_active (ANHE_w (he)) = k\<close>\<close>

definition place :: "nat \<Rightarrow> 't anhe \<Rightarrow> 't heap \<Rightarrow> 't heap" where
  "place k he H = H\<lparr>entry := (entry H)(k := he), position := (position H)(ANHE_w he := k)\<rparr>"

definition smaller :: "(nat \<Rightarrow> 't::linorder anhe) \<Rightarrow> nat \<Rightarrow> nat \<Rightarrow> nat" where
  "smaller h pos m = (if ANHE_at (h pos) < ANHE_at (h m) then pos else m)"

definition smaller_in :: "(nat \<Rightarrow> 't::linorder anhe) \<Rightarrow> nat \<Rightarrow> nat \<Rightarrow> nat \<Rightarrow> nat" where
  "smaller_in h E pos m = (if pos < E \<and> ANHE_at (h pos) < ANHE_at (h m) then pos else m)"

text \<open>The position of the smallest child: the fast path with all four children, the slow path, or none.\<close>

definition min_child :: "(nat \<Rightarrow> 't::linorder anhe) \<Rightarrow> nat \<Rightarrow> nat \<Rightarrow> nat option" where
  "min_child h N k =
     (let E = N + HEAP0; pos = DHEAP * (k - HEAP0) + HEAP0 + 1 in
      if pos + DHEAP - 1 < E then
        Some (smaller h (pos + 3) (smaller h (pos + 2) (smaller h (pos + 1) pos)))
      else if pos < E then
        Some (smaller_in h E (pos + 3) (smaller_in h E (pos + 2) (smaller_in h E (pos + 1) pos)))
      else None)"

text \<open>The children of \<open>k\<close> inside the heap are the positions the routine compares.\<close>

lemma min_child_bounds:
  assumes "min_child h N k = Some m"
  shows "DHEAP * (k - HEAP0) + HEAP0 + 1 \<le> m" "m \<le> DHEAP * (k - HEAP0) + HEAP0 + 4" "m < N + HEAP0"
  using assms unfolding min_child_def smaller_def smaller_in_def Let_def by (auto split: if_split_asm)

function downheap_from :: "nat \<Rightarrow> 't::linorder anhe \<Rightarrow> nat \<Rightarrow> 't heap \<Rightarrow> 't heap" where
  "downheap_from N he k H = (case min_child (entry H) N k of
     None \<Rightarrow> place k he H
   | Some m \<Rightarrow>
       if ANHE_at he \<le> ANHE_at (entry H m) then place k he H
       else downheap_from N he m (place k (entry H m) H))"
  by pat_completeness auto
termination
  by (relation "measure (\<lambda>(N, he, k, H). N + HEAP0 - k)") (use min_child_bounds in \<open>fastforce simp del: mult_Suc_right\<close>)+

declare downheap_from.simps [simp del]

definition downheap :: "nat \<Rightarrow> nat \<Rightarrow> 't::linorder heap \<Rightarrow> 't heap" where
  "downheap N k H = downheap_from N (entry H k) k H"

lemma HPARENT_less: "HEAP0 < k \<Longrightarrow> HPARENT k < k"
  unfolding HPARENT_def by linarith

lemma HPARENT_range: "k \<in> {HEAP0..<N + HEAP0} \<Longrightarrow> HPARENT k \<in> {HEAP0..<N + HEAP0}"
  unfolding HPARENT_def by auto

text \<open>\<open>UPHEAP_DONE\<close> holds at the root, which is its own parent.\<close>

function upheap_from :: "'t::linorder anhe \<Rightarrow> nat \<Rightarrow> 't heap \<Rightarrow> 't heap" where
  "upheap_from he k H = (let p = HPARENT k in
     if p = k \<or> ANHE_at (entry H p) \<le> ANHE_at he then place k he H
     else upheap_from he p (place k (entry H p) H))"
  by pat_completeness auto
termination
  by (relation "measure (\<lambda>(he, k, H). if k < HEAP0 then DHEAP else k)") (auto simp: HPARENT_def)

declare upheap_from.simps [simp del]

definition upheap :: "nat \<Rightarrow> 't::linorder heap \<Rightarrow> 't heap" where
  "upheap k H = upheap_from (entry H k) k H"

definition adjustheap :: "nat \<Rightarrow> nat \<Rightarrow> 't::linorder heap \<Rightarrow> 't heap" where
  "adjustheap N k H =
     (if k > HEAP0 \<and> ANHE_at (entry H k) \<le> ANHE_at (entry H (HPARENT k)) then upheap k H else downheap N k H)"

fun reheap :: "nat \<Rightarrow> 't::linorder heap \<Rightarrow> 't heap" where
  "reheap 0 H = H"
| "reheap (Suc i) H = upheap (i + HEAP0) (reheap i H)"

section \<open>Positions\<close>

abbreviation (input) slots :: "nat \<Rightarrow> nat set" where
  "slots N \<equiv> {HEAP0..<N + HEAP0}"

text \<open>
  The heap with the entry \<open>he\<close> that the loops carry put back at the position \<open>k\<close> they have reached; they
  differ from the array only there.
\<close>

definition filled :: "'t heap \<Rightarrow> nat \<Rightarrow> 't anhe \<Rightarrow> nat \<Rightarrow> 't anhe" where
  "filled H k he = (entry H)(k := he)"

definition tracked :: "nat \<Rightarrow> 't heap \<Rightarrow> nat \<Rightarrow> 't anhe \<Rightarrow> bool" where
  "tracked N H k he \<longleftrightarrow> k \<in> slots N \<and> inj_on (ANHE_w \<circ> filled H k he) (slots N) \<and>
     (\<forall>j \<in> slots N. j \<noteq> k \<longrightarrow> position H (ANHE_w (entry H j)) = j)"

text \<open>Same entries, all positions right, watchers outside untouched.\<close>

definition settled :: "nat \<Rightarrow> 't anhe set \<Rightarrow> (wid \<Rightarrow> nat) \<Rightarrow> 't heap \<Rightarrow> bool" where
  "settled N es pos H \<longleftrightarrow> entry H ` slots N = es \<and> inj_on (ANHE_w \<circ> entry H) (slots N) \<and>
     (\<forall>j \<in> slots N. position H (ANHE_w (entry H j)) = j) \<and>
     (\<forall>w. w \<notin> ANHE_w ` es \<longrightarrow> position H w = pos w)"

lemma filled_simps [simp]: "filled H k he k = he" "j \<noteq> k \<Longrightarrow> filled H k he j = entry H j"
  by (simp_all add: filled_def)

lemma filled_move:
  "m \<noteq> k \<Longrightarrow> filled (place k (entry H m) H) m he = (filled H k he)(k := filled H k he m, m := filled H k he k)"
  by (auto simp: filled_def place_def fun_eq_iff)

definition swapped :: "nat \<Rightarrow> nat \<Rightarrow> nat \<Rightarrow> nat" where
  "swapped k m j = (if j = k then m else if j = m then k else j)"

lemma swapped_swapped [simp]: "swapped k m (swapped k m j) = j"
  by (simp add: swapped_def)

lemma swapped_image: "k \<in> A \<Longrightarrow> m \<in> A \<Longrightarrow> swapped k m ` A = A"
proof (rule set_eqI, rule iffI)
  fix x assume "k \<in> A" "m \<in> A" "x \<in> A"
  then have "swapped k m x \<in> A" by (simp add: swapped_def)
  then show "x \<in> swapped k m ` A" by (rule image_eqI [rotated]) simp
qed (auto simp: swapped_def split: if_splits)

lemma swap_swapped: "f(k := f m, m := f k) = f \<circ> swapped k m"
  by (simp add: fun_eq_iff swapped_def)

lemma swap_image: "(k :: nat) \<in> A \<Longrightarrow> m \<in> A \<Longrightarrow> (f(k := f m, m := f k)) ` A = f ` A"
  using swapped_image [of k A m] unfolding swap_swapped image_comp [symmetric] by simp

lemma swap_inj:
  fixes f :: "nat \<Rightarrow> 'a"
  assumes "inj_on (g \<circ> f) A" and "k \<in> A" "m \<in> A"
  shows "inj_on (g \<circ> (f(k := f m, m := f k))) A"
proof -
  have "inj_on (swapped k m) A" by (rule inj_on_inverseI [of _ "swapped k m"]) simp
  then have "inj_on ((g \<circ> f) \<circ> swapped k m) A"
    by (rule comp_inj_on) (use assms in \<open>simp add: swapped_image\<close>)
  then show ?thesis unfolding swap_swapped by (simp add: comp_assoc)
qed

lemma tracked_move:
  assumes t: "tracked N H k he" and m: "m \<in> slots N" "m \<noteq> k"
  shows "tracked N (place k (entry H m) H) m he"
proof -
  let ?H = "place k (entry H m) H"
  have inj: "inj_on (ANHE_w \<circ> filled H k he) (slots N)" and k: "k \<in> slots N"
    and pos: "\<And>j. j \<in> slots N \<Longrightarrow> j \<noteq> k \<Longrightarrow> position H (ANHE_w (entry H j)) = j"
    using t by (auto simp: tracked_def)
  have "position ?H (ANHE_w (entry ?H j)) = j" if j: "j \<in> slots N" "j \<noteq> m" for j
  proof (cases "j = k")
    case True
    then show ?thesis by (simp add: place_def)
  next
    case False
    then have "ANHE_w (entry H j) \<noteq> ANHE_w (entry H m)"
      using inj_onD [OF inj, of j m] j m by auto
    then show ?thesis using False pos [OF j(1)] by (simp add: place_def)
  qed
  then show ?thesis
    using swap_inj [OF inj k m(1)] m unfolding tracked_def filled_move [OF m(2)] by simp
qed

lemma move_image:
  assumes "tracked N H k he" and "m \<in> slots N" "m \<noteq> k"
  shows "filled (place k (entry H m) H) m he ` slots N = filled H k he ` slots N"
  unfolding filled_move [OF assms(3)] by (rule swap_image) (use assms in \<open>auto simp: tracked_def\<close>)

lemma move_others:
  assumes "m \<in> slots N" "m \<noteq> k" and "w \<notin> ANHE_w ` filled H k he ` slots N"
  shows "position (place k (entry H m) H) w = position H w"
proof -
  have "ANHE_w (entry H m) \<in> ANHE_w ` filled H k he ` slots N"
    using assms(1,2) by (metis filled_simps(2) imageI)
  with assms(3) show ?thesis by (auto simp: place_def)
qed

lemma place_settled:
  assumes t: "tracked N H k he"
  shows "settled N (filled H k he ` slots N) (position H) (place k he H)"
proof -
  have e: "entry (place k he H) = filled H k he" by (simp add: place_def filled_def)
  have k: "k \<in> slots N" and inj: "inj_on (ANHE_w \<circ> filled H k he) (slots N)" using t by (auto simp: tracked_def)
  have "position (place k he H) (ANHE_w (filled H k he j)) = j" if j: "j \<in> slots N" for j
  proof (cases "j = k")
    case False
    then have "ANHE_w (entry H j) \<noteq> ANHE_w he" using inj_onD [OF inj, of j k] j k by auto
    then show ?thesis using False t j by (simp add: place_def tracked_def)
  qed (simp add: place_def)
  moreover have "position (place k he H) w = position H w" if "w \<notin> ANHE_w ` filled H k he ` slots N" for w
  proof -
    have "ANHE_w he \<in> ANHE_w ` filled H k he ` slots N" using k by (metis filled_simps(1) imageI)
    then show ?thesis using that by (auto simp: place_def)
  qed
  ultimately show ?thesis using inj by (simp add: settled_def e)
qed

text \<open>The loops, as far as positions and entries go.\<close>

lemma settled_move:
  assumes "tracked N H k he" "m \<in> slots N" "m \<noteq> k"
    and "settled N (filled (place k (entry H m) H) m he ` slots N) (position (place k (entry H m) H)) H'"
  shows "settled N (filled H k he ` slots N) (position H) H'"
  using assms(4) move_others [OF assms(2,3)] unfolding settled_def move_image [OF assms(1-3)] by metis

lemma downheap_from_settled:
  "tracked N H k he \<Longrightarrow> settled N (filled H k he ` slots N) (position H) (downheap_from N he k H)"
proof (induction N he k H rule: downheap_from.induct)
  case (1 N he k H)
  show ?case
  proof (cases "min_child (entry H) N k")
    case None
    then show ?thesis using place_settled [OF 1(2)] by (subst downheap_from.simps) simp
  next
    case (Some m)
    then have m: "m \<in> slots N" "m \<noteq> k"
      using min_child_bounds [OF Some] 1(2) by (auto simp: tracked_def)
    show ?thesis
    proof (cases "ANHE_at he \<le> ANHE_at (entry H m)")
      case True
      then show ?thesis using place_settled [OF 1(2)] Some by (subst downheap_from.simps) simp
    next
      case False
      from settled_move [OF 1(2) m 1(1) [OF Some False tracked_move [OF 1(2) m]]]
      show ?thesis using Some False by (subst downheap_from.simps) simp
    qed
  qed
qed

lemma upheap_from_settled:
  "tracked N H k he \<Longrightarrow> settled N (filled H k he ` slots N) (position H) (upheap_from he k H)"
proof (induction he k H rule: upheap_from.induct)
  case (1 he k H)
  let ?p = "HPARENT k"
  show ?case
  proof (cases "?p = k \<or> ANHE_at (entry H ?p) \<le> ANHE_at he")
    case True
    then show ?thesis using place_settled [OF 1(2)] by (subst upheap_from.simps) (auto simp: Let_def)
  next
    case False
    have p: "?p \<in> slots N" "?p \<noteq> k"
      using 1(2) False HPARENT_range [of k N] by (auto simp: tracked_def)
    from settled_move [OF 1(2) p 1(1) [OF refl False tracked_move [OF 1(2) p]]]
    show ?thesis using False by (subst upheap_from.simps) (simp add: Let_def)
  qed
qed


section \<open>Order\<close>

definition ordered :: "nat \<Rightarrow> (nat \<Rightarrow> 't::linorder anhe) \<Rightarrow> bool" where
  "ordered N h \<longleftrightarrow> (\<forall>j \<in> slots N. HEAP0 < j \<longrightarrow> ANHE_at (h (HPARENT j)) \<le> ANHE_at (h j))"

text \<open>The order may fail between \<open>k\<close> and its parent or its children, but not across \<open>k\<close>.\<close>

definition ordered_but :: "nat \<Rightarrow> nat \<Rightarrow> (nat \<Rightarrow> 't::linorder anhe) \<Rightarrow> bool" where
  "ordered_but N k h \<longleftrightarrow>
     (\<forall>j \<in> slots N. HEAP0 < j \<longrightarrow> j \<noteq> k \<longrightarrow> HPARENT j \<noteq> k \<longrightarrow> ANHE_at (h (HPARENT j)) \<le> ANHE_at (h j)) \<and>
     (\<forall>j \<in> slots N. HEAP0 < k \<longrightarrow> HEAP0 < j \<longrightarrow> HPARENT j = k \<longrightarrow> ANHE_at (h (HPARENT k)) \<le> ANHE_at (h j))"

definition parent_ok :: "nat \<Rightarrow> (nat \<Rightarrow> 't::linorder anhe) \<Rightarrow> bool" where
  "parent_ok k h \<longleftrightarrow> (HEAP0 < k \<longrightarrow> ANHE_at (h (HPARENT k)) \<le> ANHE_at (h k))"

definition children_ok :: "nat \<Rightarrow> nat \<Rightarrow> (nat \<Rightarrow> 't::linorder anhe) \<Rightarrow> bool" where
  "children_ok N k h \<longleftrightarrow> (\<forall>j \<in> slots N. HEAP0 < j \<longrightarrow> HPARENT j = k \<longrightarrow> ANHE_at (h k) \<le> ANHE_at (h j))"

lemma ordered_iff: "ordered N h \<longleftrightarrow> ordered_but N k h \<and> (k \<in> slots N \<longrightarrow> parent_ok k h) \<and> children_ok N k h"
  if "k \<in> slots N"
proof
  assume o: "ordered N h"
  have "ANHE_at (h (HPARENT k)) \<le> ANHE_at (h j)" if "j \<in> slots N" "HEAP0 < k" "HEAP0 < j" "HPARENT j = k" for j
  proof -
    have "ANHE_at (h (HPARENT k)) \<le> ANHE_at (h k)" "ANHE_at (h k) \<le> ANHE_at (h j)"
      using o that \<open>k \<in> slots N\<close> unfolding ordered_def by blast+
    then show ?thesis by (rule order_trans)
  qed
  then show "ordered_but N k h \<and> (k \<in> slots N \<longrightarrow> parent_ok k h) \<and> children_ok N k h"
    using o that unfolding ordered_def ordered_but_def parent_ok_def children_ok_def by blast
qed (auto simp: ordered_def ordered_but_def parent_ok_def children_ok_def that)

lemma ordered_update:
  assumes "ordered N h" and "k \<in> slots N"
  shows "ordered_but N k (h(k := e))"
proof -
  have "ordered_but N k h" using assms ordered_iff by blast
  moreover have "HPARENT k \<noteq> k \<or> \<not> HEAP0 < k" using HPARENT_less [of k] by auto
  ultimately show ?thesis
    using HPARENT_less unfolding ordered_but_def by (auto simp: less_imp_neq)
qed

text \<open>\<open>min_child\<close> finds a smallest child.\<close>

lemma child_iff: "HEAP0 < j \<and> HPARENT j = k \<longleftrightarrow>
    HEAP0 \<le> k \<and> DHEAP * (k - HEAP0) + HEAP0 + 1 \<le> j \<and> j \<le> DHEAP * (k - HEAP0) + HEAP0 + 4"
  unfolding HPARENT_def by auto

lemma smaller_le:
  "ANHE_at (h (smaller h pos m)) \<le> ANHE_at (h pos)"
  "ANHE_at (h m) \<le> x \<Longrightarrow> ANHE_at (h (smaller h pos m)) \<le> x"
  "pos < E \<Longrightarrow> ANHE_at (h (smaller_in h E pos m)) \<le> ANHE_at (h pos)"
  "ANHE_at (h m) \<le> x \<Longrightarrow> ANHE_at (h (smaller_in h E pos m)) \<le> x"
  by (auto simp: smaller_def smaller_in_def)

lemma fast_path_least:
  assumes "j = pos \<or> j = pos + 1 \<or> j = pos + 2 \<or> j = pos + 3"
  shows "ANHE_at (h (smaller h (pos + 3) (smaller h (pos + 2) (smaller h (pos + 1) pos)))) \<le> ANHE_at (h j)"
proof -
  note le = smaller_le [where h = h]
  show ?thesis
  using assms(1)
  proof (elim disjE)
  assume "j = pos" then show ?thesis by (intro le(2)) simp
next
  assume j: "j = pos + 1" show ?thesis unfolding j by (rule le(2), rule le(2), rule le(1))
next
  assume j: "j = pos + 2" show ?thesis unfolding j by (rule le(2), rule le(1))
next
  assume j: "j = pos + 3" show ?thesis unfolding j by (rule le(1))
  qed
qed

lemma slow_path_least:
  assumes "j = pos \<or> j = pos + 1 \<or> j = pos + 2 \<or> j = pos + 3" and E: "j < E"
  shows "ANHE_at (h (smaller_in h E (pos + 3) (smaller_in h E (pos + 2) (smaller_in h E (pos + 1) pos)))) \<le> ANHE_at (h j)"
proof -
  note le = smaller_le [where h = h]
  show ?thesis
  using assms(1)
  proof (elim disjE)
  assume "j = pos" then show ?thesis by (intro le(4)) simp
next
  assume j: "j = pos + 1"
  show ?thesis using E unfolding j by (intro le(4) [OF le(4)] le(3))
next
  assume j: "j = pos + 2" show ?thesis using E unfolding j by (intro le(4) [OF le(3)])
next
  assume j: "j = pos + 3" show ?thesis using E unfolding j by (rule le(3))
  qed
qed

lemma min_child_least:
  assumes "HEAP0 \<le> k" and j: "j \<in> slots N" "HEAP0 < j" "HPARENT j = k"
  shows "\<exists>m. min_child h N k = Some m \<and> ANHE_at (h m) \<le> ANHE_at (h j)"
proof -
  let ?pos = "DHEAP * (k - HEAP0) + HEAP0 + 1"
  have b: "?pos \<le> j" "j \<le> ?pos + 3" using child_iff [of j k] j by auto
  then have "j = ?pos \<or> j = ?pos + 1 \<or> j = ?pos + 2 \<or> j = ?pos + 3" by arith
  moreover have "j < N + HEAP0" using j(1) by simp
  moreover have "?pos < N + HEAP0" using b(1) \<open>j < N + HEAP0\<close> by (rule le_less_trans)
  ultimately show ?thesis
    using fast_path_least [of j ?pos h] slow_path_least [of j ?pos "N + HEAP0" h]
    unfolding min_child_def Let_def by metis
qed

lemma min_child_is_child:
  assumes "min_child h N k = Some m" and "HEAP0 \<le> k"
  shows "m \<in> slots N" "HEAP0 < m" "HPARENT m = k" "k < m"
  using min_child_bounds [OF assms(1)] assms(2) child_iff [of m k] by auto


lemma place_filled: "entry (place k he H) = filled H k he"
  by (simp add: place_def filled_def)

lemma swapped_down:
  assumes c: "ordered_but N k c" "parent_ok k c" and k: "k \<in> slots N"
    and m: "m \<in> slots N" "HPARENT m = k" "k < m"
    and least: "\<And>j. j \<in> slots N \<Longrightarrow> HEAP0 < j \<Longrightarrow> HPARENT j = k \<Longrightarrow> ANHE_at (c m) \<le> ANHE_at (c j)"
    and less: "ANHE_at (c m) < ANHE_at (c k)"
  shows "ordered_but N m (c(k := c m, m := c k))" and "parent_ok m (c(k := c m, m := c k))"
proof -
  let ?d = "c(k := c m, m := c k)"
  have m0: "HEAP0 < m" using m k by auto
  have pk: "HPARENT k \<noteq> m" if "HEAP0 < k" using HPARENT_less [OF that] m(3) by auto
  have pk': "HPARENT k \<noteq> k" if "HEAP0 < k" using HPARENT_less [OF that] by auto
  have one: "ANHE_at (?d (HPARENT j)) \<le> ANHE_at (?d j)"
    if j: "j \<in> slots N" "HEAP0 < j" "j \<noteq> m" "HPARENT j \<noteq> m" for j
  proof (cases "j = k")
    case True
    then have "ANHE_at (c (HPARENT k)) \<le> ANHE_at (c m)"
      using c(1) j(2) m m0 unfolding ordered_but_def by blast
    then show ?thesis using True pk pk' j m(3) by auto
  next
    case False
    show ?thesis
    proof (cases "HPARENT j = k")
      case True
      then show ?thesis using least [OF j(1,2)] False j m(3) by auto
    next
      case p: False
      then have "ANHE_at (c (HPARENT j)) \<le> ANHE_at (c j)"
        using c(1) j False unfolding ordered_but_def by blast
      then show ?thesis using False p j by simp
    qed
  qed
  have two: "ANHE_at (?d (HPARENT m)) \<le> ANHE_at (?d j)"
    if j: "j \<in> slots N" "HEAP0 < j" "HPARENT j = m" for j
  proof -
    have "m < j" using HPARENT_less [OF j(2)] j(3) by simp
    moreover have "ANHE_at (c m) \<le> ANHE_at (c j)"
      using c(1) j m(3) \<open>m < j\<close> unfolding ordered_but_def by force
    ultimately show ?thesis using m by auto
  qed
  show "ordered_but N m ?d" unfolding ordered_but_def using one two by blast
  show "parent_ok m ?d" unfolding parent_ok_def using m less by auto
qed

lemma downheap_from_ordered:
  "k \<in> slots N \<Longrightarrow> ordered_but N k (filled H k he) \<Longrightarrow> parent_ok k (filled H k he) \<Longrightarrow>
   ordered N (entry (downheap_from N he k H))"
proof (induction N he k H rule: downheap_from.induct)
  case (1 N he k H)
  note k = 1(2)
  have child: "filled H k he j = entry H j" if "HEAP0 < j" "HPARENT j = k" for j
    using HPARENT_less [OF that(1)] that(2) by simp
  show ?case
  proof (cases "min_child (entry H) N k")
    case None
    have "children_ok N k (filled H k he)"
      using min_child_least [of k _ N "entry H"] None k unfolding children_ok_def by fastforce
    then have "ordered N (filled H k he)" using 1(3,4) ordered_iff [OF k] by blast
    then show ?thesis using None by (subst downheap_from.simps) (simp add: place_filled)
  next
    case (Some m)
    have k0: "HEAP0 \<le> k" using k by simp
    note m = min_child_is_child [OF Some k0]
    have least: "ANHE_at (entry H m) \<le> ANHE_at (filled H k he j)"
      if "j \<in> slots N" "HEAP0 < j" "HPARENT j = k" for j
      using min_child_least [OF k0 that, of "entry H"] Some child [OF that(2,3)] by auto
    show ?thesis
    proof (cases "ANHE_at he \<le> ANHE_at (entry H m)")
      case True
      have "ANHE_at (filled H k he k) \<le> ANHE_at (filled H k he j)"
        if "j \<in> slots N" "HEAP0 < j" "HPARENT j = k" for j
        using order_trans [OF True least [OF that]] by simp
      then have "children_ok N k (filled H k he)" unfolding children_ok_def by blast
      then have "ordered N (filled H k he)" using 1(3,4) ordered_iff [OF k] by blast
      then show ?thesis using Some True by (subst downheap_from.simps) (simp add: place_filled)
    next
      case False
      have mk: "m \<noteq> k" using m(4) by simp
      have l: "\<And>j. j \<in> slots N \<Longrightarrow> HEAP0 < j \<Longrightarrow> HPARENT j = k \<Longrightarrow>
          ANHE_at (filled H k he m) \<le> ANHE_at (filled H k he j)"
        using least mk by simp
      have lt: "ANHE_at (filled H k he m) < ANHE_at (filled H k he k)" using False mk by simp
      have "ordered_but N m (filled (place k (entry H m) H) m he)"
          "parent_ok m (filled (place k (entry H m) H) m he)"
        unfolding filled_move [OF mk] by (rule swapped_down [OF 1(3,4) k m(1,3,4) l lt]; assumption)+
      from 1(1) [OF Some False m(1) this] show ?thesis
        using Some False by (subst downheap_from.simps) simp
    qed
  qed
qed

lemma swapped_up:
  assumes c: "ordered_but N k c" "children_ok N k c" and k: "k \<in> slots N" "HEAP0 < k"
    and p: "p = HPARENT k" and less: "ANHE_at (c k) < ANHE_at (c p)"
  shows "ordered_but N p (c(k := c p, p := c k))" and "children_ok N p (c(k := c p, p := c k))"
proof -
  let ?d = "c(k := c p, p := c k)"
  have pk: "p < k" "p \<in> slots N" using HPARENT_less [OF k(2)] HPARENT_range [OF k(1)] p by auto
  have pp: "HPARENT p \<noteq> p" "HPARENT p \<noteq> k" if "HEAP0 < p" using HPARENT_less [OF that] pk by auto
  have ord: "ANHE_at (c (HPARENT j)) \<le> ANHE_at (c j)"
    if "j \<in> slots N" "HEAP0 < j" "j \<noteq> k" for j
    using c that unfolding ordered_but_def children_ok_def by (cases "HPARENT j = k") auto
  have one: "ANHE_at (?d (HPARENT j)) \<le> ANHE_at (?d j)"
    if j: "j \<in> slots N" "HEAP0 < j" "j \<noteq> p" "HPARENT j \<noteq> p" for j
  proof -
    have jk: "j \<noteq> k" using j p by auto
    show ?thesis
    proof (cases "HPARENT j = k")
      case True
      then have "ANHE_at (c p) \<le> ANHE_at (c j)" using c(1) j k p unfolding ordered_but_def by blast
      then show ?thesis using True jk j pk by auto
    next
      case False
      then show ?thesis using ord [OF j(1,2) jk] jk j by auto
    qed
  qed
  have two: "ANHE_at (?d (HPARENT p)) \<le> ANHE_at (?d j)"
    if j: "j \<in> slots N" "HEAP0 < p" "HEAP0 < j" "HPARENT j = p" for j
  proof -
    have a: "ANHE_at (c (HPARENT p)) \<le> ANHE_at (c p)" using ord [OF pk(2) j(2)] pk(1) by simp
    show ?thesis
    proof (cases "j = k")
      case True
      then show ?thesis using a pp j(2) pk by auto
    next
      case False
      have "j \<noteq> p" using HPARENT_less [OF j(3)] j(4) by auto
      moreover have "ANHE_at (c p) \<le> ANHE_at (c j)" using ord [OF j(1,3) False] j(4) by simp
      ultimately show ?thesis using a pp [OF j(2)] False by (auto intro: order_trans)
    qed
  qed
  have three: "ANHE_at (?d p) \<le> ANHE_at (?d j)" if j: "j \<in> slots N" "HEAP0 < j" "HPARENT j = p" for j
  proof (cases "j = k")
    case True
    then show ?thesis using less pk by auto
  next
    case False
    have "j \<noteq> p" using HPARENT_less [OF j(2)] j(3) by auto
    moreover have "ANHE_at (c p) \<le> ANHE_at (c j)" using ord [OF j(1,2) False] j(3) by simp
    ultimately show ?thesis using less False by auto
  qed
  show "ordered_but N p ?d" unfolding ordered_but_def using one two by blast
  show "children_ok N p ?d" unfolding children_ok_def using three by blast
qed

lemma upheap_from_ordered:
  "k \<in> slots N \<Longrightarrow> ordered_but N k (filled H k he) \<Longrightarrow> children_ok N k (filled H k he) \<Longrightarrow>
   ordered N (entry (upheap_from he k H))"
proof (induction he k H rule: upheap_from.induct)
  case (1 he k H)
  let ?p = "HPARENT k"
  note k = 1(2)
  show ?case
  proof (cases "?p = k \<or> ANHE_at (entry H ?p) \<le> ANHE_at he")
    case True
    have "parent_ok k (filled H k he)"
      unfolding parent_ok_def using True HPARENT_less [of k] by fastforce
    then have "ordered N (filled H k he)" using 1(3,4) ordered_iff [OF k] by blast
    then show ?thesis using True by (subst upheap_from.simps) (auto simp: Let_def place_filled)
  next
    case False
    have k0: "HEAP0 < k"
    proof (rule ccontr)
      assume "\<not> HEAP0 < k"
      then have "k = HEAP0" using k by simp
      then show False using False by (simp add: HPARENT_def)
    qed
    have pk: "?p \<noteq> k" using False by simp
    have lt: "ANHE_at (filled H k he k) < ANHE_at (filled H k he ?p)" using False pk by simp
    have "ordered_but N ?p (filled (place k (entry H ?p) H) ?p he)"
        "children_ok N ?p (filled (place k (entry H ?p) H) ?p he)"
      unfolding filled_move [OF pk] by (rule swapped_up [OF 1(3,4) k k0 refl lt])+
    from 1(1) [OF refl False HPARENT_range [OF k] this] show ?thesis
      using False by (subst upheap_from.simps) (simp add: Let_def)
  qed
qed


section \<open>The routines on a heap with one entry out of place\<close>

definition heap_ok :: "nat \<Rightarrow> 't::linorder heap \<Rightarrow> bool" where
  "heap_ok N H \<longleftrightarrow> ordered N (entry H) \<and> inj_on (ANHE_w \<circ> entry H) (slots N) \<and>
     (\<forall>j \<in> slots N. position H (ANHE_w (entry H j)) = j)"

text \<open>What is left of \<open>heap_ok\<close> when the entry at \<open>k\<close> has been replaced.\<close>

definition heap_but :: "nat \<Rightarrow> nat \<Rightarrow> 't::linorder heap \<Rightarrow> bool" where
  "heap_but N k H \<longleftrightarrow> k \<in> slots N \<and> ordered_but N k (entry H) \<and> inj_on (ANHE_w \<circ> entry H) (slots N) \<and>
     (\<forall>j \<in> slots N. j \<noteq> k \<longrightarrow> position H (ANHE_w (entry H j)) = j)"

definition repaired :: "nat \<Rightarrow> 't::linorder heap \<Rightarrow> 't heap \<Rightarrow> bool" where
  "repaired N H H' \<longleftrightarrow> heap_ok N H' \<and> entry H' ` slots N = entry H ` slots N \<and>
     (\<forall>w. w \<notin> ANHE_w ` entry H ` slots N \<longrightarrow> position H' w = position H w)"

lemma filled_own: "filled H k (entry H k) = entry H"
  by (simp add: filled_def)

lemma heap_but_tracked: "heap_but N k H \<Longrightarrow> tracked N H k (entry H k)"
  by (simp add: heap_but_def tracked_def filled_own)

lemma settled_repaired:
  "settled N (entry H ` slots N) (position H) H' \<Longrightarrow> ordered N (entry H') \<Longrightarrow> repaired N H H'"
  unfolding settled_def repaired_def heap_ok_def by blast

lemma downheap_repairs:
  assumes "heap_but N k H" and "parent_ok k (entry H)"
  shows "repaired N H (downheap N k H)"
  using downheap_from_settled [OF heap_but_tracked [OF assms(1)]]
    downheap_from_ordered [of k N H "entry H k"] assms
  by (auto simp: downheap_def filled_own heap_but_def intro!: settled_repaired)

lemma upheap_repairs:
  assumes "heap_but N k H" and "children_ok N k (entry H)"
  shows "repaired N H (upheap k H)"
  using upheap_from_settled [OF heap_but_tracked [OF assms(1)]]
    upheap_from_ordered [of k N H "entry H k"] assms
  by (auto simp: upheap_def filled_own heap_but_def intro!: settled_repaired)

lemma adjustheap_repairs:
  assumes h: "heap_but N k H"
  shows "repaired N H (adjustheap N k H)"
proof (cases "k > HEAP0 \<and> ANHE_at (entry H k) \<le> ANHE_at (entry H (HPARENT k))")
  case True
  have "ANHE_at (entry H k) \<le> ANHE_at (entry H j)" if "j \<in> slots N" "HEAP0 < j" "HPARENT j = k" for j
  proof -
    have "ANHE_at (entry H (HPARENT k)) \<le> ANHE_at (entry H j)"
      using h that True unfolding heap_but_def ordered_but_def by blast
    then show ?thesis using True by (blast intro: order_trans)
  qed
  then have "children_ok N k (entry H)" unfolding children_ok_def by blast
  then show ?thesis using upheap_repairs [OF h] True by (simp add: adjustheap_def)
next
  case False
  then have "parent_ok k (entry H)" by (auto simp: parent_ok_def)
  then show ?thesis using downheap_repairs [OF h] False by (auto simp: adjustheap_def)
qed

text \<open>The three situations in which the timers use them: an entry replaced, one added, the first one replaced.\<close>

lemma heap_but_replace:
  assumes h: "heap_ok N H" and k: "k \<in> slots N"
    and new: "\<And>j. j \<in> slots N \<Longrightarrow> j \<noteq> k \<Longrightarrow> ANHE_w (entry H j) \<noteq> ANHE_w e"
  shows "heap_but N k (H\<lparr>entry := (entry H)(k := e)\<rparr>)"
proof -
  have "inj_on (ANHE_w \<circ> (entry H)(k := e)) (slots N)"
  proof (rule inj_onI)
    fix i j assume ij: "i \<in> slots N" "j \<in> slots N" "(ANHE_w \<circ> (entry H)(k := e)) i = (ANHE_w \<circ> (entry H)(k := e)) j"
    have inj: "inj_on (ANHE_w \<circ> entry H) (slots N)" using h by (simp add: heap_ok_def)
    show "i = j"
      using ij new [OF ij(1)] new [OF ij(2)] inj_onD [OF inj, of i j] by (auto split: if_splits)
  qed
  then show ?thesis using h k ordered_update [of N "entry H" k e] by (simp add: heap_but_def heap_ok_def)
qed

lemma no_child_of_last: "k = N + HEAP0 \<Longrightarrow> j \<in> slots (N + 1) \<Longrightarrow> HEAP0 < j \<Longrightarrow> HPARENT j \<noteq> k"
  using HPARENT_less [of j] by auto

lemma heap_but_add:
  assumes h: "heap_ok N H" and k: "k = N + HEAP0"
    and new: "\<And>j. j \<in> slots N \<Longrightarrow> ANHE_w (entry H j) \<noteq> ANHE_w e"
  shows "heap_but (N + 1) k (H\<lparr>entry := (entry H)(k := e), position := (position H)(ANHE_w e := p)\<rparr>)"
    and "children_ok (N + 1) k ((entry H)(k := e))"
proof -
  have sl: "slots (N + 1) = insert k (slots N)" "k \<notin> slots N" using k by auto
  have inj: "inj_on (ANHE_w \<circ> entry H) (slots N)" using h by (simp add: heap_ok_def)
  have "inj_on (ANHE_w \<circ> (entry H)(k := e)) (slots (N + 1))"
  proof (rule inj_onI)
    fix i j assume ij: "i \<in> slots (N + 1)" "j \<in> slots (N + 1)"
      "(ANHE_w \<circ> (entry H)(k := e)) i = (ANHE_w \<circ> (entry H)(k := e)) j"
    show "i = j"
      using ij new [of i] new [of j] inj_onD [OF inj, of i j] unfolding sl by (auto split: if_splits)
  qed
  moreover have "ordered_but (N + 1) k ((entry H)(k := e))"
  proof -
    have "ANHE_at (((entry H)(k := e)) (HPARENT j)) \<le> ANHE_at (((entry H)(k := e)) j)"
      if "j \<in> slots (N + 1)" "HEAP0 < j" "j \<noteq> k" "HPARENT j \<noteq> k" for j
      using h that unfolding heap_ok_def ordered_def sl by simp
    then show ?thesis using no_child_of_last [OF k] unfolding ordered_but_def by blast
  qed
  ultimately show "heap_but (N + 1) k (H\<lparr>entry := (entry H)(k := e), position := (position H)(ANHE_w e := p)\<rparr>)"
    using h new k unfolding heap_but_def heap_ok_def by auto
  show "children_ok (N + 1) k ((entry H)(k := e))"
    using no_child_of_last [OF k] unfolding children_ok_def by blast
qed

lemma parent_ok_root: "parent_ok HEAP0 h"
  by (simp add: parent_ok_def)

lemma root_least:
  assumes o: "ordered N h"
  shows "j \<in> slots N \<Longrightarrow> ANHE_at (h HEAP0) \<le> ANHE_at (h j)"
proof (induction j rule: less_induct)
  case (less j)
  show ?case
  proof (cases "HEAP0 < j")
    case True
    then have "ANHE_at (h HEAP0) \<le> ANHE_at (h (HPARENT j))"
      using less HPARENT_less HPARENT_range by blast
    moreover have "ANHE_at (h (HPARENT j)) \<le> ANHE_at (h j)"
      using o True less(2) by (simp add: ordered_def)
    ultimately show ?thesis by (rule order_trans)
  next
    case False
    then have "j = HEAP0" using less(2) by simp
    then show ?thesis by simp
  qed
qed

lemma heap_ok_shrink: "heap_ok (Suc N) H \<Longrightarrow> heap_ok N H"
  unfolding heap_ok_def ordered_def by (auto intro: inj_on_subset)

lemma upheap_from_beyond: "HEAP0 \<le> k \<Longrightarrow> k < j \<Longrightarrow> entry (upheap_from he k H) j = entry H j"
proof (induction he k H rule: upheap_from.induct)
  case (1 he k H)
  let ?p = "HPARENT k"
  have p: "HEAP0 \<le> ?p" "?p \<le> k"
    using 1(2) HPARENT_less [of k] by (auto simp: HPARENT_def intro: less_imp_le)
  show ?case
  proof (cases "?p = k \<or> ANHE_at (entry H ?p) \<le> ANHE_at he")
    case True
    then show ?thesis using 1(3) by (subst upheap_from.simps) (auto simp: Let_def place_def)
  next
    case False
    then have "entry (upheap_from he ?p (place k (entry H ?p) H)) j = entry (place k (entry H ?p) H) j"
      using 1(1) [OF refl False p(1)] 1(3) p(2) by simp
    then show ?thesis using False 1(3) by (subst upheap_from.simps) (simp add: Let_def place_def)
  qed
qed

lemma reheap_ok:
  assumes "inj_on (ANHE_w \<circ> entry H) (slots N)"
  shows "heap_ok N (reheap N H) \<and> entry (reheap N H) ` slots N = entry H ` slots N \<and>
    (\<forall>j \<ge> N + HEAP0. entry (reheap N H) j = entry H j)"
  using assms
proof (induction N)
  case (Suc i)
  let ?R = "reheap i H" and ?k = "i + HEAP0"
  have sl: "slots (Suc i) = insert ?k (slots i)" "?k \<notin> slots i" by auto
  have inj: "inj_on (ANHE_w \<circ> entry H) (slots (Suc i))" by (rule Suc.prems)
  have "inj_on (ANHE_w \<circ> entry H) (slots i)" by (rule inj_on_subset [OF inj]) auto
  note IH = Suc.IH [OF this]
  have k: "entry ?R ?k = entry H ?k" using IH by simp
  have new: "ANHE_w (entry ?R j) \<noteq> ANHE_w (entry H ?k)" if "j \<in> slots i" for j
  proof -
    have "entry ?R j \<in> entry H ` slots i" using IH that by blast
    then obtain j' where "j' \<in> slots i" "entry ?R j = entry H j'" by (rule imageE) auto
    then show ?thesis using inj_onD [OF inj, of j' ?k] unfolding sl by auto
  qed
  have "heap_ok i ?R" using IH by blast
  note added = heap_but_add(1) [OF this refl new, where p = "position ?R (ANHE_w (entry H ?k))"]
    and last = heap_but_add(2) [OF this refl new]
  have same: "?R\<lparr>entry := (entry ?R)(?k := entry H ?k),
      position := (position ?R)(ANHE_w (entry H ?k) := position ?R (ANHE_w (entry H ?k)))\<rparr> = ?R"
    using k by (metis fun_upd_triv heap.surjective heap.update_convs(1,2))
  have "heap_but (Suc i) ?k ?R" "children_ok (Suc i) ?k (entry ?R)"
    using added last unfolding same using k by (simp_all add: fun_upd_idem)
  from upheap_repairs [OF this] have r: "repaired (Suc i) ?R (reheap (Suc i) H)" by simp
  moreover have "entry ?R ` slots (Suc i) = entry H ` slots (Suc i)" using IH k unfolding sl by simp
  moreover have "entry (reheap (Suc i) H) j = entry H j" if "Suc i + HEAP0 \<le> j" for j
    using upheap_from_beyond [of ?k j "entry ?R ?k" ?R] IH that by (simp add: upheap_def)
  ultimately show ?case unfolding repaired_def by metis
qed (simp add: heap_ok_def ordered_def)

end
