(* ===== verification/Ev_Timer.thy ===== *)
theory Ev_Timer
  imports Ev_Heap "HOL-Library.Word"
begin

unbundle bit_operations_syntax

text \<open>
  Timers and pending events of the event loop \<open>deps/libev/ev.c\<close>: \<open>ev_feed_event\<close>, \<open>clear_pending\<close>,
  \<open>ev_timer_start\<close>, \<open>ev_timer_stop\<close>, \<open>ev_timer_again\<close>, \<open>timers_reify\<close>, \<open>feed_reverse_done\<close> and
  \<open>ev_invoke_pending\<close>, on a record of the fields of the loop and of the watchers they use. A failing
  assertion is an error. Arithmetic on times is a parameter; the invariants rest on the order alone.
\<close>

section \<open>The loop\<close>

abbreviation (input) EV_MINPRI :: int where "EV_MINPRI \<equiv> -2"
abbreviation (input) EV_MAXPRI :: int where "EV_MAXPRI \<equiv> 2"
abbreviation (input) NUMPRI :: int where "NUMPRI \<equiv> EV_MAXPRI - EV_MINPRI + 1"
abbreviation (input) EV_TIMER :: "32 word" where "EV_TIMER \<equiv> 0x100"

text \<open>
  An entry of a pending queue is its watcher, \<open>None\<close> for the dummy \<open>pending_w\<close>, and its events; a queue
  is the list of its entries, \<open>pendingcnt\<close> its length. The array of queues has \<open>NUMPRI\<close> elements: the
  model keeps the index an integer, so that an index out of the array is visible. \<open>ev_active\<close> of a timer is its position in the heap.
\<close>

type_synonym anpending = "wid option \<times> 32 word"

record 't ev_loop =
  timers :: "'t heap"
  timercnt :: nat
  ev_at :: "wid \<Rightarrow> 't"
  ev_repeat :: "wid \<Rightarrow> 't"
  ev_priority :: "wid \<Rightarrow> int"
  w_pending :: "wid \<Rightarrow> nat"
  pendings :: "int \<Rightarrow> anpending list"
  pendingpri :: int
  activecnt :: int
  rfeeds :: "wid list"
  mn_now :: 't

datatype ev_error = AssertFailed | SysError

record 't tstamp =
  t_add :: "'t \<Rightarrow> 't \<Rightarrow> 't"
  t_sub :: "'t \<Rightarrow> 't \<Rightarrow> 't"

definition ev_active :: "'t ev_loop \<Rightarrow> wid \<Rightarrow> nat" where
  "ev_active s w = position (timers s) w"

definition ABSPRI :: "'t ev_loop \<Rightarrow> wid \<Rightarrow> int" where
  "ABSPRI s w = ev_priority s w - EV_MINPRI"

section \<open>Pending events\<close>

text \<open>
  \<open>ev_feed_event\<close> indexes the array of queues with the priority of the watcher, which nothing has checked
  for a watcher that was never started.
\<close>

definition queue_event :: "wid \<Rightarrow> 32 word \<Rightarrow> 't ev_loop \<Rightarrow> 't ev_loop" where
  "queue_event w revents s =
     (let pri = ABSPRI s w; q = pendings s pri in
      (if w_pending s w \<noteq> 0
       then let (w', events) = q ! (w_pending s w - 1) in
         s\<lparr>pendings := (pendings s)(pri := q[w_pending s w - 1 := (w', events OR revents)])\<rparr>
       else s\<lparr>w_pending := (w_pending s)(w := length q + 1),
         pendings := (pendings s)(pri := q @ [(Some w, revents)])\<rparr>)
      \<lparr>pendingpri := NUMPRI - 1\<rparr>)"

definition ev_feed_event :: "wid \<Rightarrow> 32 word \<Rightarrow> 't ev_loop \<Rightarrow> (ev_error, 't ev_loop) res" where
  "ev_feed_event w revents s =
     (if ABSPRI s w < 0 \<or> NUMPRI \<le> ABSPRI s w then Inl (UB OutOfBounds) else Inr (queue_event w revents s))"

definition feed_reverse :: "wid \<Rightarrow> 't ev_loop \<Rightarrow> 't ev_loop" where
  "feed_reverse w s = s\<lparr>rfeeds := rfeeds s @ [w]\<rparr>"

fun feed_all :: "wid list \<Rightarrow> 32 word \<Rightarrow> 't ev_loop \<Rightarrow> (ev_error, 't ev_loop) res" where
  "feed_all [] revents s = Inr s"
| "feed_all (w # ws) revents s = rbind (ev_feed_event w revents s) (feed_all ws revents)"

text \<open>The loop of \<open>feed_reverse_done\<close> takes the watchers from the end; it is only called with some.\<close>

definition feed_reverse_done :: "32 word \<Rightarrow> 't ev_loop \<Rightarrow> (ev_error, 't ev_loop) res" where
  "feed_reverse_done revents s = rbind (feed_all (rev (rfeeds s)) revents s) (\<lambda>s. Inr (s\<lparr>rfeeds := []\<rparr>))"

definition clear_pending :: "wid \<Rightarrow> 't ev_loop \<Rightarrow> 't ev_loop" where
  "clear_pending w s =
     (if w_pending s w \<noteq> 0 then
        let pri = ABSPRI s w; q = pendings s pri; i = w_pending s w - 1 in
        s\<lparr>pendings := (pendings s)(pri := q[i := (None, snd (q ! i))]), w_pending := (w_pending s)(w := 0)\<rparr>
      else s)"

section \<open>Timers\<close>

definition pri_adjust :: "wid \<Rightarrow> 't ev_loop \<Rightarrow> 't ev_loop" where
  "pri_adjust w s = (let pri = ev_priority s w;
      pri = (if pri < EV_MINPRI then EV_MINPRI else pri);
      pri = (if pri > EV_MAXPRI then EV_MAXPRI else pri)
    in s\<lparr>ev_priority := (ev_priority s)(w := pri)\<rparr>)"

definition set_active :: "wid \<Rightarrow> nat \<Rightarrow> 't ev_loop \<Rightarrow> 't ev_loop" where
  "set_active w a s = s\<lparr>timers := (timers s)\<lparr>position := (position (timers s))(w := a)\<rparr>\<rparr>"

definition set_entry :: "nat \<Rightarrow> 't anhe \<Rightarrow> 't ev_loop \<Rightarrow> 't ev_loop" where
  "set_entry k e s = s\<lparr>timers := (timers s)\<lparr>entry := (entry (timers s))(k := e)\<rparr>\<rparr>"

definition ev_start :: "wid \<Rightarrow> nat \<Rightarrow> 't ev_loop \<Rightarrow> 't ev_loop" where
  "ev_start w active s = (set_active w active (pri_adjust w s))\<lparr>activecnt := activecnt s + 1\<rparr>"

definition ev_stop :: "wid \<Rightarrow> 't ev_loop \<Rightarrow> 't ev_loop" where
  "ev_stop w s = set_active w 0 (s\<lparr>activecnt := activecnt s - 1\<rparr>)"

definition ev_timer_start :: "'t::{linorder, zero} tstamp \<Rightarrow> wid \<Rightarrow> 't ev_loop \<Rightarrow> (ev_error, 't ev_loop) res" where
  "ev_timer_start A w s =
     (if ev_active s w \<noteq> 0 then Inr s else
      let s = s\<lparr>ev_at := (ev_at s)(w := t_add A (ev_at s w) (mn_now s))\<rparr> in
      if \<not> 0 \<le> ev_repeat s w then Inl (Raise AssertFailed) else
      let s = s\<lparr>timercnt := timercnt s + 1\<rparr>;
          s = ev_start w (timercnt s + HEAP0 - 1) s;
          s = set_entry (ev_active s w) (ev_at s w, w) s
      in Inr (s\<lparr>timers := upheap (ev_active s w) (timers s)\<rparr>))"

definition ev_timer_stop :: "'t::linorder tstamp \<Rightarrow> wid \<Rightarrow> 't ev_loop \<Rightarrow> (ev_error, 't ev_loop) res" where
  "ev_timer_stop A w s =
     (let s = clear_pending w s; active = ev_active s w in
      if active = 0 then Inr s else
      if ANHE_w (entry (timers s) active) \<noteq> w then Inl (Raise AssertFailed) else
      let s = s\<lparr>timercnt := timercnt s - 1\<rparr>;
          s = (if active < timercnt s + HEAP0
               then let s = set_entry active (entry (timers s) (timercnt s + HEAP0)) s
                 in s\<lparr>timers := adjustheap (timercnt s) active (timers s)\<rparr>
               else s);
          s = s\<lparr>ev_at := (ev_at s)(w := t_sub A (ev_at s w) (mn_now s))\<rparr>
      in Inr (ev_stop w s))"

definition ev_timer_remaining :: "'t::zero tstamp \<Rightarrow> wid \<Rightarrow> 't ev_loop \<Rightarrow> 't" where
  "ev_timer_remaining A w s = t_sub A (ev_at s w) (if ev_active s w \<noteq> 0 then mn_now s else 0)"

definition ev_timer_again :: "'t::{linorder, zero} tstamp \<Rightarrow> wid \<Rightarrow> 't ev_loop \<Rightarrow> (ev_error, 't ev_loop) res" where
  "ev_timer_again A w s =
     (let s = clear_pending w s in
      if ev_active s w \<noteq> 0 then
        if ev_repeat s w \<noteq> 0 then
          let s = s\<lparr>ev_at := (ev_at s)(w := t_add A (mn_now s) (ev_repeat s w))\<rparr>;
              s = set_entry (ev_active s w) (ev_at s w, ANHE_w (entry (timers s) (ev_active s w))) s
          in Inr (s\<lparr>timers := adjustheap (timercnt s) (ev_active s w) (timers s)\<rparr>)
        else ev_timer_stop A w s
      else if ev_repeat s w \<noteq> 0 then
        ev_timer_start A w (s\<lparr>ev_at := (ev_at s)(w := ev_repeat s w)\<rparr>)
      else Inr s)"

text \<open>One round of the loop of \<open>timers_reify\<close>, for the timer \<open>w\<close> at the top.\<close>

definition reify_one :: "'t::{linorder, zero} tstamp \<Rightarrow> 't ev_loop \<Rightarrow> (ev_error, 't ev_loop) res" where
  "reify_one A s = (let w = ANHE_w (entry (timers s) HEAP0) in
     rbind (if ev_repeat s w \<noteq> 0 then
         let s = s\<lparr>ev_at := (ev_at s)(w := t_add A (ev_at s w) (ev_repeat s w))\<rparr>;
             s = (if ev_at s w < mn_now s then s\<lparr>ev_at := (ev_at s)(w := mn_now s)\<rparr> else s)
         in if \<not> 0 < ev_repeat s w then Inl (Raise AssertFailed) else
           let s = set_entry HEAP0 (ev_at s w, w) s
           in Inr (s\<lparr>timers := downheap (timercnt s) HEAP0 (timers s)\<rparr>)
       else ev_timer_stop A w s)
     (\<lambda>s. Inr (feed_reverse w s)))"

definition expired :: "'t::linorder ev_loop \<Rightarrow> bool" where
  "expired s \<longleftrightarrow> timercnt s \<noteq> 0 \<and> ANHE_at (entry (timers s) HEAP0) < mn_now s"

text \<open>The loop, with fuel: \<open>Diverges\<close> when it has not ended after that many rounds.\<close>

fun reify_loop :: "'t::{linorder, zero} tstamp \<Rightarrow> nat \<Rightarrow> 't ev_loop \<Rightarrow> (ev_error, 't ev_loop) res" where
  "reify_loop A 0 s = Inl (UB Diverges)"
| "reify_loop A (Suc n) s = rbind (reify_one A s) (\<lambda>s. if expired s then reify_loop A n s else Inr s)"

definition timers_reify :: "'t::{linorder, zero} tstamp \<Rightarrow> nat \<Rightarrow> 't ev_loop \<Rightarrow> (ev_error, 't ev_loop) res" where
  "timers_reify A n s =
     (if expired s then rbind (reify_loop A n s) (feed_reverse_done EV_TIMER) else Inr s)"

section \<open>Invoking callbacks\<close>

text \<open>
  \<open>ev_invoke_pending\<close>: \<open>cb\<close> is what the callback of a watcher does to the loop, \<open>None\<close> stands for the
  dummy watcher. \<open>pendingpri\<close> is a field of the loop since a callback may raise it again.
\<close>

definition invoke_last :: "(wid option \<Rightarrow> 32 word \<Rightarrow> 't ev_loop \<Rightarrow> 't ev_loop) \<Rightarrow> 't ev_loop \<Rightarrow> 't ev_loop" where
  "invoke_last cb s = (let q = pendings s (pendingpri s); (w, events) = last q;
      s = s\<lparr>pendings := (pendings s)(pendingpri s := butlast q)\<rparr>;
      s = (case w of None \<Rightarrow> s | Some w \<Rightarrow> s\<lparr>w_pending := (w_pending s)(w := 0)\<rparr>)
    in cb w events s)"

fun invoke_loop :: "(wid option \<Rightarrow> 32 word \<Rightarrow> 't ev_loop \<Rightarrow> 't ev_loop) \<Rightarrow> nat \<Rightarrow> 't ev_loop \<Rightarrow> 't ev_loop option" where
  "invoke_loop cb 0 s = None"
| "invoke_loop cb (Suc n) s =
     (if pendings s (pendingpri s) \<noteq> [] then invoke_loop cb n (invoke_last cb s)
      else if pendingpri s \<noteq> 0 then invoke_loop cb n (s\<lparr>pendingpri := pendingpri s - 1\<rparr>)
      else Some s)"

definition ev_invoke_pending :: "(wid option \<Rightarrow> 32 word \<Rightarrow> 't ev_loop \<Rightarrow> 't ev_loop) \<Rightarrow> nat \<Rightarrow> 't ev_loop \<Rightarrow> 't ev_loop option" where
  "ev_invoke_pending cb n s = invoke_loop cb n (s\<lparr>pendingpri := NUMPRI - 1\<rparr>)"

definition ev_pending_count :: "'t ev_loop \<Rightarrow> nat" where
  "ev_pending_count s = sum_list (map (\<lambda>pri. length (pendings s pri)) (rev [0..NUMPRI - 1]))"

text \<open>The public \<open>ev_clear_pending\<close> also tells the events it discards.\<close>

definition ev_clear_pending :: "wid \<Rightarrow> 't ev_loop \<Rightarrow> 32 word \<times> 't ev_loop" where
  "ev_clear_pending w s =
     (if w_pending s w \<noteq> 0 then
        let pri = ABSPRI s w; q = pendings s pri; i = w_pending s w - 1 in
        (snd (q ! i), s\<lparr>pendings := (pendings s)(pri := q[i := (None, snd (q ! i))]),
          w_pending := (w_pending s)(w := 0)\<rparr>)
      else (0, s))"

section \<open>The timer heap of a loop\<close>

definition entries :: "'t ev_loop \<Rightarrow> 't anhe set" where
  "entries s = entry (timers s) ` {HEAP0..<timercnt s + HEAP0}"

text \<open>The heap is well formed, the cached times are those of the watchers, and a watcher that is active is in it.\<close>

definition timers_ok :: "'t::linorder ev_loop \<Rightarrow> bool" where
  "timers_ok s \<longleftrightarrow> heap_ok (timercnt s) (timers s) \<and>
     (\<forall>e \<in> entries s. ANHE_at e = ev_at s (ANHE_w e)) \<and>
     (\<forall>w. w \<notin> ANHE_w ` entries s \<longrightarrow> ev_active s w = 0)"

lemma entry_at_position:
  assumes "timers_ok s" and "e \<in> entries s"
  shows "ev_active s (ANHE_w e) \<in> slots (timercnt s)" and "entry (timers s) (ev_active s (ANHE_w e)) = e"
  using assms by (auto simp: timers_ok_def heap_ok_def entries_def ev_active_def)

lemma entries_unique: "timers_ok s \<Longrightarrow> e \<in> entries s \<Longrightarrow> e = (ev_at s (ANHE_w e), ANHE_w e)"
  by (cases e) (auto simp: timers_ok_def)

lemma active_iff:
  assumes "timers_ok s"
  shows "ev_active s w \<noteq> 0 \<longleftrightarrow> (ev_at s w, w) \<in> entries s"
proof
  assume "ev_active s w \<noteq> 0"
  then have "w \<in> ANHE_w ` entries s" using assms timers_ok_def by metis
  then obtain e where e: "e \<in> entries s" "w = ANHE_w e" by (elim imageE) simp
  then show "(ev_at s w, w) \<in> entries s" using entries_unique [OF assms e(1)] e by metis
next
  assume "(ev_at s w, w) \<in> entries s"
  from entry_at_position(1) [OF assms this] show "ev_active s w \<noteq> 0" by simp
qed

lemma inactive_new: "timers_ok s \<Longrightarrow> ev_active s w = 0 \<Longrightarrow> e \<in> entries s \<Longrightarrow> ANHE_w e \<noteq> w"
  using active_iff entries_unique by metis

lemma heap_ok_position:
  assumes "heap_ok N H" and "w \<notin> ANHE_w ` entry H ` slots N"
  shows "heap_ok N (H\<lparr>position := (position H)(w := p)\<rparr>)"
  using assms by (auto simp: heap_ok_def)

lemma timers_okI:
  assumes "repaired N H H'" and "timercnt s = N" and "entry (timers s) = entry H'"
    and "\<And>v. position (timers s) v = (if v = w then p else position H' v)"
    and "w \<notin> ANHE_w ` entry H ` slots N \<and> p = 0 \<or> p = position H' w"
    and "\<And>e. e \<in> entry H ` slots N \<Longrightarrow> ANHE_at e = ev_at s (ANHE_w e)"
    and "\<And>v. v \<noteq> w \<or> p = position H' w \<Longrightarrow> v \<notin> ANHE_w ` entry H ` slots N \<Longrightarrow> position H v = 0"
  shows "timers_ok s \<and> entries s = entry H ` slots N"
proof -
  have r: "heap_ok N H'" "entry H' ` slots N = entry H ` slots N"
    "\<And>v. v \<notin> ANHE_w ` entry H ` slots N \<Longrightarrow> position H' v = position H v"
    using assms(1) by (auto simp: repaired_def)
  have t: "timers s = H'\<lparr>position := (position H')(w := p)\<rparr>"
    using assms(3,4) by (intro heap.equality) (auto simp: fun_eq_iff)
  have "heap_ok N (timers s)"
    using assms(5) heap_ok_position [OF r(1)] r(1) unfolding t r(2) by (metis fun_upd_triv heap.surjective heap.update_convs(2))
  moreover have e: "entries s = entry H ` slots N" using assms(2,3) r(2) by (simp add: entries_def)
  moreover have "ev_active s v = 0" if "v \<notin> ANHE_w ` entry H ` slots N" for v
    using that assms(4) [of v] assms(5) assms(7) [of v] r(3) [of v] unfolding ev_active_def by (auto split: if_splits)
  ultimately show ?thesis using assms(2,6) by (simp add: timers_ok_def)
qed

text \<open>Fields that the operations leave alone.\<close>

lemma loop_simps [simp]:
  "ev_active (pri_adjust w s) = ev_active s" "timers (pri_adjust w s) = timers s"
  "timercnt (pri_adjust w s) = timercnt s" "ev_at (pri_adjust w s) = ev_at s" "mn_now (pri_adjust w s) = mn_now s"
  "timers (clear_pending w s) = timers s" "timercnt (clear_pending w s) = timercnt s"
  "ev_at (clear_pending w s) = ev_at s" "mn_now (clear_pending w s) = mn_now s"
  "ev_repeat (clear_pending w s) = ev_repeat s" "rfeeds (clear_pending w s) = rfeeds s"
  "ev_priority (clear_pending w s) = ev_priority s" "pendingpri (clear_pending w s) = pendingpri s"
  "ev_repeat (pri_adjust w s) = ev_repeat s" "rfeeds (pri_adjust w s) = rfeeds s"
  "pendings (pri_adjust w s) = pendings s" "w_pending (pri_adjust w s) = w_pending s"
  by (simp_all add: pri_adjust_def clear_pending_def ev_active_def Let_def fun_eq_iff)

lemma clear_pending_same: "ev_active (clear_pending w s) = ev_active s" "entries (clear_pending w s) = entries s"
  "timers_ok (clear_pending w s) \<longleftrightarrow> timers_ok s"
  by (simp_all add: timers_ok_def entries_def ev_active_def fun_eq_iff)

lemma timers_ok_cong:
  "timers s' = timers s \<Longrightarrow> timercnt s' = timercnt s \<Longrightarrow> ev_at s' = ev_at s \<Longrightarrow>
   timers_ok s' = timers_ok s \<and> entries s' = entries s"
  by (simp add: timers_ok_def entries_def ev_active_def)

lemma start_timers:
  assumes ok: "timers_ok s" and inactive: "ev_active s w = 0" and rep: "0 \<le> ev_repeat s w"
  shows "\<exists>s'. ev_timer_start A w s = Inr s' \<and> timers_ok s' \<and>
    entries s' = insert (t_add A (ev_at s w) (mn_now s), w) (entries s)"
proof -
  let ?N = "timercnt s" and ?at = "t_add A (ev_at s w) (mn_now s)"
  let ?k = "?N + HEAP0"
  let ?H = "(timers s)\<lparr>entry := (entry (timers s))(?k := (?at, w)), position := (position (timers s))(w := ?k)\<rparr>"
  have heap: "heap_ok ?N (timers s)" using ok by (simp add: timers_ok_def)
  have new: "ANHE_w (entry (timers s) j) \<noteq> ANHE_w (?at, w)" if "j \<in> slots ?N" for j
    using inactive_new [OF ok inactive, of "entry (timers s) j"] that by (auto simp: entries_def)
  have "heap_but (?N + 1) ?k ?H" "children_ok (?N + 1) ?k (entry ?H)"
    using heap_but_add(1) [OF heap refl new, where p = ?k] heap_but_add(2) [OF heap refl new] by simp_all
  from upheap_repairs [OF this] have r: "repaired (?N + 1) ?H (upheap ?k ?H)" .
  have es: "entry ?H ` slots (?N + 1) = insert (?at, w) (entries s)"
  proof -
    have "slots (?N + 1) = insert ?k (slots ?N)" "slots ?N \<inter> {x. x \<noteq> ?k} = slots ?N" by auto
    then show ?thesis by (simp add: entries_def)
  qed
  have swap: "upheap k ((timers s)\<lparr>position := p, entry := e\<rparr>) = upheap k ((timers s)\<lparr>entry := e, position := p\<rparr>)" for k p e
    by (cases "timers s") simp
  obtain s' where s': "ev_timer_start A w s = Inr s'" "timers s' = upheap ?k ?H" "timercnt s' = ?N + 1"
      "ev_at s' = (ev_at s)(w := ?at)"
    using inactive rep
    by (simp add: ev_timer_start_def Let_def ev_start_def set_entry_def set_active_def ev_active_def pri_adjust_def
      numeral_3_eq_3 swap)
  have "timers_ok s' \<and> entries s' = entry ?H ` slots (?N + 1)"
  proof (rule timers_okI [OF r s'(3), where p = "position (upheap ?k ?H) w" and w = w])
    show "ANHE_at e = ev_at s' (ANHE_w e)" if "e \<in> entry ?H ` slots (?N + 1)" for e
    proof -
      have "e = (?at, w) \<or> e \<in> entries s" using that unfolding es by blast
      then show ?thesis
        using inactive_new [OF ok inactive, of e] entries_unique [OF ok, of e] unfolding s'(4)
        by (metis fst_conv snd_conv fun_upd_apply)
    qed
    show "position ?H v = 0" if "v \<notin> ANHE_w ` entry ?H ` slots (?N + 1)" for v
      using that ok unfolding es by (auto simp: timers_ok_def ev_active_def)
  qed (simp_all add: s')
  then show ?thesis using s'(1) es by simp
qed


lemma entry_inj: "timers_ok s \<Longrightarrow> inj_on (entry (timers s)) (slots (timercnt s))"
  by (auto simp: timers_ok_def heap_ok_def intro: inj_on_imageI2)

lemma remove_entry:
  assumes inj: "inj_on f (slots (Suc M))" and j: "j \<in> slots (Suc M)"
  shows "(if j < M + HEAP0 then f(j := f (M + HEAP0)) else f) ` slots M = f ` slots (Suc M) - {f j}"
proof -
  have sl: "slots (Suc M) = insert (M + HEAP0) (slots M)" by auto
  have "f ` slots (Suc M) - {f j} = f ` (slots (Suc M) - {j})"
    using inj_on_image_set_diff [OF inj, of "slots (Suc M)" "{j}"] j by simp
  also have "\<dots> = (if j < M + HEAP0 then f(j := f (M + HEAP0)) else f) ` slots M"
  proof (cases "j < M + HEAP0")
    case True
    then have "slots (Suc M) - {j} = insert (M + HEAP0) (slots M - {j})" "j \<in> slots M" using j by auto
    then show ?thesis using True by (auto simp: image_iff)
  next
    case False
    then have "j = M + HEAP0" using j by simp
    then have "slots (Suc M) - {j} = slots M" by auto
    then show ?thesis using False by simp
  qed
  finally show ?thesis by simp
qed

text \<open>Taking the timer at position \<open>j\<close> out of the array, as \<open>ev_timer_stop\<close> does.\<close>

lemma heap_remove:
  assumes h: "heap_ok (Suc M) H" and j: "j \<in> slots (Suc M)"
  defines "H1 \<equiv> H\<lparr>entry := (entry H)(j := entry H (M + HEAP0))\<rparr>"
  defines "G \<equiv> (if j < M + HEAP0 then H1 else H)"
  shows "repaired M G (if j < M + HEAP0 then adjustheap M j H1 else H)"
    and "entry G ` slots M = entry H ` slots (Suc M) - {entry H j}" and "position G = position H"
proof -
  have sl: "slots (Suc M) = insert (M + HEAP0) (slots M)" "M + HEAP0 \<notin> slots M" by auto
  have inj: "inj_on (ANHE_w \<circ> entry H) (slots (Suc M))" using h by (simp add: heap_ok_def)
  have shrunk: "heap_ok M H" by (rule heap_ok_shrink [OF h])
  have "heap_but M j H1" if "j < M + HEAP0"
    unfolding H1_def
  proof (rule heap_but_replace [OF shrunk])
    show "j \<in> slots M" using that j by simp
    show "ANHE_w (entry H i) \<noteq> ANHE_w (entry H (M + HEAP0))" if "i \<in> slots M" for i
      using inj_onD [OF inj, of i "M + HEAP0"] that sl by auto
  qed
  then show "repaired M G (if j < M + HEAP0 then adjustheap M j H1 else H)"
    using shrunk adjustheap_repairs [of M j H1] by (cases "j < M + HEAP0") (simp_all add: G_def repaired_def)
  have "inj_on (entry H) (slots (Suc M))" using inj by (rule inj_on_imageI2)
  moreover have G: "entry G = (if j < M + HEAP0 then (entry H)(j := entry H (M + HEAP0)) else entry H)"
    by (simp add: G_def H1_def)
  ultimately show "entry G ` slots M = entry H ` slots (Suc M) - {entry H j}"
    unfolding G using remove_entry j by blast
  show "position G = position H" by (simp add: G_def H1_def)
qed

lemma stop_timers:
  assumes ok: "timers_ok s" and active: "ev_active s w \<noteq> 0"
  shows "\<exists>s'. ev_timer_stop A w s = Inr s' \<and> timers_ok s' \<and> entries s' = entries s - {(ev_at s w, w)} \<and>
    ev_active s' w = 0"
proof -
  have mem: "(ev_at s w, w) \<in> entries s" using active_iff [OF ok] active by simp
  let ?j = "ev_active s w"
  have j: "?j \<in> slots (timercnt s)" and e: "entry (timers s) ?j = (ev_at s w, w)"
    using entry_at_position [OF ok mem] by simp_all
  then obtain M where M: "timercnt s = Suc M" by (cases "timercnt s") auto
  let ?H = "timers s"
  let ?H1 = "?H\<lparr>entry := (entry ?H)(?j := entry ?H (M + HEAP0))\<rparr>"
  define G where "G = (if ?j < M + HEAP0 then ?H1 else ?H)"
  define R where "R = (if ?j < M + HEAP0 then adjustheap M ?j ?H1 else ?H)"
  have heap: "heap_ok (Suc M) ?H" using ok M by (simp add: timers_ok_def)
  note rem = heap_remove [OF heap j [unfolded M], folded G_def R_def]
  have es: "entry G ` slots M = entries s - {(ev_at s w, w)}" using rem(2) by (simp add: entries_def M e)
  obtain s' where s': "ev_timer_stop A w s = Inr s'" "timercnt s' = M"
      "timers s' = R\<lparr>position := (position R)(w := 0)\<rparr>"
      "ev_at s' = (ev_at s)(w := t_sub A (ev_at s w) (mn_now s))"
    using active e
    by (simp add: ev_timer_stop_def Let_def clear_pending_same M ev_stop_def set_active_def set_entry_def R_def)
  have gone: "w \<notin> ANHE_w ` (entries s - {(ev_at s w, w)})"
    using entries_unique [OF ok] by (auto simp: image_iff)
  have "position R w = position G w"
    using rem(1) gone unfolding repaired_def es by blast
  then have Rw: "position R w \<noteq> 0" using rem(3) active by (simp add: ev_active_def)
  have "timers_ok s' \<and> entries s' = entry G ` slots M"
  proof (rule timers_okI [OF rem(1) s'(2), where w = w and p = 0])
    show "entry (timers s') = entry R" unfolding s'(3) by simp
    show "position (timers s') v = (if v = w then 0 else position R v)" for v unfolding s'(3) by simp
    show "w \<notin> ANHE_w ` entry G ` slots M \<and> 0 = (0::nat) \<or> 0 = position R w" using gone unfolding es by blast
    show "ANHE_at e = ev_at s' (ANHE_w e)" if "e \<in> entry G ` slots M" for e
    proof -
      have e: "e \<in> entries s - {(ev_at s w, w)}" using that unfolding es .
      then have "ANHE_w e \<noteq> w" using gone by (metis imageI)
      then show ?thesis using ok e unfolding s'(4) by (simp add: timers_ok_def)
    qed
    show "position G v = 0" if "v \<noteq> w \<or> 0 = position R w" "v \<notin> ANHE_w ` entry G ` slots M" for v
    proof -
      have "v \<noteq> w" using that(1) Rw by auto
      moreover have "entries s \<subseteq> insert (ev_at s w, w) (entry G ` slots M)" unfolding es by blast
      ultimately have "v \<notin> ANHE_w ` entries s" using that(2) by auto
      then show ?thesis using ok rem(3) by (simp add: timers_ok_def ev_active_def)
    qed
  qed
  moreover have "ev_active s' w = 0" using s'(3) by (simp add: ev_active_def)
  ultimately show ?thesis unfolding es by (intro exI [of _ s'] conjI s'(1)) simp_all
qed

text \<open>A timer in the heap that gets another time.\<close>

definition retimed :: "'t ev_loop \<Rightarrow> wid \<Rightarrow> 't \<Rightarrow> 't heap" where
  "retimed s w t = (timers s)\<lparr>entry := (entry (timers s))(ev_active s w := (t, w))\<rparr>"

lemma replace_image:
  assumes "inj_on f A" and "k \<in> A"
  shows "(f(k := e)) ` A = insert e (f ` A - {f k})"
proof -
  have "(f(k := e)) ` A = insert e (f ` (A - {k}))" using assms(2) by (auto simp: image_iff)
  then show ?thesis using inj_on_image_set_diff [OF assms(1), of A "{k}"] assms(2) by simp
qed

lemma retimed_heap:
  assumes ok: "timers_ok s" and active: "ev_active s w \<noteq> 0"
  shows "heap_but (timercnt s) (ev_active s w) (retimed s w t)"
    and "entry (retimed s w t) ` slots (timercnt s) = insert (t, w) (entries s - {(ev_at s w, w)})"
    and "ev_active s w \<in> slots (timercnt s)" "ANHE_w (entry (timers s) (ev_active s w)) = w"
proof -
  let ?k = "ev_active s w"
  have mem: "(ev_at s w, w) \<in> entries s" using active_iff [OF ok] active by simp
  have k: "?k \<in> slots (timercnt s)" and e: "entry (timers s) ?k = (ev_at s w, w)"
    using entry_at_position [OF ok mem] by simp_all
  have heap: "heap_ok (timercnt s) (timers s)" using ok by (simp add: timers_ok_def)
  have inj: "inj_on (ANHE_w \<circ> entry (timers s)) (slots (timercnt s))" using heap by (simp add: heap_ok_def)
  show "heap_but (timercnt s) ?k (retimed s w t)"
    unfolding retimed_def
  proof (rule heap_but_replace [OF heap k])
    show "ANHE_w (entry (timers s) j) \<noteq> ANHE_w (t, w)" if "j \<in> slots (timercnt s)" "j \<noteq> ?k" for j
      using inj_onD [OF inj, of j ?k] that k e by auto
  qed
  show "entry (retimed s w t) ` slots (timercnt s) = insert (t, w) (entries s - {(ev_at s w, w)})"
    using replace_image [OF entry_inj [OF ok] k, of "(t, w)"] e by (simp add: retimed_def entries_def)
  show "?k \<in> slots (timercnt s)" by (rule k)
  show "ANHE_w (entry (timers s) ?k) = w" using e by simp
qed

lemma watchers_kept: "A \<subseteq> insert (a, w) B \<Longrightarrow> (t, w) \<in> B \<Longrightarrow> ANHE_w ` A \<subseteq> ANHE_w ` B"
  by (metis image_insert image_mono insert_absorb rev_image_eqI snd_conv)

lemma retimed_ok:
  assumes ok: "timers_ok s" and active: "ev_active s w \<noteq> 0"
    and r: "repaired (timercnt s) (retimed s w t) (timers s')"
    and s': "timercnt s' = timercnt s" "ev_at s' = (ev_at s)(w := t)"
  shows "timers_ok s' \<and> entries s' = insert (t, w) (entries s - {(ev_at s w, w)})"
proof -
  note h = retimed_heap [OF ok active]
  have "timers_ok s' \<and> entries s' = entry (retimed s w t) ` slots (timercnt s)"
  proof (rule timers_okI [OF r s'(1), where w = w and p = "position (timers s') w"])
    show "ANHE_at e = ev_at s' (ANHE_w e)" if "e \<in> entry (retimed s w t) ` slots (timercnt s)" for e
    proof -
      have "e = (t, w) \<or> e \<in> entries s \<and> e \<noteq> (ev_at s w, w)" using that unfolding h(2) by blast
      then show ?thesis using entries_unique [OF ok, of e] unfolding s'(2) by (cases e) auto
    qed
    show "position (retimed s w t) v = 0" if "v \<notin> ANHE_w ` entry (retimed s w t) ` slots (timercnt s)" for v
    proof -
      have "entries s \<subseteq> insert (ev_at s w, w) (entry (retimed s w t) ` slots (timercnt s))"
        and "(t, w) \<in> entry (retimed s w t) ` slots (timercnt s)" unfolding h(2) by blast+
      then have "ANHE_w ` entries s \<subseteq> ANHE_w ` entry (retimed s w t) ` slots (timercnt s)" by (rule watchers_kept)
      then have "v \<notin> ANHE_w ` entries s" using that by blast
      then show ?thesis using ok by (simp add: timers_ok_def ev_active_def retimed_def)
    qed
  qed simp_all
  then show ?thesis unfolding h(2) .
qed

lemma again_timers:
  assumes ok: "timers_ok s" and rep: "0 \<le> ev_repeat s w"
  shows "\<exists>s'. ev_timer_again A w s = Inr s' \<and> timers_ok s' \<and>
    entries s' = (if ev_repeat s w = 0 then entries s - {(ev_at s w, w)}
      else insert (if ev_active s w \<noteq> 0 then t_add A (mn_now s) (ev_repeat s w)
        else t_add A (ev_repeat s w) (mn_now s), w) (entries s - {(ev_at s w, w)}))"
proof -
  let ?c = "clear_pending w s"
  have c: "timers_ok ?c" "ev_active ?c = ev_active s" "entries ?c = entries s"
    using ok by (simp_all add: clear_pending_same)
  have absent: "entries s - {(ev_at s w, w)} = entries s" if "ev_active s w = 0"
    using active_iff [OF ok, of w] that by auto
  show ?thesis
  proof (cases "ev_active s w = 0")
    case True
    show ?thesis
    proof (cases "ev_repeat s w = 0")
      case True
      then show ?thesis using \<open>ev_active s w = 0\<close> c absent by (simp add: ev_timer_again_def Let_def)
    next
      case False
      let ?d = "?c\<lparr>ev_at := (ev_at s)(w := ev_repeat s w)\<rparr>"
      have d: "timers_ok ?d" "entries ?d = entries s"
      proof -
        show e: "entries ?d = entries s" by (simp add: entries_def)
        show "timers_ok ?d"
          using ok inactive_new [OF ok True] unfolding timers_ok_def e by (auto simp: ev_active_def)
      qed
      have "ev_active ?d w = 0" using True c(2) by (simp add: ev_active_def)
      from start_timers [OF d(1) this, of A] show ?thesis
        using True False rep c(2) d(2) absent by (auto simp: ev_timer_again_def Let_def)
    qed
  next
    case active: False
    then have cact: "ev_active ?c w \<noteq> 0" by (simp add: c(2))
    show ?thesis
    proof (cases "ev_repeat s w = 0")
      case True
      then show ?thesis
        using stop_timers [OF c(1) cact, of A] active c by (auto simp: ev_timer_again_def Let_def)
    next
      case False
      let ?t = "t_add A (mn_now s) (ev_repeat s w)"
      let ?e = "?c\<lparr>ev_at := (ev_at s)(w := ?t), timers := adjustheap (timercnt s) (ev_active s w) (retimed ?c w ?t)\<rparr>"
      have "repaired (timercnt ?c) (retimed ?c w ?t) (timers ?e)"
        using adjustheap_repairs [OF retimed_heap(1) [OF c(1) cact]] by (simp add: c(2))
      from retimed_ok [OF c(1) cact this] have "timers_ok ?e \<and> entries ?e = insert (?t, w) (entries s - {(ev_at s w, w)})"
        by (simp add: c(3))
      moreover have "ev_timer_again A w s = Inr ?e"
        using active False retimed_heap(4) [OF ok active]
        by (simp add: ev_timer_again_def Let_def set_entry_def retimed_def c(2)) (simp add: ev_active_def)
      ultimately show ?thesis using active False by simp
    qed
  qed
qed

end
