(* ===== verification/Ev_Reify.thy ===== *)
theory Ev_Reify
  imports Ev_Timer
begin

section \<open>Fields the timer operations leave alone\<close>

lemma start_fields:
  assumes "ev_timer_start A w s = Inr s'"
  shows "pendings s' = pendings s" "w_pending s' = w_pending s" "rfeeds s' = rfeeds s" "mn_now s' = mn_now s"
    "ev_repeat s' = ev_repeat s" "pendingpri s' = pendingpri s"
    "ev_priority s' = (if ev_active s w = 0 then ev_priority (pri_adjust w s) else ev_priority s)"
  using assms
  by (auto simp: ev_timer_start_def Let_def ev_start_def set_active_def set_entry_def pri_adjust_def split: if_splits)

lemma stop_fields:
  assumes "ev_timer_stop A w s = Inr s'"
  shows "pendings s' = pendings (clear_pending w s)" "w_pending s' = w_pending (clear_pending w s)"
    "rfeeds s' = rfeeds s" "mn_now s' = mn_now s" "ev_repeat s' = ev_repeat s" "ev_priority s' = ev_priority s"
    "pendingpri s' = pendingpri s"
  using assms
  by (auto simp: ev_timer_stop_def Let_def ev_stop_def set_active_def set_entry_def split: if_splits)

lemma clear_twice [simp]: "clear_pending w (clear_pending w s) = clear_pending w s"
  by (simp add: clear_pending_def Let_def)

lemma again_fields:
  assumes "ev_timer_again A w s = Inr s'"
  shows "pendings s' = pendings (clear_pending w s)" "w_pending s' = w_pending (clear_pending w s)"
    "rfeeds s' = rfeeds s" "mn_now s' = mn_now s" "ev_repeat s' = ev_repeat s" "pendingpri s' = pendingpri s"
    "ev_priority s' = ev_priority s \<or> ev_active s w = 0 \<and> ev_priority s' = ev_priority (pri_adjust w s)"
  using assms
  by (auto simp: ev_timer_again_def Let_def set_entry_def clear_pending_same stop_fields start_fields pri_adjust_def
      split: if_splits dest!: stop_fields start_fields)

section \<open>Expired timers\<close>

definition late :: "'t::linorder ev_loop \<Rightarrow> 't anhe set" where
  "late s = {e \<in> entries s. ANHE_at e < mn_now s}"

definition repeats_ok :: "'t::{linorder, zero} ev_loop \<Rightarrow> bool" where
  "repeats_ok s \<longleftrightarrow> (\<forall>e \<in> entries s. 0 \<le> ev_repeat s (ANHE_w e))"

lemma finite_late: "finite (late s)"
  by (simp add: late_def entries_def)

lemma top_entry:
  assumes ok: "timers_ok s" and n: "timercnt s \<noteq> 0"
  shows "entry (timers s) HEAP0 \<in> entries s" and "e \<in> entries s \<Longrightarrow> ANHE_at (entry (timers s) HEAP0) \<le> ANHE_at e"
proof -
  show "entry (timers s) HEAP0 \<in> entries s" using n by (simp add: entries_def)
  have "ordered (timercnt s) (entry (timers s))" using ok by (simp add: timers_ok_def heap_ok_def)
  from root_least [OF this]
  show "ANHE_at (entry (timers s) HEAP0) \<le> ANHE_at e" if "e \<in> entries s"
    using that unfolding entries_def by (elim imageE) simp
qed

lemma expired_iff:
  assumes ok: "timers_ok s"
  shows "expired s \<longleftrightarrow> late s \<noteq> {}"
proof
  assume "expired s"
  then have "entry (timers s) HEAP0 \<in> late s" using top_entry(1) [OF ok] by (simp add: expired_def late_def)
  then show "late s \<noteq> {}" by blast
next
  assume "late s \<noteq> {}"
  then obtain e where e: "e \<in> entries s" "ANHE_at e < mn_now s" by (auto simp: late_def)
  then have n: "timercnt s \<noteq> 0" by (auto simp: entries_def)
  then show "expired s" using top_entry(2) [OF ok n e(1)] e(2) by (auto simp: expired_def)
qed

lemma feed_reverse_simps [simp]:
  "timers_ok (feed_reverse w s) \<longleftrightarrow> timers_ok s" "entries (feed_reverse w s) = entries s"
  "late (feed_reverse w s) = late s" "repeats_ok (feed_reverse w s) \<longleftrightarrow> repeats_ok s"
  "rfeeds (feed_reverse w s) = rfeeds s @ [w]" "mn_now (feed_reverse w s) = mn_now s"
  "ev_at (feed_reverse w s) = ev_at s" "ev_repeat (feed_reverse w s) = ev_repeat s"
  "ev_priority (feed_reverse w s) = ev_priority s" "pendings (feed_reverse w s) = pendings s"
  "w_pending (feed_reverse w s) = w_pending s" "pendingpri (feed_reverse w s) = pendingpri s"
  using timers_ok_cong [of "feed_reverse w s" s] by (simp_all add: feed_reverse_def late_def repeats_ok_def)

lemma stop_at: "ev_timer_stop A w s = Inr s' \<Longrightarrow> v \<noteq> w \<Longrightarrow> ev_at s' v = ev_at s v"
  by (auto simp: ev_timer_stop_def Let_def ev_stop_def set_active_def set_entry_def split: if_splits)

lemma reify_one_ok:
  assumes ok: "timers_ok s" and exp: "expired s" and rep: "repeats_ok s"
  defines "w \<equiv> ANHE_w (entry (timers s) HEAP0)"
  shows "\<exists>s'. reify_one A s = Inr s' \<and> timers_ok s' \<and> repeats_ok s' \<and>
    late s' = late s - {(ev_at s w, w)} \<and> (ev_at s w, w) \<in> late s \<and>
    rfeeds s' = rfeeds s @ [w] \<and> mn_now s' = mn_now s \<and> ev_repeat s' = ev_repeat s \<and> ev_priority s' = ev_priority s \<and>
    pendingpri s' = pendingpri s \<and>
    (pendings s' = pendings s \<and> w_pending s' = w_pending s \<or>
     pendings s' = pendings (clear_pending w s) \<and> w_pending s' = w_pending (clear_pending w s)) \<and>
    (\<forall>v. v \<noteq> w \<longrightarrow> ev_at s' v = ev_at s v) \<and> snd ` entries s' \<subseteq> snd ` entries s"
proof -
  have n: "timercnt s \<noteq> 0" and top: "ANHE_at (entry (timers s) HEAP0) < mn_now s" using exp by (auto simp: expired_def)
  have mem: "entry (timers s) HEAP0 \<in> entries s" by (rule top_entry(1) [OF ok n])
  have e: "entry (timers s) HEAP0 = (ev_at s w, w)" unfolding w_def by (rule entries_unique [OF ok mem])
  have inl: "(ev_at s w, w) \<in> late s" using mem top unfolding e by (simp add: late_def)
  have ew: "ANHE_w (entry (timers s) HEAP0) = w" by (simp add: w_def)
  have active: "ev_active s w \<noteq> 0" using active_iff [OF ok] inl by (simp add: late_def)
  have root: "HEAP0 \<in> slots (timercnt s)" using n by simp
  have k: "ev_active s w = HEAP0"
  proof -
    have "\<forall>j \<in> slots (timercnt s). position (timers s) (ANHE_w (entry (timers s) j)) = j"
      using ok by (simp add: timers_ok_def heap_ok_def)
    from bspec [OF this root] show ?thesis unfolding w_def ev_active_def .
  qed
  show ?thesis
  proof (cases "ev_repeat s w = 0")
    case True
    obtain s' where s': "ev_timer_stop A w s = Inr s'" "timers_ok s'" "entries s' = entries s - {(ev_at s w, w)}"
      using stop_timers [OF ok active] by blast
    note f = stop_fields [OF s'(1)] stop_at [OF s'(1)]
    have "late s' = late s - {(ev_at s w, w)}" unfolding late_def s'(3) f(4) by blast
    moreover have "repeats_ok s'" using rep unfolding repeats_ok_def s'(3) f(5) by blast
    moreover have "snd ` entries s' \<subseteq> snd ` entries s" unfolding s'(3) by (rule image_mono) blast
    moreover have "reify_one A s = Inr (feed_reverse w s')"
      using True s'(1) by (simp add: reify_one_def w_def [symmetric])
    ultimately show ?thesis using s'(2) inl f by (intro exI [of _ "feed_reverse w s'"]) simp
  next
    case False
    let ?a = "t_add A (ev_at s w) (ev_repeat s w)"
    define t where "t = (if ?a < mn_now s then mn_now s else ?a)"
    have pos: "0 < ev_repeat s w" using rep mem False unfolding e repeats_ok_def by force
    let ?s = "s\<lparr>ev_at := (ev_at s)(w := t), timers := downheap (timercnt s) HEAP0 (retimed s w t)\<rparr>"
    have "repaired (timercnt s) (retimed s w t) (timers ?s)"
      using downheap_repairs [OF retimed_heap(1) [OF ok active, of t]] unfolding k by (simp add: parent_ok_root)
    from retimed_ok [OF ok active this]
    have ts: "timers_ok ?s" "entries ?s = insert (t, w) (entries s - {(ev_at s w, w)})" by simp_all
    have "reify_one A s = Inr (feed_reverse w ?s)"
      using False pos by (simp add: reify_one_def ew Let_def set_entry_def retimed_def k t_def)
    moreover have "late ?s = late s - {(ev_at s w, w)}" 
      unfolding late_def ts(2) by (auto simp: t_def not_less)
    moreover have "repeats_ok ?s" using rep mem unfolding repeats_ok_def ts(2) e by auto
    moreover have "snd ` entries ?s \<subseteq> snd ` entries s"
      unfolding ts(2) using mem e by (intro watchers_kept) auto
    ultimately show ?thesis using inl ts(1) by (intro exI [of _ "feed_reverse w ?s"]) simp
  qed
qed

section \<open>The pending queues\<close>

text \<open>A pending watcher is in the queue of its priority, at the index it records, and nowhere else.\<close>

definition queued_ok :: "'t ev_loop \<Rightarrow> bool" where
  "queued_ok s \<longleftrightarrow>
     (\<forall>w. w_pending s w \<noteq> 0 \<longrightarrow> w_pending s w \<le> length (pendings s (ABSPRI s w)) \<and>
        fst (pendings s (ABSPRI s w) ! (w_pending s w - 1)) = Some w) \<and>
     (\<forall>pri i w. i < length (pendings s pri) \<longrightarrow> fst (pendings s pri ! i) = Some w \<longrightarrow>
        ABSPRI s w = pri \<and> w_pending s w = i + 1)"

lemma queued_ok_cong:
  "pendings s' = pendings s \<Longrightarrow> w_pending s' = w_pending s \<Longrightarrow> ev_priority s' = ev_priority s \<Longrightarrow>
   queued_ok s' = queued_ok s"
  by (simp add: queued_ok_def ABSPRI_def)

lemma ABSPRI_clear [simp]: "ABSPRI (clear_pending w s) = ABSPRI s"
  by (simp add: ABSPRI_def fun_eq_iff)

lemma clear_pending_fields:
  "w_pending (clear_pending w s) = (w_pending s)(w := 0)"
  "pendings (clear_pending w s) = (if w_pending s w \<noteq> 0
     then (pendings s)(ABSPRI s w := (pendings s (ABSPRI s w))
       [w_pending s w - 1 := (None, snd (pendings s (ABSPRI s w) ! (w_pending s w - 1)))])
     else pendings s)"
  by (auto simp: clear_pending_def Let_def fun_eq_iff)

lemma queuedD:
  assumes "queued_ok s"
  shows "w_pending s w \<noteq> 0 \<Longrightarrow> w_pending s w - 1 < length (pendings s (ABSPRI s w))"
    and "w_pending s w \<noteq> 0 \<Longrightarrow> fst (pendings s (ABSPRI s w) ! (w_pending s w - 1)) = Some w"
    and "i < length (pendings s pri) \<Longrightarrow> fst (pendings s pri ! i) = Some w \<Longrightarrow> ABSPRI s w = pri"
    and "i < length (pendings s pri) \<Longrightarrow> fst (pendings s pri ! i) = Some w \<Longrightarrow> w_pending s w = i + 1"
proof -
  have le: "w_pending s w \<noteq> 0 \<Longrightarrow> w_pending s w \<le> length (pendings s (ABSPRI s w))"
    using assms unfolding queued_ok_def by blast
  show "w_pending s w \<noteq> 0 \<Longrightarrow> w_pending s w - 1 < length (pendings s (ABSPRI s w))" using le by simp
  show "w_pending s w \<noteq> 0 \<Longrightarrow> fst (pendings s (ABSPRI s w) ! (w_pending s w - 1)) = Some w"
    and "i < length (pendings s pri) \<Longrightarrow> fst (pendings s pri ! i) = Some w \<Longrightarrow> ABSPRI s w = pri"
    and "i < length (pendings s pri) \<Longrightarrow> fst (pendings s pri ! i) = Some w \<Longrightarrow> w_pending s w = i + 1"
    using assms unfolding queued_ok_def by blast+
qed

lemma queued_clear:
  assumes q: "queued_ok s"
  shows "queued_ok (clear_pending w s)"
proof (cases "w_pending s w = 0")
  case True
  then show ?thesis using q queued_ok_cong [of "clear_pending w s" s] by (simp add: clear_pending_fields fun_upd_idem)
next
  case False
  let ?c = "clear_pending w s" and ?k = "w_pending s w - 1"
  have len: "length (pendings ?c pri) = length (pendings s pri)" for pri by (simp add: clear_pending_fields)
  have nth: "i < length (pendings s pri) \<Longrightarrow> fst (pendings ?c pri ! i) =
      (if pri = ABSPRI s w \<and> i = ?k then None else fst (pendings s pri ! i))" for pri i
    using False by (auto simp: clear_pending_fields nth_list_update)
  have old: "v = w" if "w_pending s v \<noteq> 0" "ABSPRI s v = ABSPRI s w" "w_pending s v - 1 = ?k" for v
    using queuedD(2) [OF q that(1)] queuedD(2) [OF q False] unfolding that(2,3) by simp
  show ?thesis
    unfolding queued_ok_def ABSPRI_clear len
  proof (intro conjI allI impI)
    fix v assume "w_pending ?c v \<noteq> 0"
    then have v: "v \<noteq> w" "w_pending s v \<noteq> 0" "w_pending ?c v = w_pending s v"
      by (auto simp: clear_pending_fields split: if_splits)
    have lt: "w_pending s v - 1 < length (pendings s (ABSPRI s v))" by (rule queuedD(1) [OF q v(2)])
    then show "w_pending ?c v \<le> length (pendings s (ABSPRI s v))" using v by simp
    show "fst (pendings ?c (ABSPRI s v) ! (w_pending ?c v - 1)) = Some v"
      unfolding v(3) nth [OF lt] using queuedD(2) [OF q v(2)] old [OF v(2)] v(1) by auto
  next
    fix pri i v assume i: "i < length (pendings s pri)" and f: "fst (pendings ?c pri ! i) = Some v"
    then have f: "fst (pendings s pri ! i) = Some v" and n: "\<not> (pri = ABSPRI s w \<and> i = ?k)"
      unfolding nth [OF i] by (auto split: if_splits)
    note v = queuedD(3,4) [OF q i f]
    show "ABSPRI s v = pri" by (rule v)
    have "v \<noteq> w" using n v by auto
    then show "w_pending ?c v = i + 1" using v by (simp add: clear_pending_fields)
  qed
qed

lemma feed_fields [simp]:
  "timers (queue_event w r s) = timers s" "timercnt (queue_event w r s) = timercnt s"
  "ev_at (queue_event w r s) = ev_at s" "ev_repeat (queue_event w r s) = ev_repeat s"
  "ev_priority (queue_event w r s) = ev_priority s" "mn_now (queue_event w r s) = mn_now s"
  "rfeeds (queue_event w r s) = rfeeds s" "activecnt (queue_event w r s) = activecnt s"
  by (simp_all add: queue_event_def Let_def split: prod.split)

lemma ABSPRI_feed [simp]: "ABSPRI (queue_event w r s) = ABSPRI s"
  by (simp add: ABSPRI_def fun_eq_iff)

lemma feed_pending:
  "w_pending (queue_event w r s) =
     (if w_pending s w \<noteq> 0 then w_pending s else (w_pending s)(w := length (pendings s (ABSPRI s w)) + 1))"
  "pendings (queue_event w r s) = (pendings s)(ABSPRI s w :=
     if w_pending s w \<noteq> 0 then (pendings s (ABSPRI s w))[w_pending s w - 1 :=
       (fst (pendings s (ABSPRI s w) ! (w_pending s w - 1)), snd (pendings s (ABSPRI s w) ! (w_pending s w - 1)) OR r)]
     else pendings s (ABSPRI s w) @ [(Some w, r)])"
  by (simp_all add: queue_event_def Let_def case_prod_unfold)

lemma queued_feed:
  assumes q: "queued_ok s"
  shows "queued_ok (queue_event w r s)"
proof (cases "w_pending s w = 0")
  case False
  let ?c = "queue_event w r s"
  have len: "length (pendings ?c pri) = length (pendings s pri)" for pri using False by (simp add: feed_pending)
  have k: "w_pending s w - 1 < length (pendings s (ABSPRI s w))" by (rule queuedD(1) [OF q False])
  have nth: "fst (pendings ?c pri ! i) = fst (pendings s pri ! i)" for pri i
    using False k by (cases "i = w_pending s w - 1") (simp_all add: feed_pending)
  have "w_pending ?c = w_pending s" using False by (simp add: feed_pending)
  then show ?thesis using q unfolding queued_ok_def len nth ABSPRI_feed by simp
next
  case True
  let ?c = "queue_event w r s" and ?p = "ABSPRI s w"
  have absent: "fst (pendings s pri ! i) \<noteq> Some w" if "i < length (pendings s pri)" for pri i
    using queuedD(4) [OF q that] True by fastforce
  show ?thesis
    unfolding queued_ok_def ABSPRI_feed
  proof (intro conjI allI impI)
    fix v assume v: "w_pending ?c v \<noteq> 0"
    show "w_pending ?c v \<le> length (pendings ?c (ABSPRI s v))"
      using queuedD(1) [OF q, of v] True v by (auto simp: feed_pending split: if_splits)
    show "fst (pendings ?c (ABSPRI s v) ! (w_pending ?c v - 1)) = Some v"
      using queuedD(1,2) [OF q, of v] True v by (auto simp: feed_pending nth_append split: if_splits)
  next
    fix pri i v assume i: "i < length (pendings ?c pri)" and f: "fst (pendings ?c pri ! i) = Some v"
    have "i < length (pendings s pri) \<and> fst (pendings s pri ! i) = Some v \<or>
        pri = ?p \<and> i = length (pendings s pri) \<and> v = w"
      using i f True by (auto simp: feed_pending nth_append less_Suc_eq split: if_splits)
    then have "ABSPRI s v = pri \<and> w_pending ?c v = i + 1"
      using queuedD(3,4) [OF q, of i pri v] absent True by (auto simp: feed_pending)
    then show "ABSPRI s v = pri" "w_pending ?c v = i + 1" by simp_all
  qed
qed

fun queue_all :: "wid list \<Rightarrow> 32 word \<Rightarrow> 't ev_loop \<Rightarrow> 't ev_loop" where
  "queue_all [] revents s = s"
| "queue_all (w # ws) revents s = queue_all ws revents (queue_event w revents s)"

text \<open>Within the range of priorities, feeding queues the event.\<close>

definition pri_ok :: "'t ev_loop \<Rightarrow> wid \<Rightarrow> bool" where
  "pri_ok s w \<longleftrightarrow> EV_MINPRI \<le> ev_priority s w \<and> ev_priority s w \<le> EV_MAXPRI"

lemma feed_event_cases: "ev_feed_event w r s = (if pri_ok s w then Inr (queue_event w r s) else Inl (UB OutOfBounds))"
  by (auto simp: ev_feed_event_def pri_ok_def ABSPRI_def)

lemma feed_all_queued: "\<forall>w \<in> set ws. pri_ok s w \<Longrightarrow> feed_all ws r s = Inr (queue_all ws r s)"
  by (induction ws arbitrary: s) (simp_all add: feed_event_cases pri_ok_def)

lemma queued_all: "queued_ok s \<Longrightarrow> queued_ok (queue_all ws r s)"
  by (induction ws arbitrary: s) (simp_all add: queued_feed)

lemma queue_all_fields [simp]:
  "timers (queue_all ws r s) = timers s" "timercnt (queue_all ws r s) = timercnt s"
  "ev_at (queue_all ws r s) = ev_at s" "ev_repeat (queue_all ws r s) = ev_repeat s"
  "ev_priority (queue_all ws r s) = ev_priority s" "mn_now (queue_all ws r s) = mn_now s"
  "rfeeds (queue_all ws r s) = rfeeds s"
  by (induction ws arbitrary: s) simp_all

text \<open>Events fed to watchers without one are appended to the queues, in the order of the list.\<close>

lemma queue_all_queues:
  assumes "distinct ws" and "\<forall>w \<in> set ws. w_pending s w = 0"
  shows "pendings (queue_all ws r s) pri = pendings s pri @ map (\<lambda>w. (Some w, r)) (filter (\<lambda>w. ABSPRI s w = pri) ws)"
  using assms
proof (induction ws arbitrary: s)
  case (Cons w ws)
  have "\<forall>v \<in> set ws. w_pending (queue_event w r s) v = 0" using Cons.prems by (auto simp: feed_pending)
  then show ?case using Cons by (simp add: feed_pending)
qed simp

lemma queue_all_pending: "w_pending (queue_all ws r s) w \<noteq> 0 \<longleftrightarrow> w_pending s w \<noteq> 0 \<or> w \<in> set ws"
  by (induction ws arbitrary: s) (auto simp: feed_pending)

text \<open>What an operation does to the queues when it may only discard events of the watchers \<open>V\<close>.\<close>

definition discards :: "wid set \<Rightarrow> 't ev_loop \<Rightarrow> 't ev_loop \<Rightarrow> bool" where
  "discards V s s' \<longleftrightarrow> ev_priority s' = ev_priority s \<and> pendingpri s' = pendingpri s \<and>
     (\<forall>pri. length (pendings s' pri) = length (pendings s pri)) \<and> (queued_ok s \<longrightarrow> queued_ok s') \<and>
     (\<forall>w. w_pending s' w \<noteq> 0 \<longrightarrow> w_pending s w \<noteq> 0) \<and>
     ((\<forall>w \<in> V. w_pending s w = 0) \<longrightarrow> pendings s' = pendings s \<and> w_pending s' = w_pending s)"

lemma discards_trans: "discards V s s' \<Longrightarrow> discards W s' s'' \<Longrightarrow> V \<subseteq> U \<Longrightarrow> W \<subseteq> U \<Longrightarrow> discards U s s''"
  unfolding discards_def by (metis (no_types, lifting) subsetD)

lemma discards_same:
  "pendings s' = pendings s \<Longrightarrow> w_pending s' = w_pending s \<Longrightarrow> ev_priority s' = ev_priority s \<Longrightarrow>
   pendingpri s' = pendingpri s \<Longrightarrow> discards V s s'"
  using queued_ok_cong unfolding discards_def by metis

lemma discards_clear:
  assumes "pendings s' = pendings (clear_pending w s)" and "w_pending s' = w_pending (clear_pending w s)"
    and "ev_priority s' = ev_priority s" and "pendingpri s' = pendingpri s" and "w \<in> V"
  shows "discards V s s'"
  using queued_ok_cong [of s' "clear_pending w s"] queued_clear [of s w] assms
  by (auto simp: discards_def clear_pending_fields fun_upd_idem)

section \<open>Making timers pending\<close>

lemma reify_loop_ok:
  assumes "timers_ok s" and "expired s" and "repeats_ok s" and "card (late s) \<le> n"
  shows "\<exists>s' ws. reify_loop A n s = Inr s' \<and> timers_ok s' \<and> repeats_ok s' \<and> late s' = {} \<and>
    rfeeds s' = rfeeds s @ ws \<and> distinct ws \<and> set ws = snd ` late s \<and> sorted (map (ev_at s) ws) \<and>
    mn_now s' = mn_now s \<and> discards (set ws) s s' \<and> snd ` entries s' \<subseteq> snd ` entries s"
  using assms
proof (induction n arbitrary: s)
  case 0
  then show ?case using expired_iff finite_late by (metis card_0_eq le_zero_eq)
next
  case (Suc n)
  let ?w = "ANHE_w (entry (timers s) HEAP0)"
  obtain s1 where s1: "reify_one A s = Inr s1" "timers_ok s1" "repeats_ok s1"
      "late s1 = late s - {(ev_at s ?w, ?w)}" "(ev_at s ?w, ?w) \<in> late s"
      "rfeeds s1 = rfeeds s @ [?w]" "mn_now s1 = mn_now s" "ev_priority s1 = ev_priority s"
      "pendingpri s1 = pendingpri s"
      "pendings s1 = pendings s \<and> w_pending s1 = w_pending s \<or>
       pendings s1 = pendings (clear_pending ?w s) \<and> w_pending s1 = w_pending (clear_pending ?w s)"
      "\<And>v. v \<noteq> ?w \<Longrightarrow> ev_at s1 v = ev_at s v" "snd ` entries s1 \<subseteq> snd ` entries s"
    using reify_one_ok [OF Suc.prems(1-3), of A] by blast
  have d1: "discards {?w} s s1" using s1(8-10) by (auto intro: discards_same discards_clear)
  have rest: "\<forall>v \<in> snd ` late s1. v \<noteq> ?w \<and> ev_at s ?w \<le> ev_at s v"
  proof
    fix v assume "v \<in> snd ` late s1"
    then obtain e where e: "e \<in> late s" "e \<noteq> (ev_at s ?w, ?w)" "v = ANHE_w e" unfolding s1(4) by (elim imageE) auto
    have mem: "e \<in> entries s" and n: "timercnt s \<noteq> 0" using e(1) Suc.prems(2) by (auto simp: late_def expired_def)
    have eq: "e = (ev_at s v, v)" using entries_unique [OF Suc.prems(1) mem] e(3) by simp
    have "entry (timers s) HEAP0 = (ev_at s ?w, ?w)"
      by (rule entries_unique [OF Suc.prems(1) top_entry(1) [OF Suc.prems(1) n]])
    then have "ev_at s ?w \<le> ev_at s v" using top_entry(2) [OF Suc.prems(1) n mem] eq by (metis fst_conv)
    then show "v \<noteq> ?w \<and> ev_at s ?w \<le> ev_at s v" using e(2) eq by metis
  qed
  have all: "snd ` late s = insert ?w (snd ` late s1)"
    unfolding s1(4) image_insert [of snd "(ev_at s ?w, ?w)", unfolded snd_conv, symmetric] insert_Diff [OF s1(5)]
    by (rule refl)
  show ?case
  proof (cases "expired s1")
    case False
    then have none: "late s1 = {}" using expired_iff [OF s1(2)] by simp
    show ?thesis
      using s1 d1 False none all by (intro exI [of _ s1] exI [of _ "[?w]"]) simp
  next
    case True
    have "card (late s1) = card (late s) - 1" unfolding s1(4) using s1(5) finite_late by (simp add: card_Diff_singleton)
    then have "card (late s1) \<le> n" using Suc.prems(4) by simp
    from Suc.IH [OF s1(2) True s1(3) this]
    obtain s' ws where s': "reify_loop A n s1 = Inr s'" "timers_ok s'" "repeats_ok s'" "late s' = {}"
        "rfeeds s' = rfeeds s1 @ ws" "distinct ws" "set ws = snd ` late s1" "sorted (map (ev_at s1) ws)"
        "mn_now s' = mn_now s1" "discards (set ws) s1 s'" "snd ` entries s' \<subseteq> snd ` entries s1" by blast
    have same: "map (ev_at s1) ws = map (ev_at s) ws" using s1(11) rest s'(7) by auto
    have "discards (set (?w # ws)) s s'" by (rule discards_trans [OF d1 s'(10)]) auto
    moreover have "distinct (?w # ws)" "sorted (map (ev_at s) (?w # ws))"
      using s'(6,8) rest unfolding same s'(7) [symmetric] by auto
    moreover have "set (?w # ws) = snd ` late s" using all s'(7) by simp
    moreover have "reify_loop A (Suc n) s = Inr s'" using s1(1) s'(1) True by simp
    moreover have "rfeeds s' = rfeeds s @ (?w # ws)" using s'(5) s1(6) by simp
    ultimately show ?thesis using s'(2-4,9,11) s1(7,12)
      by (intro exI [of _ s'] exI [of _ "?w # ws"]) auto
  qed
qed

lemma card_late: "timers_ok s \<Longrightarrow> card (late s) \<le> timercnt s"
proof -
  have "card (late s) \<le> card (entries s)" by (rule card_mono) (auto simp: late_def entries_def)
  also have "\<dots> \<le> timercnt s" unfolding entries_def by (rule order_trans [OF card_image_le]) simp_all
  finally show ?thesis .
qed

end
