(* ===== verification/Ev_Loop.thy ===== *)
theory Ev_Loop
  imports Ev_Reify
begin

text \<open>
  The event loop as a state machine: the steps a program can take on its timers and pending events, the
  invariant they keep, and the properties of \<open>timers_reify\<close>, \<open>ev_timer_stop\<close> and \<open>ev_invoke_pending\<close> in
  the states it reaches.
\<close>

section \<open>The steps of a loop\<close>

text \<open>A zeroed loop, as \<open>loop_init\<close> finds it, at time \<open>t\<close>.\<close>

definition loop_new :: "'t::zero \<Rightarrow> 't ev_loop" where
  "loop_new t = \<lparr>timers = \<lparr>entry = (\<lambda>_. (0, 0)), position = (\<lambda>_. 0)\<rparr>, timercnt = 0, ev_at = (\<lambda>_. 0),
     ev_repeat = (\<lambda>_. 0), ev_priority = (\<lambda>_. 0), w_pending = (\<lambda>_. 0), pendings = (\<lambda>_. []), pendingpri = 0,
     activecnt = 0, rfeeds = [], mn_now = t\<rparr>"

text \<open>The macros \<open>ev_init\<close>, \<open>ev_timer_set\<close> and \<open>ev_set_priority\<close> of \<open>ev.h\<close>.\<close>

definition ev_init :: "wid \<Rightarrow> 't ev_loop \<Rightarrow> 't ev_loop" where
  "ev_init w s = (set_active w 0 (s\<lparr>w_pending := (w_pending s)(w := 0)\<rparr>))\<lparr>ev_priority := (ev_priority s)(w := 0)\<rparr>"

definition ev_timer_set :: "wid \<Rightarrow> 't \<Rightarrow> 't \<Rightarrow> 't ev_loop \<Rightarrow> 't ev_loop" where
  "ev_timer_set w after rep s = s\<lparr>ev_at := (ev_at s)(w := after), ev_repeat := (ev_repeat s)(w := rep)\<rparr>"

definition ev_set_priority :: "wid \<Rightarrow> int \<Rightarrow> 't ev_loop \<Rightarrow> 't ev_loop" where
  "ev_set_priority w pri s = s\<lparr>ev_priority := (ev_priority s)(w := pri)\<rparr>"

definition idle :: "'t ev_loop \<Rightarrow> wid \<Rightarrow> bool" where
  "idle s w \<longleftrightarrow> ev_active s w = 0 \<and> w_pending s w = 0"

definition ev_set_repeat :: "wid \<Rightarrow> 't \<Rightarrow> 't ev_loop \<Rightarrow> 't ev_loop" where
  "ev_set_repeat w rep s = s\<lparr>ev_repeat := (ev_repeat s)(w := rep)\<rparr>"

text \<open>
  What \<open>ev.pod\<close> forbids is excluded: initialising a watcher or changing its priority while it is active or
  pending, and setting an active timer. The repeat value of an active timer may be changed on the fly, but
  not to a negative one, which an assertion of \<open>timers_reify\<close> excludes. An operation that trips an assertion
  or leaves the array of queues is no step. Between two steps
  of \<open>ev_invoke_pending\<close> the callback of the watcher that was invoked takes steps of its own.
\<close>

inductive loop_step :: "'t::{linorder, zero} tstamp \<Rightarrow> 't ev_loop \<Rightarrow> 't ev_loop \<Rightarrow> bool" for A where
  init: "idle s w \<Longrightarrow> loop_step A s (ev_init w s)"
| set: "ev_active s w = 0 \<Longrightarrow> loop_step A s (ev_timer_set w after rep s)"
| set_priority: "idle s w \<Longrightarrow> loop_step A s (ev_set_priority w pri s)"
| start: "ev_timer_start A w s = Inr s' \<Longrightarrow> loop_step A s s'"
| stop: "ev_timer_stop A w s = Inr s' \<Longrightarrow> loop_step A s s'"
| again: "ev_timer_again A w s = Inr s' \<Longrightarrow> loop_step A s s'"
| tick: "loop_step A s (s\<lparr>mn_now := t\<rparr>)"
| reify: "timers_reify A n s = Inr s' \<Longrightarrow> loop_step A s s'"
| set_repeat: "ev_active s w = 0 \<or> 0 \<le> rep \<Longrightarrow> loop_step A s (ev_set_repeat w rep s)"
| feed: "ev_feed_event w revents s = Inr s' \<Longrightarrow> loop_step A s s'"
| clear: "loop_step A s (snd (ev_clear_pending w s))"
| invoke: "pendings s (pendingpri s) \<noteq> [] \<Longrightarrow> loop_step A s (invoke_last (\<lambda>_ _ s. s) s)"
| lower: "pendings s (pendingpri s) = [] \<Longrightarrow> pendingpri s \<noteq> 0 \<Longrightarrow> loop_step A s (s\<lparr>pendingpri := pendingpri s - 1\<rparr>)"
| restart: "loop_step A s (s\<lparr>pendingpri := NUMPRI - 1\<rparr>)"

inductive reachable :: "'t::{linorder, zero} tstamp \<Rightarrow> 't ev_loop \<Rightarrow> bool" for A where
  start: "reachable A (loop_new t)"
| step: "reachable A s \<Longrightarrow> loop_step A s s' \<Longrightarrow> reachable A s'"

section \<open>The invariant\<close>

definition loop_ok :: "'t::{linorder, zero} ev_loop \<Rightarrow> bool" where
  "loop_ok s \<longleftrightarrow> timers_ok s \<and> repeats_ok s \<and> queued_ok s \<and> rfeeds s = [] \<and>
     (\<forall>w. \<not> idle s w \<longrightarrow> pri_ok s w) \<and>
     (\<forall>pri. pendings s pri \<noteq> [] \<longrightarrow> 0 \<le> pri \<and> pri < NUMPRI) \<and> 0 \<le> pendingpri s \<and> pendingpri s < NUMPRI"

lemma loop_okD:
  assumes "loop_ok s"
  shows "timers_ok s" "repeats_ok s" "queued_ok s" "rfeeds s = []" "\<not> idle s w \<Longrightarrow> pri_ok s w"
    "pendings s pri \<noteq> [] \<Longrightarrow> 0 \<le> pri \<and> pri < NUMPRI" "0 \<le> pendingpri s" "pendingpri s < NUMPRI"
  using assms by (simp_all add: loop_ok_def)

lemma loop_okI:
  assumes "timers_ok s" "repeats_ok s" "queued_ok s" "rfeeds s = []" "\<And>w. \<not> idle s w \<Longrightarrow> pri_ok s w"
    "\<And>pri. pendings s pri \<noteq> [] \<Longrightarrow> 0 \<le> pri \<and> pri < NUMPRI" "0 \<le> pendingpri s" "pendingpri s < NUMPRI"
  shows "loop_ok s"
  using assms by (simp add: loop_ok_def)

lemma loop_new_ok: "loop_ok (loop_new t)"
  by (rule loop_okI)
     (simp_all add: loop_new_def timers_ok_def repeats_ok_def queued_ok_def entries_def heap_ok_def ordered_def
       ev_active_def idle_def)

text \<open>Steps that only touch the pending queues, and those that only touch the timers.\<close>

lemma timers_same:
  assumes "timers s' = timers s" "timercnt s' = timercnt s" "ev_at s' = ev_at s"
  shows "timers_ok s' = timers_ok s" "entries s' = entries s" "ev_active s' = ev_active s"
    "ev_repeat s' = ev_repeat s \<Longrightarrow> repeats_ok s' = repeats_ok s"
  using timers_ok_cong [OF assms] assms(1) by (simp_all add: ev_active_def fun_eq_iff repeats_ok_def)

lemma idle_off: "\<not> idle s w \<longleftrightarrow> ev_active s w \<noteq> 0 \<or> w_pending s w \<noteq> 0"
  by (simp add: idle_def)

lemma feed_ok:
  assumes ok: "loop_ok s" and w: "pri_ok s w"
  shows "loop_ok (queue_event w r s)"
proof (rule loop_okI)
  let ?s = "queue_event w r s"
  show "timers_ok ?s" "repeats_ok ?s" using timers_same [of ?s s] loop_okD(1,2) [OF ok] by simp_all
  show "queued_ok ?s" by (rule queued_feed [OF loop_okD(3) [OF ok]])
  show "rfeeds ?s = []" using loop_okD(4) [OF ok] by simp
  show "pri_ok ?s v" if "\<not> idle ?s v" for v
    using that w loop_okD(5) [OF ok, of v] timers_same(3) [of ?s s]
    by (auto simp: idle_off feed_pending pri_ok_def split: if_splits)
  show "0 \<le> pri \<and> pri < NUMPRI" if "pendings ?s pri \<noteq> []" for pri
  proof (cases "pri = ABSPRI s w")
    case True
    then show ?thesis using w by (simp add: ABSPRI_def pri_ok_def)
  next
    case False
    then show ?thesis using that loop_okD(6) [OF ok, of pri] by (simp add: feed_pending)
  qed
  show "0 \<le> pendingpri ?s" "pendingpri ?s < NUMPRI" by (simp_all add: queue_event_def Let_def)
qed

lemma queue_all_ok: "loop_ok s \<Longrightarrow> \<forall>w \<in> set ws. pri_ok s w \<Longrightarrow> loop_ok (queue_all ws r s)"
  by (induction ws arbitrary: s) (simp_all add: feed_ok pri_ok_def)

lemma clear_lengths: "length (pendings (clear_pending w s) pri) = length (pendings s pri)"
  by (simp add: clear_pending_fields)

text \<open>An operation that keeps the timers and may discard events, or start a watcher within its priorities.\<close>

lemma discards_ok:
  assumes ok: "loop_ok s" and "timers_ok s'" "repeats_ok s'" "rfeeds s' = []" "discards V s s'"
    and act: "\<And>w. ev_active s' w \<noteq> 0 \<Longrightarrow> ev_active s w \<noteq> 0"
  shows "loop_ok s'"
proof (rule loop_okI)
  show "pri_ok s' w" if "\<not> idle s' w" for w
    using that act [of w] assms(5) loop_okD(5) [OF ok, of w] by (auto simp: idle_off discards_def pri_ok_def)
  show "0 \<le> pri \<and> pri < NUMPRI" if "pendings s' pri \<noteq> []" for pri
    using that assms(5) loop_okD(6) [OF ok, of pri] unfolding discards_def by (metis length_0_conv)
qed (use assms loop_okD [OF ok] in \<open>simp_all add: discards_def\<close>)

lemma active_subset:
  assumes "timers_ok s" "timers_ok s'" "snd ` entries s' \<subseteq> snd ` entries s" "ev_active s' w \<noteq> 0"
  shows "ev_active s w \<noteq> 0"
proof -
  have "w \<in> snd ` entries s'" using active_iff [OF assms(2)] assms(4) by (metis imageI snd_conv)
  then obtain e where e: "e \<in> entries s" "w = ANHE_w e" using assms(3) by blast
  have "e = (ev_at s w, w)" using entries_unique [OF assms(1) e(1)] e(2) by metis
  then show ?thesis using e(1) active_iff [OF assms(1)] by metis
qed

lemma pri_adjust_ok: "pri_ok (pri_adjust w s) w"
  by (simp add: pri_ok_def pri_adjust_def Let_def)

lemma pri_adjust_id: "pri_ok s w \<Longrightarrow> pri_adjust w s = s"
  by (simp add: pri_adjust_def pri_ok_def Let_def)

lemma loop_ok_entries:
  assumes "repeats_ok s" "ev_repeat s' = ev_repeat s" "snd ` entries s' \<subseteq> insert w (snd ` entries s)" "0 \<le> ev_repeat s w"
  shows "repeats_ok s'"
  unfolding repeats_ok_def
proof
  fix e assume "e \<in> entries s'"
  then have "ANHE_w e \<in> insert w (snd ` entries s)" using assms(3) by blast
  then show "0 \<le> ev_repeat s' (ANHE_w e)" using assms(1,2,4) by (auto simp: repeats_ok_def)
qed

lemma queued_priority:
  assumes "queued_ok s" and "pendings s' = pendings s" "w_pending s' = w_pending s"
    and "\<And>v. v \<noteq> w \<Longrightarrow> ev_priority s' v = ev_priority s v"
    and "w_pending s w = 0 \<or> ev_priority s' w = ev_priority s w"
  shows "queued_ok s'"
proof (cases "w_pending s w = 0")
  case False
  then have "ev_priority s' v = ev_priority s v" for v using assms(4) [of v] assms(5) by (cases "v = w") auto
  then have "ev_priority s' = ev_priority s" by (rule ext)
  then show ?thesis using assms(1-3) queued_ok_cong by metis
next
  case True
  have eq: "ABSPRI s' v = ABSPRI s v" if "v \<noteq> w" for v using assms(4) [OF that] by (simp add: ABSPRI_def)
  show ?thesis
    unfolding queued_ok_def assms(2,3)
  proof (intro conjI allI impI)
    fix v assume v: "w_pending s v \<noteq> 0"
    then have e: "ABSPRI s' v = ABSPRI s v" using eq True by metis
    show "w_pending s v \<le> length (pendings s (ABSPRI s' v))"
      and "fst (pendings s (ABSPRI s' v) ! (w_pending s v - 1)) = Some v"
      unfolding e using queuedD(1,2) [OF assms(1) v] by simp_all
  next
    fix pri i v assume i: "i < length (pendings s pri)" "fst (pendings s pri ! i) = Some v"
    note p = queuedD(3,4) [OF assms(1) i]
    have "v \<noteq> w" using p(2) True by auto
    then show "ABSPRI s' v = pri" "w_pending s v = i + 1" using eq p by simp_all
  qed
qed

text \<open>Changing the priority of a watcher that is not queued.\<close>

lemma priority_ok:
  assumes ok: "loop_ok s" and t: "timers s' = timers s" "timercnt s' = timercnt s" "ev_at s' = ev_at s"
      "ev_repeat s' = ev_repeat s" "rfeeds s' = rfeeds s" "pendingpri s' = pendingpri s"
    and q: "pendings s' = pendings s" "w_pending s' = w_pending s"
    and p: "\<And>v. v \<noteq> w \<Longrightarrow> ev_priority s' v = ev_priority s v"
    and w: "idle s w \<or> ev_priority s' w = ev_priority s w"
  shows "loop_ok s'"
proof (rule loop_okI)
  note tm = timers_same [OF t(1-3)]
  show "timers_ok s'" "repeats_ok s'" using tm(1,4) t(4) loop_okD(1,2) [OF ok] by simp_all
  show "queued_ok s'"
    using w by (intro queued_priority [OF loop_okD(3) [OF ok] q p]) (auto simp: idle_def)
  show "pri_ok s' v" if "\<not> idle s' v" for v
  proof -
    have "\<not> idle s v" using that tm(3) q(2) by (simp add: idle_def)
    then have "pri_ok s v" "ev_priority s' v = ev_priority s v" using loop_okD(5) [OF ok] p [of v] w by (cases "v = w"; auto)+
    then show ?thesis by (simp add: pri_ok_def)
  qed
  show "0 \<le> pri \<and> pri < NUMPRI" if "pendings s' pri \<noteq> []" for pri
    using that q(1) loop_okD(6) [OF ok, of pri] by simp
qed (use t(5,6) loop_okD [OF ok] in simp_all)

lemma start_ok:
  assumes ok: "loop_ok s" and s': "ev_timer_start A w s = Inr s'"
  shows "loop_ok s'"
proof (cases "ev_active s w = 0")
  case False
  then show ?thesis using ok s' by (simp add: ev_timer_start_def)
next
  case True
  have rep: "0 \<le> ev_repeat s w" using s' True by (auto simp: ev_timer_start_def Let_def split: if_splits)
  have t: "timers_ok s'" "entries s' = insert (t_add A (ev_at s w) (mn_now s), w) (entries s)"
    using start_timers [OF loop_okD(1) [OF ok] True rep, of A] s' by auto
  note f = start_fields [OF s']
  have p: "ev_priority s' = ev_priority (pri_adjust w s)" using f(7) True by simp
  have others: "ev_priority s' v = ev_priority s v" if "v \<noteq> w" for v
    using that unfolding p by (simp add: pri_adjust_def Let_def)
  have pw: "pri_ok s' w" using pri_adjust_ok [of w s] unfolding pri_ok_def p .
  have act: "v = w \<or> ev_active s v \<noteq> 0" if "ev_active s' v \<noteq> 0" for v
  proof -
    have "(ev_at s' v, v) \<in> entries s'" using active_iff [OF t(1)] that by simp
    then have "v = w \<or> (ev_at s' v, v) \<in> entries s" unfolding t(2) by auto
    then show ?thesis using active_iff [OF loop_okD(1) [OF ok], of v] entries_unique [OF loop_okD(1) [OF ok]] by (metis snd_conv)
  qed
  show ?thesis
  proof (rule loop_okI)
    show "repeats_ok s'"
      by (rule loop_ok_entries [OF loop_okD(2) [OF ok] f(5) _ rep]) (simp add: t(2))
    have "w_pending s w = 0 \<or> ev_priority s' w = ev_priority s w"
      using loop_okD(5) [OF ok, of w] pri_adjust_id [of s w] unfolding p idle_off by metis
    then show "queued_ok s'" by (intro queued_priority [OF loop_okD(3) [OF ok] f(1,2)] others)
    show "pri_ok s' v" if "\<not> idle s' v" for v
    proof (cases "v = w")
      case False
      then have "\<not> idle s v" using that act [of v] f(2) by (auto simp: idle_off)
      then show ?thesis using loop_okD(5) [OF ok] others [OF False] by (simp add: pri_ok_def)
    qed (simp add: pw)
    show "0 \<le> pri \<and> pri < NUMPRI" if "pendings s' pri \<noteq> []" for pri
      using that f(1) loop_okD(6) [OF ok, of pri] by simp
  qed (use t(1) f loop_okD [OF ok] in simp_all)
qed

lemma clear_ok:
  assumes ok: "loop_ok s"
  shows "loop_ok (clear_pending w s)"
proof (rule discards_ok [OF ok, where V = "{w}"])
  let ?s = "clear_pending w s"
  show "timers_ok ?s" "repeats_ok ?s" using timers_same [of ?s s] loop_okD(1,2) [OF ok] by simp_all
  show "discards {w} s ?s" by (rule discards_clear) simp_all
qed (use loop_okD(4) [OF ok] clear_pending_same(1) [of w s] in simp_all)

lemma stop_ok:
  assumes ok: "loop_ok s" and s': "ev_timer_stop A w s = Inr s'"
  shows "loop_ok s'"
proof (cases "ev_active s w = 0")
  case True
  then have "s' = clear_pending w s" using s' by (simp add: ev_timer_stop_def clear_pending_same)
  then show ?thesis using clear_ok [OF ok] by simp
next
  case False
  have t: "timers_ok s'" "entries s' = entries s - {(ev_at s w, w)}"
    using stop_timers [OF loop_okD(1) [OF ok] False, of A] s' by auto
  note f = stop_fields [OF s']
  have sub: "snd ` entries s' \<subseteq> snd ` entries s" unfolding t(2) by (rule image_mono) blast
  show ?thesis
  proof (rule discards_ok [OF ok t(1), where V = "{w}"])
    show "repeats_ok s'" using loop_okD(2) [OF ok] unfolding repeats_ok_def t(2) f(5) by blast
    show "discards {w} s s'" by (rule discards_clear [OF f(1,2,6,7)]) simp
    show "ev_active s v \<noteq> 0" if "ev_active s' v \<noteq> 0" for v
      by (rule active_subset [OF loop_okD(1) [OF ok] t(1) sub that])
  qed (use loop_okD(4) [OF ok] f(3) in simp)
qed

lemma set_ok:
  assumes ok: "loop_ok s" and inactive: "ev_active s w = 0"
  shows "loop_ok (ev_timer_set w a r s)"
proof -
  let ?s = "ev_timer_set w a r s"
  note new = inactive_new [OF loop_okD(1) [OF ok] inactive]
  have e: "entries ?s = entries s" and act: "ev_active ?s = ev_active s"
    by (simp_all add: ev_timer_set_def entries_def ev_active_def fun_eq_iff)
  have "timers_ok ?s"
    using loop_okD(1) [OF ok] new unfolding timers_ok_def e act by (simp add: ev_timer_set_def)
  moreover have "repeats_ok ?s"
    using loop_okD(2) [OF ok] new unfolding repeats_ok_def e by (simp add: ev_timer_set_def)
  moreover have "discards {} s ?s" by (rule discards_same) (simp_all add: ev_timer_set_def)
  moreover have "rfeeds ?s = []" using loop_okD(4) [OF ok] by (simp add: ev_timer_set_def)
  ultimately show ?thesis using act by (intro discards_ok [OF ok]) simp_all
qed

lemma set_repeat_ok:
  assumes ok: "loop_ok s" and w: "ev_active s w = 0 \<or> 0 \<le> r"
  shows "loop_ok (ev_set_repeat w r s)"
proof -
  let ?s = "ev_set_repeat w r s"
  note same = timers_same(1-3) [of ?s s]
  have "repeats_ok ?s"
    using loop_okD(1,2) [OF ok] w inactive_new [OF loop_okD(1) [OF ok], of w] same
    by (auto simp: repeats_ok_def ev_set_repeat_def)
  moreover have "discards {} s ?s" by (rule discards_same) (simp_all add: ev_set_repeat_def)
  moreover have "rfeeds ?s = []" using loop_okD(4) [OF ok] by (simp add: ev_set_repeat_def)
  ultimately show ?thesis using same loop_okD(1) [OF ok] by (intro discards_ok [OF ok]) (simp_all add: ev_set_repeat_def)
qed

lemma again_ok:
  assumes ok: "loop_ok s" and s': "ev_timer_again A w s = Inr s'"
  shows "loop_ok s'"
proof -
  let ?c = "clear_pending w s"
  have c: "loop_ok ?c" "ev_active ?c w = ev_active s w" using clear_ok [OF ok] by (simp_all add: clear_pending_same)
  consider "ev_active s w = 0" "ev_repeat s w = 0" | "ev_active s w = 0" "ev_repeat s w \<noteq> 0"
    | "ev_active s w \<noteq> 0" "ev_repeat s w = 0" | "ev_active s w \<noteq> 0" "ev_repeat s w \<noteq> 0" by blast
  then show ?thesis
  proof cases
    case 1
    then show ?thesis using s' c by (simp add: ev_timer_again_def)
  next
    case 2
    have "ev_timer_set w (ev_repeat s w) (ev_repeat s w) ?c = ?c\<lparr>ev_at := (ev_at s)(w := ev_repeat s w)\<rparr>"
      by (rule ev_loop.equality) (simp_all add: ev_timer_set_def fun_upd_idem)
    then have "ev_timer_start A w (ev_timer_set w (ev_repeat s w) (ev_repeat s w) ?c) = Inr s'"
      using s' c(2) 2 by (simp add: ev_timer_again_def Let_def)
    then show ?thesis using start_ok [OF set_ok [OF c(1)]] c(2) 2(1) by simp
  next
    case 3
    then have "ev_timer_stop A w ?c = Inr s'" using s' c by (simp add: ev_timer_again_def)
    then show ?thesis by (rule stop_ok [OF c(1)])
  next
    case 4
    have mem: "(ev_at s w, w) \<in> entries s" using active_iff [OF loop_okD(1) [OF ok]] 4(1) by simp
    have rep: "0 \<le> ev_repeat s w" using loop_okD(2) [OF ok] mem unfolding repeats_ok_def by force
    have t: "timers_ok s'" "entries s' = insert (t_add A (mn_now s) (ev_repeat s w), w) (entries s - {(ev_at s w, w)})"
      using again_timers [OF loop_okD(1) [OF ok] rep, of A] s' 4 by auto
    have sub: "snd ` entries s' \<subseteq> snd ` entries s"
      unfolding t(2) using mem by (intro watchers_kept) auto
    note f = again_fields [OF s']
    have p: "ev_priority s' = ev_priority s" using f(7) 4(1) by simp
    show ?thesis
    proof (rule discards_ok [OF ok t(1), where V = "{w}"])
      show "repeats_ok s'" using sub by (intro loop_ok_entries [OF loop_okD(2) [OF ok] f(5) _ rep]) blast
      show "discards {w} s s'" by (rule discards_clear [OF f(1,2) p f(6)]) simp
      show "ev_active s v \<noteq> 0" if "ev_active s' v \<noteq> 0" for v
        by (rule active_subset [OF loop_okD(1) [OF ok] t(1) sub that])
    qed (use loop_okD(4) [OF ok] f(3) in simp)
  qed
qed

lemma tick_ok: "loop_ok s \<Longrightarrow> loop_ok (s\<lparr>mn_now := t\<rparr>)"
  using timers_same [of "s\<lparr>mn_now := t\<rparr>" s] queued_ok_cong [of "s\<lparr>mn_now := t\<rparr>" s]
  by (simp add: loop_ok_def idle_def pri_ok_def)

lemma reify_fuel: "reify_loop A n s = Inr s' \<Longrightarrow> n \<le> m \<Longrightarrow> reify_loop A m s = Inr s'"
proof (induction n arbitrary: m s)
  case (Suc n)
  then obtain k where m: "m = Suc k" "n \<le> k" by (cases m) auto
  show ?case
  proof (cases "reify_one A s")
    case (Inr s1)
    then show ?thesis using Suc.prems(1) Suc.IH [of s1 k] m by (simp split: if_splits)
  qed (use Suc.prems(1) in simp)
qed simp

text \<open>What \<open>timers_reify\<close> does when there is enough fuel.\<close>

lemma reify_result:
  assumes ok: "loop_ok s" and n: "card (late s) \<le> n"
  shows "\<exists>s1 s' ws. timers_reify A n s = Inr s' \<and> loop_ok s' \<and> late s' = {} \<and>
    distinct ws \<and> set ws = snd ` late s \<and> sorted (map (ev_at s) ws) \<and> discards (set ws) s s1 \<and>
    pendings s' = pendings (queue_all (rev ws) EV_TIMER s1) \<and> w_pending s' = w_pending (queue_all (rev ws) EV_TIMER s1)"
proof (cases "expired s")
  case False
  then have "late s = {}" using expired_iff [OF loop_okD(1) [OF ok]] by simp
  then show ?thesis using ok False
    by (intro exI [of _ s] exI [of _ s] exI [of _ "[]"]) (simp add: timers_reify_def discards_same)
next
  case True
  note t = loop_okD(1) [OF ok]
  obtain s1 ws where s1: "reify_loop A n s = Inr s1" "timers_ok s1" "repeats_ok s1" "late s1 = {}"
      "rfeeds s1 = rfeeds s @ ws" "distinct ws" "set ws = snd ` late s" "sorted (map (ev_at s) ws)"
      "mn_now s1 = mn_now s" "discards (set ws) s s1" "snd ` entries s1 \<subseteq> snd ` entries s"
    using reify_loop_ok [OF t True loop_okD(2) [OF ok] n, of A] by blast
  let ?s1 = "s1\<lparr>rfeeds := []\<rparr>"
  have r: "rfeeds s1 = ws" using s1(5) loop_okD(4) [OF ok] by simp
  have same: "timers_ok ?s1" "entries ?s1 = entries s1" "ev_active ?s1 = ev_active s1" "repeats_ok ?s1"
    using timers_same [of ?s1 s1] s1(2,3) by simp_all
  have "discards (set ws) s ?s1"
    using s1(10) queued_ok_cong [of ?s1 s1] by (simp add: discards_def)
  then have "loop_ok ?s1"
    using same active_subset [OF t s1(2,11)] by (intro discards_ok [OF ok]) simp_all
  moreover have pri: "pri_ok s1 w" if w: "w \<in> set ws" for w
  proof -
    obtain e where e: "e \<in> entries s" "w = ANHE_w e" using w unfolding s1(7) late_def by (elim imageE) blast
    then have "(ev_at s w, w) \<in> entries s" using entries_unique [OF t e(1)] by metis
    then have "pri_ok s w" using loop_okD(5) [OF ok, of w] active_iff [OF t] by (simp add: idle_off)
    then show ?thesis using s1(10) by (simp add: pri_ok_def discards_def)
  qed
  ultimately have fed: "loop_ok (queue_all (rev ws) EV_TIMER ?s1)" by (intro queue_all_ok) (simp_all add: pri_ok_def)
  have one: "(queue_event v r s1)\<lparr>rfeeds := []\<rparr> = queue_event v r (s1\<lparr>rfeeds := []\<rparr>)" for v r and s1 :: "'a ev_loop"
    by (rule ev_loop.equality) (simp_all add: queue_event_def Let_def case_prod_unfold ABSPRI_def)
  have swap: "(queue_all vs r s1)\<lparr>rfeeds := []\<rparr> = queue_all vs r (s1\<lparr>rfeeds := []\<rparr>)" for vs r and s1 :: "'a ev_loop"
    by (induction vs arbitrary: s1) (simp_all add: one)
  let ?s' = "queue_all (rev ws) EV_TIMER ?s1"
  have "timers_reify A n s = Inr ?s'"
    using True s1(1) feed_all_queued [of "rev ws" s1 EV_TIMER] pri by (simp add: timers_reify_def feed_reverse_done_def r swap)
  moreover have "late ?s' = {}"
    using timers_same(2) [of ?s' s1] s1(4) by (simp add: late_def)
  ultimately show ?thesis
    using fed s1(6-8) \<open>discards (set ws) s ?s1\<close> by (intro exI [of _ ?s1] exI [of _ ?s'] exI [of _ ws]) simp
qed

lemma reify_ok:
  assumes ok: "loop_ok s" and s': "timers_reify A n s = Inr s'"
  shows "loop_ok s'"
proof -
  let ?m = "max n (timercnt s)"
  have "timers_reify A ?m s = Inr s'"
  proof (cases "expired s")
    case True
    obtain s1 where s1: "reify_loop A n s = Inr s1" "feed_reverse_done EV_TIMER s1 = Inr s'"
      using s' True by (cases "reify_loop A n s") (auto simp: timers_reify_def)
    then show ?thesis using True reify_fuel [OF s1(1), of ?m] by (simp add: timers_reify_def)
  qed (use s' in \<open>simp add: timers_reify_def\<close>)
  moreover have "card (late s) \<le> ?m" using card_late [OF loop_okD(1) [OF ok]] by simp
  from reify_result [OF ok this, of A] obtain s'' where "timers_reify A ?m s = Inr s''" "loop_ok s''" by blast
  ultimately show ?thesis by simp
qed

lemma ev_clear_pending_eq: "snd (ev_clear_pending w s) = clear_pending w s"
  by (simp add: ev_clear_pending_def clear_pending_def Let_def)

text \<open>Invoking the last entry of the queue in turn.\<close>

lemma invoke_fields:
  fixes s :: "'t ev_loop"
  defines "s' \<equiv> invoke_last (\<lambda>_ _ s. s) s"
  shows "timers s' = timers s" "timercnt s' = timercnt s" "ev_at s' = ev_at s" "ev_repeat s' = ev_repeat s"
    "ev_priority s' = ev_priority s" "rfeeds s' = rfeeds s" "pendingpri s' = pendingpri s"
    "pendings s' = (pendings s)(pendingpri s := butlast (pendings s (pendingpri s)))"
    "w_pending s' w = (if fst (last (pendings s (pendingpri s))) = Some w then 0 else w_pending s w)"
  unfolding s'_def
  by (auto simp: invoke_last_def Let_def split: prod.split option.split)

lemma invoke_queued:
  assumes q: "queued_ok s" and ne: "pendings s (pendingpri s) \<noteq> []"
  shows "queued_ok (invoke_last (\<lambda>_ _ s. s) s)"
proof -
  let ?s = "invoke_last (\<lambda>_ _ s. s) s" and ?p = "pendingpri s"
  let ?q = "pendings s ?p"
  have last: "last ?q = ?q ! (length ?q - 1)" "length ?q - 1 < length ?q" using ne by (simp_all add: last_conv_nth)
  have P: "ABSPRI ?s = ABSPRI s" by (simp add: ABSPRI_def invoke_fields fun_eq_iff)
  have taken: "ABSPRI s w = ?p \<and> w_pending s w = length ?q" if "fst (last ?q) = Some w" for w
    using queuedD(3,4) [OF q last(2), of w] that last ne by simp
  show ?thesis
    unfolding queued_ok_def P
  proof (intro conjI allI impI)
    fix w assume "w_pending ?s w \<noteq> 0"
    then have w: "fst (last ?q) \<noteq> Some w" "w_pending s w \<noteq> 0" "w_pending ?s w = w_pending s w"
      unfolding invoke_fields by (auto split: if_splits)
    note d = queuedD(1,2) [OF q w(2)]
    have "w_pending s w - 1 < length (pendings ?s (ABSPRI s w)) \<and>
        pendings ?s (ABSPRI s w) ! (w_pending s w - 1) = pendings s (ABSPRI s w) ! (w_pending s w - 1)"
    proof (cases "ABSPRI s w = ?p")
      case True
      have "w_pending s w - 1 \<noteq> length ?q - 1" using d(2) w(1) last(1) unfolding True by metis
      then have "w_pending s w - 1 < length (butlast ?q)" using d(1) unfolding True length_butlast by linarith
      then show ?thesis unfolding True by (simp add: invoke_fields nth_butlast)
    qed (use d(1) in \<open>simp add: invoke_fields\<close>)
    then show "fst (pendings ?s (ABSPRI s w) ! (w_pending ?s w - 1)) = Some w"
      and "w_pending ?s w \<le> length (pendings ?s (ABSPRI s w))"
      unfolding w(3) using d(2) by (simp, linarith)
  next
    fix pri i w assume i: "i < length (pendings ?s pri)" and f: "fst (pendings ?s pri ! i) = Some w"
    have i': "i < length (pendings s pri)" and eq: "pendings ?s pri ! i = pendings s pri ! i"
      using i by (auto simp: invoke_fields nth_butlast split: if_splits)
    note d = queuedD(3,4) [OF q i' f [unfolded eq]]
    show "ABSPRI s w = pri" by (rule d)
    have "fst (last ?q) \<noteq> Some w"
    proof
      assume "fst (last ?q) = Some w"
      from taken [OF this] d have "pri = ?p" "i + 1 = length ?q" by simp_all
      then show False using i unfolding invoke_fields by simp
    qed
    then show "w_pending ?s w = i + 1" using d(2) unfolding invoke_fields by simp
  qed
qed

lemma invoke_ok:
  assumes ok: "loop_ok s" and ne: "pendings s (pendingpri s) \<noteq> []"
  shows "loop_ok (invoke_last (\<lambda>_ _ s. s) s)"
proof (rule loop_okI)
  let ?s = "invoke_last (\<lambda>_ _ s. s) s"
  note same = timers_same [of ?s s, OF invoke_fields(1-3)]
  show "timers_ok ?s" "repeats_ok ?s" using same(1,4) loop_okD(1,2) [OF ok] by (simp_all add: invoke_fields)
  show "queued_ok ?s" by (rule invoke_queued [OF loop_okD(3) [OF ok] ne])
  show "pri_ok ?s w" if "\<not> idle ?s w" for w
    using that loop_okD(5) [OF ok, of w] unfolding idle_off pri_ok_def same(3) by (auto simp: invoke_fields split: if_splits)
  show "0 \<le> pri \<and> pri < NUMPRI" if "pendings ?s pri \<noteq> []" for pri
  proof (rule loop_okD(6) [OF ok])
    show "pendings s pri \<noteq> []" using that unfolding invoke_fields by (cases "pri = pendingpri s") auto
  qed
qed (use loop_okD [OF ok] in \<open>simp_all add: invoke_fields\<close>)

lemma pendingpri_ok: "loop_ok s \<Longrightarrow> 0 \<le> p \<Longrightarrow> p < NUMPRI \<Longrightarrow> loop_ok (s\<lparr>pendingpri := p\<rparr>)"
  using timers_same [of "s\<lparr>pendingpri := p\<rparr>" s] queued_ok_cong [of "s\<lparr>pendingpri := p\<rparr>" s]
  by (simp add: loop_ok_def idle_def pri_ok_def)

lemma init_ok:
  assumes "loop_ok s" and "idle s w"
  shows "loop_ok (ev_init w s)"
proof (rule priority_ok [OF assms(1), where w = w])
  show "timers (ev_init w s) = timers s"
    using assms(2) by (simp add: ev_init_def set_active_def idle_def ev_active_def fun_upd_idem)
  show "w_pending (ev_init w s) = w_pending s"
    using assms(2) by (simp add: ev_init_def set_active_def idle_def fun_upd_idem)
qed (use assms(2) in \<open>simp_all add: ev_init_def set_active_def\<close>)

lemma set_priority_ok:
  assumes "loop_ok s" and "idle s w"
  shows "loop_ok (ev_set_priority w pri s)"
  by (rule priority_ok [OF assms(1), where w = w]) (simp_all add: ev_set_priority_def assms(2))

lemma step_ok:
  assumes "loop_step A s s'" and ok: "loop_ok s"
  shows "loop_ok s'"
  using assms(1)
proof cases
  case (init w)
  show ?thesis unfolding init(1) by (rule init_ok [OF ok init(2)])
next
  case (set w)
  show ?thesis unfolding set(1) by (rule set_ok [OF ok set(2)])
next
  case (set_priority w)
  show ?thesis unfolding set_priority(1) by (rule set_priority_ok [OF ok set_priority(2)])
next
  case (start w)
  show ?thesis by (rule start_ok [OF ok start])
next
  case (stop w)
  show ?thesis by (rule stop_ok [OF ok stop])
next
  case (again w)
  show ?thesis by (rule again_ok [OF ok again])
next
  case (tick t)
  show ?thesis unfolding tick by (rule tick_ok [OF ok])
next
  case (reify n)
  show ?thesis by (rule reify_ok [OF ok reify])
next
  case (set_repeat w)
  show ?thesis unfolding set_repeat(1) by (rule set_repeat_ok [OF ok set_repeat(2)])
next
  case (feed w revents)
  then show ?thesis using feed_ok [OF ok, of w revents] by (simp add: feed_event_cases split: if_splits)
next
  case (clear w)
  show ?thesis unfolding clear ev_clear_pending_eq by (rule clear_ok [OF ok])
next
  case invoke
  show ?thesis unfolding invoke(1) by (rule invoke_ok [OF ok invoke(2)])
next
  case lower
  show ?thesis
    unfolding lower(1) using lower(3) loop_okD(7,8) [OF ok] by (intro pendingpri_ok [OF ok]) linarith+
next
  case restart
  show ?thesis unfolding restart by (rule pendingpri_ok [OF ok]) simp_all
qed

lemma reachable_ok: "reachable A s \<Longrightarrow> loop_ok s"
  by (induction rule: reachable.induct) (simp_all add: loop_new_ok step_ok)

section \<open>A loop with one expired timer\<close>

definition int_time :: "int tstamp" where
  "int_time = \<lparr>t_add = (+), t_sub = (-)\<rparr>"

definition demo_loop :: "int ev_loop" where
  "demo_loop = (case ev_timer_start int_time 7 (ev_timer_set 7 5 0 (ev_init 7 (loop_new 0))) of
     Inr s \<Rightarrow> s\<lparr>mn_now := 10\<rparr> | Inl e \<Rightarrow> loop_new 0)"

lemma demo_start: "ev_timer_start int_time 7 (ev_timer_set 7 5 0 (ev_init 7 (loop_new 0))) =
  Inr (demo_loop\<lparr>mn_now := 0\<rparr>)"
  by (simp add: demo_loop_def ev_timer_start_def ev_timer_set_def ev_init_def loop_new_def set_active_def ev_active_def
      ev_start_def pri_adjust_def set_entry_def int_time_def Let_def)

lemma demo_reachable: "reachable int_time demo_loop"
proof -
  have "reachable int_time (loop_new 0)" by (rule reachable.start)
  moreover have "idle (loop_new (0 :: int)) 7" by (simp add: idle_def ev_active_def loop_new_def)
  ultimately have "reachable int_time (ev_init 7 (loop_new 0))" by (rule reachable.step [OF _ loop_step.init])
  moreover have "ev_active (ev_init 7 (loop_new (0 :: int))) 7 = 0"
    by (simp add: ev_init_def set_active_def ev_active_def)
  ultimately have "reachable int_time (ev_timer_set 7 5 0 (ev_init 7 (loop_new 0)))"
    by (rule reachable.step [OF _ loop_step.set])
  then have "reachable int_time (demo_loop\<lparr>mn_now := 0\<rparr>)"
    by (rule reachable.step [OF _ loop_step.start [OF demo_start]])
  then have "reachable int_time (demo_loop\<lparr>mn_now := 0\<rparr>\<lparr>mn_now := mn_now demo_loop\<rparr>)"
    by (rule reachable.step [OF _ loop_step.tick])
  then show ?thesis by simp
qed

lemma upheap_root: "upheap_from he (Suc (Suc (Suc 0))) H = place (Suc (Suc (Suc 0))) he H"
  by (subst upheap_from.simps) (simp add: HPARENT_def)

lemma demo_fields: "ev_active demo_loop 7 = 3" "ev_at demo_loop 7 = 5" "mn_now demo_loop = 10"
    "w_pending demo_loop w = 0" "timercnt demo_loop = 1"
  by (simp_all add: demo_loop_def ev_timer_start_def ev_timer_set_def ev_init_def loop_new_def set_active_def ev_active_def
      ev_start_def pri_adjust_def set_entry_def int_time_def Let_def upheap_def upheap_root place_def)

section \<open>Properties\<close>

text \<open>
  C38. Whatever a program does that \<open>ev.pod\<close> allows and that trips no assertion (initialising a watcher or
  changing its priority while it is neither active nor pending, setting a timer that is not active, changing
  the repeat value of any timer, not to a negative one while it is active, starting, stopping and restarting
  timers, advancing the clock, expiring timers, feeding, clearing and invoking events), the loop keeps its
  invariant: every active timer knows its position in the heap and the heap is ordered, its repeat value is
  not negative, a pending watcher is in the queue of its priority exactly once and at the index it records,
  and no entry is in a queue outside the array of queues. The one step that can leave the array is feeding
  an event to a watcher that is neither active nor pending and has a priority out of the range.
\<close>

theorem timer_loop_invariant:
  assumes "reachable A s"
  shows "(\<forall>w. ev_active s w \<noteq> 0 \<longrightarrow>
       ev_active s w \<in> {HEAP0..<timercnt s + HEAP0} \<and> entry (timers s) (ev_active s w) = (ev_at s w, w) \<and>
       0 \<le> ev_repeat s w)
   \<and> (\<forall>j. HEAP0 < j \<longrightarrow> j < timercnt s + HEAP0 \<longrightarrow>
       ANHE_at (entry (timers s) (HPARENT j)) \<le> ANHE_at (entry (timers s) j))
   \<and> (\<forall>w pri i. (i < length (pendings s pri) \<and> fst (pendings s pri ! i) = Some w) =
       (pri = ABSPRI s w \<and> w_pending s w = i + 1))
   \<and> (\<forall>pri. pendings s pri \<noteq> [] \<longrightarrow> 0 \<le> pri \<and> pri < NUMPRI)
   \<and> (\<forall>w revents e. ev_feed_event w revents s = Inl e \<longrightarrow> e = UB OutOfBounds \<and>
       ev_active s w = 0 \<and> w_pending s w = 0 \<and> (ev_priority s w < EV_MINPRI \<or> EV_MAXPRI < ev_priority s w))"
proof -
  note ok = loop_okD [OF reachable_ok [OF assms]]
  have "ev_active s w \<in> slots (timercnt s) \<and> entry (timers s) (ev_active s w) = (ev_at s w, w) \<and> 0 \<le> ev_repeat s w"
    if "ev_active s w \<noteq> 0" for w
  proof -
    have mem: "(ev_at s w, w) \<in> entries s" using active_iff [OF ok(1)] that by simp
    show ?thesis using entry_at_position [OF ok(1) mem] bspec [OF ok(2) [unfolded repeats_ok_def] mem] by simp
  qed
  moreover have "\<forall>j \<in> slots (timercnt s). HEAP0 < j \<longrightarrow> ANHE_at (entry (timers s) (HPARENT j)) \<le> ANHE_at (entry (timers s) j)"
    using ok(1) by (simp add: timers_ok_def heap_ok_def ordered_def)
  moreover have "(i < length (pendings s pri) \<and> fst (pendings s pri ! i) = Some w) =
      (pri = ABSPRI s w \<and> w_pending s w = i + 1)" for w pri i
  proof
    assume "i < length (pendings s pri) \<and> fst (pendings s pri ! i) = Some w"
    then show "pri = ABSPRI s w \<and> w_pending s w = i + 1" using queuedD(3,4) [OF ok(3), of i pri w] by simp
  next
    assume "pri = ABSPRI s w \<and> w_pending s w = i + 1"
    then show "i < length (pendings s pri) \<and> fst (pendings s pri ! i) = Some w"
      using queuedD(1,2) [OF ok(3), of w] by simp
  qed
  moreover have "e = UB OutOfBounds \<and> ev_active s w = 0 \<and> w_pending s w = 0 \<and>
      (ev_priority s w < EV_MINPRI \<or> EV_MAXPRI < ev_priority s w)" if "ev_feed_event w revents s = Inl e" for w revents e
  proof -
    have "\<not> pri_ok s w" "e = UB OutOfBounds" using that by (simp_all add: feed_event_cases split: if_splits)
    moreover from this have "idle s w" using ok(5) by blast
    ultimately show ?thesis by (simp add: idle_def pri_ok_def) linarith
  qed
  ultimately show ?thesis using ok(6) by simp
qed

theorem timer_loop_invariant_witness:
  "ev_active demo_loop 7 \<noteq> 0 \<and> entry (timers demo_loop) (ev_active demo_loop 7) = (ev_at demo_loop 7, 7)"
proof -
  have "\<forall>w. ev_active demo_loop w \<noteq> 0 \<longrightarrow> entry (timers demo_loop) (ev_active demo_loop w) = (ev_at demo_loop w, w)"
    using timer_loop_invariant [OF demo_reachable] by blast
  moreover have "ev_active demo_loop 7 \<noteq> 0" by (simp add: demo_fields)
  ultimately show ?thesis by blast
qed

text \<open>
  \<open>ev.pod\<close> calls a priority out of the range fine, and feeding an initialised watcher that was never started
  allowed; together they index outside the array of queues.
\<close>

lemma feed_unstarted_out_of_range:
  assumes "pri < EV_MINPRI \<or> EV_MAXPRI < pri"
  shows "ev_feed_event w revents (ev_set_priority w pri (ev_init w s)) = Inl (UB OutOfBounds)"
  using assms by (auto simp: ev_feed_event_def ABSPRI_def ev_set_priority_def)



text \<open>
  C40. Stopping a timer in a reachable state trips no assertion and takes back all it has caused: the timer
  is not active and not pending, no queue names it, so that its callback cannot run; every other timer and
  its expiry time, and every event of another watcher, stays.
\<close>

theorem stopped_timer_not_invoked:
  assumes "reachable A s"
  shows "\<exists>s'. ev_timer_stop A w s = Inr s' \<and> ev_active s' w = 0 \<and> w_pending s' w = 0
    \<and> (\<forall>pri. Some w \<notin> fst ` set (pendings s' pri))
    \<and> (\<forall>v. v \<noteq> w \<longrightarrow> (ev_active s' v \<noteq> 0) = (ev_active s v \<noteq> 0) \<and> ev_at s' v = ev_at s v)
    \<and> (\<forall>pri i. i < length (pendings s pri) \<longrightarrow> pendings s' pri ! i =
        (if fst (pendings s pri ! i) = Some w then (None, snd (pendings s pri ! i)) else pendings s pri ! i))"
proof -
  note ok = reachable_ok [OF assms]
  note t = loop_okD(1) [OF ok] and q = loop_okD(3) [OF ok]
  have ex: "\<exists>s'. ev_timer_stop A w s = Inr s' \<and> ev_active s' w = 0 \<and>
      (\<forall>v. v \<noteq> w \<longrightarrow> (ev_active s' v \<noteq> 0) = (ev_active s v \<noteq> 0))"
  proof (cases "ev_active s w = 0")
    case True
    then show ?thesis by (simp add: ev_timer_stop_def clear_pending_same)
  next
    case False
    obtain s' where s': "ev_timer_stop A w s = Inr s'" "timers_ok s'" "entries s' = entries s - {(ev_at s w, w)}"
        "ev_active s' w = 0" using stop_timers [OF t False] by blast
    have "(ev_active s' v \<noteq> 0) = (ev_active s v \<noteq> 0)" if "v \<noteq> w" for v
      using active_iff [OF s'(2), of v] active_iff [OF t, of v] stop_at [OF s'(1) that] that unfolding s'(3) by simp
    then show ?thesis using s'(1,4) by blast
  qed
  then obtain s' where s': "ev_timer_stop A w s = Inr s'" "ev_active s' w = 0"
      "\<And>v. v \<noteq> w \<Longrightarrow> (ev_active s' v \<noteq> 0) = (ev_active s v \<noteq> 0)" by blast
  note f = stop_fields [OF s'(1)]
  have ok': "loop_ok s'" by (rule stop_ok [OF ok s'(1)])
  have none: "w_pending s' w = 0" by (simp add: f clear_pending_fields)
  have "Some w \<notin> fst ` set (pendings s' pri)" for pri
  proof
    assume "Some w \<in> fst ` set (pendings s' pri)"
    then have "Some w \<in> set (map fst (pendings s' pri))" by simp
    then obtain i where i: "i < length (pendings s' pri)" "fst (pendings s' pri ! i) = Some w"
      unfolding in_set_conv_nth by auto
    from queuedD(4) [OF loop_okD(3) [OF ok'] i] none show False by simp
  qed
  moreover have "pendings s' pri ! i =
      (if fst (pendings s pri ! i) = Some w then (None, snd (pendings s pri ! i)) else pendings s pri ! i)"
    if i: "i < length (pendings s pri)" for pri i
  proof (cases "fst (pendings s pri ! i) = Some w")
    case True
    then show ?thesis using queuedD(3,4) [OF q i True] i by (simp add: f clear_pending_fields)
  next
    case False
    have "\<not> (w_pending s w \<noteq> 0 \<and> pri = ABSPRI s w \<and> i = w_pending s w - 1)" using queuedD(2) [OF q, of w] False by blast
    then show ?thesis using False by (auto simp: f clear_pending_fields)
  qed
  ultimately show ?thesis using s' none stop_at [OF s'(1)] by (intro exI [of _ s']) simp
qed

theorem stopped_timer_not_invoked_witness:
  "\<exists>s'. ev_timer_stop int_time 7 demo_loop = Inr s' \<and> ev_active demo_loop 7 \<noteq> 0 \<and> ev_active s' 7 = 0"
proof -
  have "ev_active demo_loop 7 \<noteq> 0" by (simp add: demo_fields)
  then show ?thesis using stopped_timer_not_invoked [OF demo_reachable, of 7] by blast
qed

end
