(* ===== verification/Spec2Isabelle.thy ===== *)
theory Spec2Isabelle
  imports Bson_Codec Bson_Index Bson_Types Mongo_Driver Http_Contract Lua_Socket Ev_Loop
begin

text \<open>
  A model of levent, an event-driven networking library for Lua whose core is written in C, and the theorems
  that make its parts correct.

  \<^bold>\<open>The program.\<close> A levent program is Lua code that runs on C modules. \<open>src/src/lua-socket.c\<close> is the socket
  module: thin wrappers of system calls over a userdata that owns a descriptor. \<open>src/src/lua-ev.c\<close> binds
  the event loop of libev (\<open>src/deps/libev\<close>), which calls Lua back when timers expire and descriptors get
  ready. \<open>src/src/lua-http-parser.c\<close> binds the HTTP parser (\<open>src/deps/http-parser\<close>). The database modules
  are \<open>src/cext/lua-bson.c\<close>, an encoder and decoder of BSON documents, and \<open>src/cext/lua-mongo.c\<close>, which
  builds and takes apart the messages of the MongoDB wire protocol around such documents.

  \<^bold>\<open>How the theories correspond to it.\<close> Definitions keep the names of the C functions.
  \<^item> \<open>Prelude\<close>: results (\<open>res\<close>) that are a value, an error raised in Lua (\<open>Raise\<close>) or undefined behaviour
    of the C code (\<open>UB\<close>: reading or writing out of a block, signed overflow, reading uninitialised memory,
    a loop that does not end within the fuel); bytes, C integers, little-endian encodings. Where what has
    been done before an error can be seen afterwards, it stands beside the result: the block of a document
    in \<open>lreplace\<close>, the log of system calls in \<open>Lua_Socket\<close>.
  \<^item> \<open>Lua_Values\<close>: values, tables in traversal order, the heap of tables, the conversions of the Lua API.
  \<^item> \<open>Grow_Buffer\<close>: the contract of a growing output buffer as the locale \<open>grow_buffer\<close>. \<open>Bson_Buffer\<close>
    (\<open>bson_reserve\<close> and the writers of \<open>lua-bson.c\<close>) and \<open>Mongo_Driver\<close> (\<open>buffer_reserve\<close> of
    \<open>lua-mongo.c\<close>) interpret it; what the messages contain is proved from its laws.
  \<^item> \<open>Bson_Spec\<close>: what documents are and which bytes they denote, without the code.
  \<^item> \<open>Bson_Encode\<close>, \<open>Bson_Reader\<close>, \<open>Bson_Decode\<close>: \<open>lencode\<close>, \<open>lencode_order\<close>, the reader \<open>bson_reader\<close>,
    \<open>ldecode\<close>; \<open>Bson_Decode_Safe\<close> and \<open>Bson_Codec\<close>: safety and the properties of the two directions.
  \<^item> \<open>Bson_Index\<close>: \<open>lmakeindex\<close> and \<open>lreplace\<close>; \<open>Bson_Types\<close>: the typed strings and object ids.
  \<^item> \<open>Mongo_Driver\<close>: the operations of the driver module, as the message they return.
  \<^item> \<open>Http_Url\<close>: \<open>http_parser_parse_url\<close> with its character and host state machines; \<open>Http_Url_Text\<close>: URLs
    as their parts and their text; \<open>Http_Binding\<close>: the callbacks and \<open>parse_url\<close> of the binding.
  \<^item> \<open>Http_Parser\<close>: the structure \<open>http_parser\<close>, its tables and the macros that run callbacks; \<open>Http_Exec\<close>:
    \<open>http_parser_execute\<close>, one definition per group of states of its switch (local variables are the record
    \<open>exec\<close>, \<open>goto\<close> and \<open>return\<close> the type \<open>flow\<close>); \<open>Http_Exec_Safe\<close> and \<open>Http_Exec_Total\<close>: the invariant of the
    parser, and that every call ends in it. \<open>Http_Message\<close>: \<open>execute\<close> of the binding, which runs the
    callbacks inside the parser, and the names of errors.
  \<^item> \<open>Http_Run\<close>: runs of the parser over pieces of text and their composition; \<open>Http_Lines\<close> (request and
    status lines), \<open>Http_Methods\<close>, \<open>Http_Headers\<close>, \<open>Http_Bodies\<close>, \<open>Http_Chunks\<close>: the run over each part of a
    message; \<open>Http_Text\<close>: requests and responses as their parts and their text, and what a table holds after
    them; \<open>Http_Contract\<close>: the properties.
  \<^item> \<open>Lua_Socket\<close>: the methods of a socket, over a kernel that is a function of the calls made so far; the
    constants of the platform are a record.
  \<^item> \<open>Ev_Heap\<close>: the 4-heap of \<open>ev.c\<close> (\<open>upheap\<close>, \<open>downheap\<close>, \<open>adjustheap\<close>, \<open>reheap\<close>) on an array and the
    positions stored in the watchers; \<open>Ev_Timer\<close>: starting, stopping and restarting timers, the pending
    queues and \<open>timers_reify\<close>; \<open>Ev_Reify\<close>: what expiring timers does; \<open>Ev_Loop\<close>: the loop as a step
    relation with its invariant.

  \<^bold>\<open>What the theorems show.\<close>
  \<^item> The encoder refines the conversion of Lua values to documents followed by the denotation of documents,
    decoding inverts it, decoding never loops and is memory safe on well-formed lengths, and the inputs on
    which the code goes wrong are described: negative lengths of nested documents (C8), regular expressions
    without a separator (C10). An assignment through an index updates exactly its field, or raises an error
    and leaves the block as it was (C11), and making the index ends unless a length is negative (C12).
  \<^item> What the constructors build is taken apart by \<open>type\<close>, encoded, and decoded to the same values; generated
    object ids are distinct; dates before 1970 are stored as later ones (C13 to C17).
  \<^item> Each database message has the layout of the protocol, with its length in front; replies are taken apart
    accordingly (C18 to C23).
  \<^item> The callbacks assemble the message that the parser reports; a URL printed from its parts is parsed into
    them; every read stays in the text; and a defect (C24 to C27).
  \<^item> Whatever the data and the callbacks, the message parser ends, trips no assertion and stays in its tables
    (C28). It recognises exactly the methods and the header names of its tables (C29, C30), and \<open>execute\<close>
    reads back what a request or a response prints, bodies by length and in chunks included (C31, C32).
  \<^item> A socket closes its descriptor once, an argument error leaves no system call behind, what \<open>recv\<close> returns is
    what the kernel stored, address lists are released, except by \<open>sendto\<close> (C33 to C37).
  \<^item> Every sequence of timer operations that the manual allows keeps the heap ordered, every watcher's
    position exact and the pending queues consistent, and feeding events leaves the array of queues in one case
    only; expiring timers ends, misses none and keeps their order; a stopped timer is not
    invoked (C38 to C40).

  \<^bold>\<open>Bounds and fuel.\<close> Lua integers are 64-bit words. Arithmetic on a C \<open>int\<close> is checked and its overflow an
  error; unsigned arithmetic and conversions wrap, among them the \<open>size_t\<close> lengths of a regular expression,
  the 16-bit fields of a parsed URL and the results of system calls, unbounded integers (\<open>r_ret\<close>) that the
  socket module narrows to an \<open>int\<close>. Fuel occurs where a loop may not end: \<open>lmakeindex\<close> (the size of the
  document is enough unless a length is negative, C12), \<open>op_reply\<close> (C23 states when it is enough),
  \<open>unpack_dict\<close> (never runs out, C5), \<open>http_parser_execute\<close> (a round per byte and one more, and eight looks at
  a byte, are always enough, C28), \<open>timers_reify\<close> (the number of timers is enough, C39) and
  \<open>ev_invoke_pending\<close>, whose callbacks may go on for ever. The encoder nests at most
  \<open>MAX_DEPTH\<close> = 128 tables, and encoder and decoder as many as the Lua stack admits (\<open>stack_levels\<close>, \<open>lvl\<close>).

  \<^bold>\<open>Not modelled.\<close> Of libev: the descriptor watchers and the backends (epoll, kqueue, poll, select, ports),
  signals, children, stat, periodic and embedded watchers, \<open>ev_run\<close> itself, which is system calls around the
  parts modelled here. Parser types outside the enumeration, which \<open>new\<close> lets through.
  \<open>luacrypto\<close> is calls of OpenSSL. \<open>lua-ev.c\<close> and \<open>lua-errno.c\<close> are argument passing between Lua and C.
  The C library's \<open>malloc\<close> is taken to succeed. Floating-point time is a linearly ordered type with an
  arithmetic that the invariants do not depend on: an order without NaN.
\<close>

end
